(* ===== verification/Prelude.thy ===== *)
theory Prelude
  imports
    Complex_Main
    "HOL-Library.Word"
    "HOL-Library.AList"
    "HOL-Library.Char_ord"
    "HOL-Library.List_Lexorder"
    "HOL-Library.Product_Lexorder"
begin

text \<open>
  Shared vocabulary of the development: how the Go values the relay is written in are
  represented, and the generic lemmas every component uses.

  \<^item> A Go \<^verbatim>\<open>string\<close> is a byte sequence, here a HOL \<^typ>\<open>string\<close> (a \<^typ>\<open>char\<close> is one byte);
    Go's \<^verbatim>\<open><\<close> on strings is the bytewise lexicographic order that \<^verbatim>\<open>List_Lexorder\<close> and
    \<^verbatim>\<open>Char_ord\<close> put on \<^typ>\<open>string\<close>.
  \<^item> A Go slice whose nil value the code tells apart from an empty one is an optional list.
  \<^item> A Go map that is iterated is an association list (the list is the iteration order);
    a map that is only looked up is a HOL map, and a \<^verbatim>\<open>map[string]bool\<close> a set.
  \<^item> \<^verbatim>\<open>int64\<close> values are \<^typ>\<open>int\<close>, with \<open>wrap64\<close> where the code computes on them.
  \<^item> A \<^verbatim>\<open>time.Time\<close> is the number of nanoseconds from the Unix epoch.
\<close>

section \<open>Collections of rewrite rules\<close>

named_theorems go_defs \<open>definitions of small helpers that proofs unfold\<close>
named_theorems msg_defs \<open>message constructors and message type labels\<close>
named_theorems mw_defs \<open>middleware handlers\<close>

section \<open>Slices\<close>

type_synonym 'a slice = "'a list option"

definition elems :: "'a slice \<Rightarrow> 'a list" where
  "elems s = (case s of None \<Rightarrow> [] | Some xs \<Rightarrow> xs)"

lemma elems_simps [simp]: "elems None = []" "elems (Some xs) = xs"
  by (simp_all add: elems_def)

section \<open>Signed 64-bit integers\<close>

definition int64 :: "int \<Rightarrow> bool" where
  "int64 x \<longleftrightarrow> - (2 ^ 63) \<le> x \<and> x < 2 ^ 63"

definition wrap64 :: "int \<Rightarrow> int" where
  "wrap64 x = (x + 2 ^ 63) mod 2 ^ 64 - 2 ^ 63"

lemma wrap64_id: "int64 x \<Longrightarrow> wrap64 x = x"
  by (simp add: int64_def wrap64_def)

lemma int64_wrap64 [simp]: "int64 (wrap64 x)"
  by (simp add: int64_def wrap64_def)

lemma wrap64_wrap64_add: "wrap64 (wrap64 (x + y) - y) = wrap64 x"
proof -
  have "((x + y + 2 ^ 63) mod 2 ^ 64 - 2 ^ 63 - y + 2 ^ 63) mod 2 ^ 64
      = ((x + y + 2 ^ 63) mod 2 ^ 64 - y) mod (2 ^ 64 :: int)"
    by (simp add: algebra_simps)
  also have "\<dots> = (x + 2 ^ 63) mod 2 ^ 64"
    by (simp add: mod_diff_left_eq algebra_simps)
  finally show ?thesis by (simp add: wrap64_def)
qed

section \<open>Time\<close>

type_synonym time = int

abbreviation nsPerSec :: int where
  "nsPerSec \<equiv> 1000000000"

text \<open>
  A \<^verbatim>\<open>time.Time\<close> counts its seconds from the year 1 in an \<^verbatim>\<open>int64\<close>: \<^verbatim>\<open>time.Unix(s, 0)\<close> adds
  62135596800 with wrap-around, and \<^verbatim>\<open>t.Unix()\<close> subtracts it again with wrap-around.
\<close>

definition unixToInternal :: int where
  "unixToInternal = 62135596800"

definition time_Unix :: "int \<Rightarrow> time" where
  "time_Unix sec = (wrap64 (sec + unixToInternal) - unixToInternal) * nsPerSec"

definition Unix :: "time \<Rightarrow> int" where
  "Unix t = wrap64 (t div nsPerSec)"

lemma Unix_time_Unix [simp]: "int64 s \<Longrightarrow> Unix (time_Unix s) = s"
  by (simp add: Unix_def time_Unix_def wrap64_wrap64_add wrap64_id)

lemma time_Unix_ordinary:
  "int64 s \<Longrightarrow> s < 2 ^ 63 - unixToInternal \<Longrightarrow> time_Unix s = s * nsPerSec"
  by (simp add: time_Unix_def wrap64_id int64_def unixToInternal_def)

section \<open>Decimal numbers\<close>

definition digit :: "nat \<Rightarrow> char" where
  "digit d = char_of (48 + d)"

fun nat_digits :: "nat \<Rightarrow> string" where
  "nat_digits n = (if n < 10 then [digit n] else nat_digits (n div 10) @ [digit (n mod 10)])"

declare nat_digits.simps [simp del]

text \<open>\<^verbatim>\<open>strconv.FormatInt(i, 10)\<close> and \<^verbatim>\<open>fmt\<close>'s \<^verbatim>\<open>%d\<close>.\<close>

definition FormatInt :: "int \<Rightarrow> string" where
  "FormatInt i = (if i < 0 then CHR ''-'' # nat_digits (nat (- i)) else nat_digits (nat i))"

definition is_digit :: "char \<Rightarrow> bool" where
  "is_digit c \<longleftrightarrow> CHR ''0'' \<le> c \<and> c \<le> CHR ''9''"

definition digit_val :: "char \<Rightarrow> int" where
  "digit_val c = int (of_char c) - 48"

definition digits_val :: "string \<Rightarrow> int" where
  "digits_val = foldl (\<lambda>n c. 10 * n + digit_val c) 0"

text \<open>
  \<^verbatim>\<open>strconv.ParseInt(s, 10, 64)\<close> and \<^verbatim>\<open>strconv.Atoi\<close> (64-bit \<^verbatim>\<open>int\<close>): an optional sign and at
  least one decimal digit, with a range error outside \<^verbatim>\<open>int64\<close>.
\<close>

definition ParseInt :: "string \<Rightarrow> int option" where
  "ParseInt s =
     (let neg = (s \<noteq> [] \<and> hd s = CHR ''-'');
          ds = (if s \<noteq> [] \<and> (hd s = CHR ''-'' \<or> hd s = CHR ''+'') then tl s else s);
          v = (if neg then - digits_val ds else digits_val ds)
      in if ds \<noteq> [] \<and> list_all is_digit ds \<and> int64 v then Some v else None)"

lemma digit_chars [simp]:
  "digit 0 = CHR ''0''" "digit 1 = CHR ''1''" "digit (Suc 0) = CHR ''1''" "digit 2 = CHR ''2''"
  "digit 3 = CHR ''3''" "digit 4 = CHR ''4''" "digit 5 = CHR ''5''" "digit 6 = CHR ''6''"
  "digit 7 = CHR ''7''" "digit 8 = CHR ''8''" "digit 9 = CHR ''9''"
  by code_simp+

lemma of_char_digit: "d < 10 \<Longrightarrow> of_char (digit d) = 48 + d"
  by (simp add: digit_def)

lemma is_digit_iff: "is_digit c \<longleftrightarrow> 48 \<le> (of_char c :: nat) \<and> of_char c \<le> (57 :: nat)"
  by (simp add: is_digit_def less_eq_char_def)

lemma is_digit_digit: "d < 10 \<Longrightarrow> is_digit (digit d)"
  by (simp add: is_digit_iff of_char_digit)

lemma digit_val_digit: "d < 10 \<Longrightarrow> digit_val (digit d) = int d"
  by (simp add: digit_val_def of_char_digit)

lemma nat_digits_nonempty [simp]: "nat_digits n \<noteq> []"
  by (subst nat_digits.simps) simp

lemma nat_digits_all: "list_all is_digit (nat_digits n)"
proof (induction n rule: nat_digits.induct)
  case (1 n)
  then show ?case by (subst nat_digits.simps) (auto simp: is_digit_digit)
qed

lemma digits_val_append: "digits_val (xs @ [c]) = 10 * digits_val xs + digit_val c"
  by (simp add: digits_val_def)

lemma digits_val_nat_digits: "digits_val (nat_digits n) = int n"
proof (induction n rule: nat_digits.induct)
  case (1 n)
  show ?case
  proof (cases "n < 10")
    case True
    then show ?thesis by (subst nat_digits.simps) (simp add: digits_val_def digit_val_digit)
  next
    case False
    have "10 * int (n div 10) + int (n mod 10) = int n"
      by (metis of_nat_add of_nat_mult of_nat_numeral mult_div_mod_eq)
    with False "1.IH" show ?thesis
      by (subst nat_digits.simps) (simp add: digits_val_append digit_val_digit)
  qed
qed

lemma nat_digits_inject [simp]: "nat_digits m = nat_digits n \<longleftrightarrow> m = n"
  by (metis digits_val_nat_digits of_nat_eq_iff)

lemma is_digit_sign [simp]: "\<not> is_digit (CHR ''-'')" "\<not> is_digit (CHR ''+'')" "\<not> is_digit (CHR '':'')"
    "\<not> is_digit (CHR '','')"
  by (simp_all add: is_digit_iff)

lemma hd_nat_digits: "is_digit (hd (nat_digits n))"
  using nat_digits_all[of n] nat_digits_nonempty[of n] by (cases "nat_digits n") auto

lemma nat_digits_no_sign:
  "hd (nat_digits n) \<noteq> CHR ''-''" "hd (nat_digits n) \<noteq> CHR ''+''"
  using hd_nat_digits[of n] is_digit_sign by metis+

lemma sign_not_nat_digits [simp]:
  "CHR ''-'' # xs \<noteq> nat_digits n" "nat_digits n \<noteq> CHR ''-'' # xs"
  using nat_digits_no_sign(1)[of n] by (metis list.sel(1))+

lemma non_digit_not_in_nat_digits: "\<not> is_digit c \<Longrightarrow> c \<notin> set (nat_digits n)"
  using nat_digits_all[of n] by (auto simp: list_all_iff)

lemma ParseInt_FormatInt [simp]: "int64 i \<Longrightarrow> ParseInt (FormatInt i) = Some i"
  by (cases "i < 0")
    (auto simp: ParseInt_def FormatInt_def Let_def digits_val_nat_digits nat_digits_all
      nat_digits_no_sign)

lemma FormatInt_inject [simp]: "FormatInt i = FormatInt j \<longleftrightarrow> i = j"
  by (auto simp: FormatInt_def)

lemma sep_not_in_FormatInt [simp]:
  "CHR '':'' \<notin> set (FormatInt i)" "CHR '','' \<notin> set (FormatInt i)"
  by (auto simp: FormatInt_def non_digit_not_in_nat_digits)

section \<open>Sorted lists\<close>

lemma sorted_wrt_distinct:
  "sorted_wrt P xs \<Longrightarrow> (\<And>x. \<not> P x x) \<Longrightarrow> distinct xs"
  by (induction xs) auto

lemma sorted_wrt_key_unique:
  fixes f :: "'a \<Rightarrow> 'b::linorder"
  assumes "sorted_wrt (\<lambda>a b. f a < f b) xs" "sorted_wrt (\<lambda>a b. f a < f b) ys" "set xs = set ys"
  shows "xs = ys"
proof -
  have strict: "sorted_wrt (<) (map f xs)" "sorted_wrt (<) (map f ys)"
    using assms(1,2) by (simp_all add: sorted_wrt_map)
  then have "map f xs = map f ys"
    using assms(3) by (metis strict_sorted_equal list.set_map)
  moreover have "inj_on f (set xs)"
    using strict(1) by (simp add: strict_sorted_iff distinct_map)
  ultimately show ?thesis using assms(3) by (intro map_inj_on[of f xs ys]) auto
qed

lemma sort_key_strict:
  fixes f :: "'a \<Rightarrow> 'b::linorder"
  assumes "distinct (map f xs)"
  shows "sorted_wrt (\<lambda>a b. f a < f b) (sort_key f xs)"
proof -
  from assms have "distinct (map f (sort_key f xs))" "sorted (map f (sort_key f xs))"
    by (auto simp: distinct_map)
  then have "sorted_wrt (<) (map f (sort_key f xs))" by (simp add: strict_sorted_iff)
  then show ?thesis by (simp add: sorted_wrt_map)
qed

section \<open>Splitting at a separator\<close>

lemma split_at_sep:
  assumes "c \<notin> set xs" "c \<notin> set ys" "xs @ c # us = ys @ c # vs"
  shows "xs = ys \<and> us = vs"
  using assms
proof (induction xs arbitrary: ys)
  case Nil
  then show ?case by (cases ys) auto
next
  case (Cons x xs)
  then show ?case by (cases ys) auto
qed

end
