(* ===== verification/Text_Encoding.thy ===== *)
theory Text_Encoding
  imports Prelude
begin

text \<open>
  The parts of Go's \<^verbatim>\<open>unicode/utf8\<close>, \<^verbatim>\<open>encoding/hex\<close> and \<^verbatim>\<open>encoding/json/v2\<close> the relay relies on
  when it builds or checks byte strings: UTF-8 validity and rune counting, hexadecimal
  encoding, quoting of JSON strings and JSON arrays. The lemmas say that the hexadecimal
  encoding can be decoded again and that the JSON encodings are unambiguous: they can be
  told apart from whatever follows them.
\<close>

section \<open>UTF-8\<close>

abbreviation byte_of :: "char \<Rightarrow> nat" where
  "byte_of c \<equiv> of_char c"

definition in_range :: "nat \<Rightarrow> nat \<Rightarrow> char \<Rightarrow> bool" where
  "in_range lo hi c \<longleftrightarrow> lo \<le> byte_of c \<and> byte_of c \<le> hi"

text \<open>The width of the valid encoding a byte string starts with, \<open>None\<close> if it starts with none.\<close>

fun rune_width :: "string \<Rightarrow> nat option" where
  "rune_width [] = None"
| "rune_width (c # cs) =
     (let b = byte_of c in
      if b < 128 then Some 1
      else if 194 \<le> b \<and> b \<le> 223 then
        (case cs of c1 # _ \<Rightarrow> if in_range 128 191 c1 then Some 2 else None | _ \<Rightarrow> None)
      else if 224 \<le> b \<and> b \<le> 239 then
        (case cs of c1 # c2 # _ \<Rightarrow>
           if in_range (if b = 224 then 160 else 128) (if b = 237 then 159 else 191) c1
              \<and> in_range 128 191 c2 then Some 3 else None
         | _ \<Rightarrow> None)
      else if 240 \<le> b \<and> b \<le> 244 then
        (case cs of c1 # c2 # c3 # _ \<Rightarrow>
           if in_range (if b = 240 then 144 else 128) (if b = 244 then 143 else 191) c1
              \<and> in_range 128 191 c2 \<and> in_range 128 191 c3 then Some 4 else None
         | _ \<Rightarrow> None)
      else None)"

lemma rune_width_pos: "rune_width s = Some w \<Longrightarrow> 0 < w \<and> s \<noteq> []"
  by (cases s) (auto simp: Let_def split: if_splits list.splits)

text \<open>\<^verbatim>\<open>utf8.Valid\<close>: the string is a sequence of valid encodings.\<close>

function utf8_valid :: "string \<Rightarrow> bool" where
  "utf8_valid s =
     (if s = [] then True
      else case rune_width s of None \<Rightarrow> False | Some w \<Rightarrow> utf8_valid (drop w s))"
  by pat_completeness auto
termination
  by (relation "measure length") (auto dest: rune_width_pos)

text \<open>\<^verbatim>\<open>utf8.RuneCountInString\<close>: an invalid byte counts as one rune.\<close>

function rune_count :: "string \<Rightarrow> nat" where
  "rune_count s =
     (if s = [] then 0
      else Suc (rune_count (drop (case rune_width s of None \<Rightarrow> 1 | Some w \<Rightarrow> w) s)))"
  by pat_completeness auto
termination
  by (relation "measure length") (auto dest: rune_width_pos split: option.splits)

declare utf8_valid.simps [simp del] rune_count.simps [simp del]

lemma utf8_valid_ascii: "\<forall>c \<in> set s. byte_of c < 128 \<Longrightarrow> utf8_valid s"
proof (induction s)
  case Nil
  then show ?case by (simp add: utf8_valid.simps)
next
  case (Cons c s)
  then show ?case by (subst utf8_valid.simps) (simp add: Let_def)
qed

lemma rune_count_le_length: "rune_count s \<le> length s"
proof (induction s rule: rune_count.induct)
  case (1 s)
  show ?case
  proof (cases s)
    case Nil
    then show ?thesis by (simp add: rune_count.simps)
  next
    case (Cons c cs)
    let ?w = "case rune_width s of None \<Rightarrow> 1 | Some w \<Rightarrow> w"
    have "0 < ?w" by (auto dest: rune_width_pos split: option.splits)
    moreover have "rune_count (drop ?w s) \<le> length (drop ?w s)" using "1.IH" Cons by simp
    ultimately have "Suc (rune_count (drop ?w s)) \<le> length s" using Cons by simp
    then show ?thesis using Cons by (subst rune_count.simps) simp
  qed
qed

section \<open>Hexadecimal\<close>

definition nibble_char :: "nat \<Rightarrow> char" where
  "nibble_char n = (if n < 10 then char_of (48 + n) else char_of (87 + n))"

lemma nibble_char_simps [simp]:
  "nibble_char 0 = CHR ''0''" "nibble_char 1 = CHR ''1''" "nibble_char 10 = CHR ''a''" "nibble_char 15 = CHR ''f''"
  by code_simp+

text \<open>\<^verbatim>\<open>encoding/hex\<close> reads both cases; \<open>None\<close> is its error.\<close>

definition hex_val :: "char \<Rightarrow> nat option" where
  "hex_val c =
     (if in_range 48 57 c then Some (byte_of c - 48)
      else if in_range 97 102 c then Some (byte_of c - 87)
      else if in_range 65 70 c then Some (byte_of c - 55)
      else None)"

fun EncodeToString :: "string \<Rightarrow> string" where
  "EncodeToString [] = []"
| "EncodeToString (c # cs) =
     nibble_char (byte_of c div 16) # nibble_char (byte_of c mod 16) # EncodeToString cs"

fun DecodeString :: "string \<Rightarrow> string option" where
  "DecodeString [] = Some []"
| "DecodeString [c] = None"
| "DecodeString (h # l # cs) =
     (case (hex_val h, hex_val l) of
        (Some a, Some b) \<Rightarrow> map_option (Cons (char_of (16 * a + b))) (DecodeString cs)
      | _ \<Rightarrow> None)"

lemma hex_val_nibble_char [simp]: "n < 16 \<Longrightarrow> hex_val (nibble_char n) = Some n"
  by (simp add: hex_val_def nibble_char_def in_range_def)

lemma byte_of_less: "byte_of c < 256"
  using of_char_mod_256[of c, where ?'a = nat] by (metis mod_less_divisor zero_less_numeral)

lemma byte_of_nibbles [simp]: "byte_of c div 16 < 16" "byte_of c mod 16 < 16"
    "char_of (16 * (byte_of c div 16) + byte_of c mod 16) = c"
  using byte_of_less[of c] by (simp_all add: less_mult_imp_div_less)

lemma DecodeString_EncodeToString [simp]: "DecodeString (EncodeToString bs) = Some bs"
  by (induction bs) simp_all

lemma length_EncodeToString [simp]: "length (EncodeToString bs) = 2 * length bs"
  by (induction bs) auto

lemma length_DecodeString: "DecodeString s = Some bs \<Longrightarrow> length s = 2 * length bs"
  by (induction s arbitrary: bs rule: DecodeString.induct) (auto split: option.splits)

section \<open>JSON strings and arrays\<close>

text \<open>Escaping of one byte as \<^verbatim>\<open>encoding/json/v2\<close> writes it with its default options.\<close>

definition escape :: "char \<Rightarrow> string" where
  "escape c =
     (if c = CHR 0x22 then [CHR 0x5C, CHR 0x22]
      else if c = CHR 0x5C then [CHR 0x5C, CHR 0x5C]
      else if c = CHR 0x08 then [CHR 0x5C, CHR ''b'']
      else if c = CHR 0x0C then [CHR 0x5C, CHR ''f'']
      else if c = CHR 0x0A then [CHR 0x5C, CHR ''n'']
      else if c = CHR 0x0D then [CHR 0x5C, CHR ''r'']
      else if c = CHR 0x09 then [CHR 0x5C, CHR ''t'']
      else if byte_of c < 32 then
        [CHR 0x5C, CHR ''u'', CHR ''0'', CHR ''0'',
         nibble_char (byte_of c div 16), nibble_char (byte_of c mod 16)]
      else [c])"

definition quote :: "string \<Rightarrow> string" where
  "quote s = CHR 0x22 # concat (map escape s) @ [CHR 0x22]"

text \<open>\<^verbatim>\<open>json.Marshal\<close> of a string fails on invalid UTF-8.\<close>

definition marshal_string :: "string \<Rightarrow> string option" where
  "marshal_string s = (if utf8_valid s then Some (quote s) else None)"

fun array_rest :: "('a \<Rightarrow> string) \<Rightarrow> 'a list \<Rightarrow> string" where
  "array_rest enc [] = '']''"
| "array_rest enc (x # xs) = CHR '','' # enc x @ array_rest enc xs"

fun enc_array :: "('a \<Rightarrow> string) \<Rightarrow> 'a list \<Rightarrow> string" where
  "enc_array enc [] = ''[]''"
| "enc_array enc (x # xs) = CHR ''['' # enc x @ array_rest enc xs"

text \<open>
  An encoding is self-delimiting if it can be cut off the front of a longer string in only one
  way, and its first character is none that ends or separates array elements.
\<close>

definition self_delimiting :: "('a \<Rightarrow> string) \<Rightarrow> bool" where
  "self_delimiting enc \<longleftrightarrow>
     (\<forall>x y u v. enc x @ u = enc y @ v \<longrightarrow> x = y \<and> u = v) \<and>
     (\<forall>x. enc x \<noteq> [] \<and> hd (enc x) \<noteq> CHR '']'' \<and> hd (enc x) \<noteq> CHR '','')"

lemma self_delimitingD:
  "self_delimiting enc \<Longrightarrow> enc x @ u = enc y @ v \<Longrightarrow> x = y \<and> u = v"
  by (auto simp: self_delimiting_def)

lemma hd_escape: "escape c \<noteq> [] \<and> hd (escape c) \<noteq> CHR 0x22"
  by (simp add: escape_def)

text \<open>The escape a string starts with, read back.\<close>

fun unescape_head :: "string \<Rightarrow> (char \<times> string) option" where
  "unescape_head [] = None"
| "unescape_head (c # cs) =
     (if c \<noteq> CHR 0x5C then Some (c, cs)
      else case cs of [] \<Rightarrow> None | d # ds \<Rightarrow>
        if d = CHR ''b'' then Some (CHR 0x08, ds)
        else if d = CHR ''f'' then Some (CHR 0x0C, ds)
        else if d = CHR ''n'' then Some (CHR 0x0A, ds)
        else if d = CHR ''r'' then Some (CHR 0x0D, ds)
        else if d = CHR ''t'' then Some (CHR 0x09, ds)
        else if d = CHR ''u'' then
          (case ds of _ # _ # h # l # es \<Rightarrow>
             Some (char_of (16 * the (hex_val h) + the (hex_val l)), es) | _ \<Rightarrow> None)
        else Some (d, ds))"

lemma unescape_head_escape: "unescape_head (escape c @ u) = Some (c, u)"
  by (simp add: escape_def)

lemma escape_cancel: "escape c @ u = escape d @ v \<Longrightarrow> c = d \<and> u = v"
  by (metis unescape_head_escape option.inject prod.inject)

lemma escape_all_cancel:
  "concat (map escape s) @ CHR 0x22 # u = concat (map escape t) @ CHR 0x22 # v \<Longrightarrow> s = t \<and> u = v"
proof (induction s arbitrary: t)
  case Nil
  show ?case
  proof (cases t)
    case (Cons d t')
    with Nil hd_escape[of d] show ?thesis by (cases "escape d") auto
  qed (use Nil in simp)
next
  case (Cons c s)
  show ?case
  proof (cases t)
    case Nil
    with Cons.prems hd_escape[of c] show ?thesis by (cases "escape c") auto
  next
    case (Cons d t')
    with Cons.prems have "escape c @ (concat (map escape s) @ CHR 0x22 # u)
        = escape d @ (concat (map escape t') @ CHR 0x22 # v)" by simp
    from escape_cancel[OF this] Cons.IH[of t'] Cons show ?thesis by auto
  qed
qed

lemma self_delimiting_quote: "self_delimiting quote"
  by (auto simp: self_delimiting_def quote_def dest: escape_all_cancel)

lemma array_rest_cancel:
  assumes sd: "self_delimiting enc"
  shows "array_rest enc xs @ u = array_rest enc ys @ v \<Longrightarrow> xs = ys \<and> u = v"
proof (induction xs arbitrary: ys)
  case Nil
  then show ?case by (cases ys) auto
next
  case (Cons x xs)
  then obtain y ys' where ys: "ys = y # ys'" by (cases ys) auto
  with Cons.prems have "enc x @ (array_rest enc xs @ u) = enc y @ (array_rest enc ys' @ v)" by simp
  from self_delimitingD[OF sd this] Cons.IH[of ys'] ys show ?case by auto
qed

lemma hd_enc_array: "enc_array enc xs \<noteq> [] \<and> hd (enc_array enc xs) = CHR ''[''"
  by (cases xs) auto

lemma self_delimiting_enc_array:
  assumes sd: "self_delimiting enc"
  shows "self_delimiting (enc_array enc)"
proof -
  have start: "enc x @ w \<noteq> CHR '']'' # w'" for x w w'
    using sd unfolding self_delimiting_def by (metis hd_append2 list.sel(1))
  have "xs = ys \<and> u = v" if eq: "enc_array enc xs @ u = enc_array enc ys @ v" for xs ys u v
  proof (cases xs; cases ys)
    fix x xs' y ys' assume xy: "xs = x # xs'" "ys = y # ys'"
    with eq have "enc x @ (array_rest enc xs' @ u) = enc y @ (array_rest enc ys' @ v)" by simp
    from self_delimitingD[OF sd this] array_rest_cancel[OF sd, of xs' u ys' v] xy
    show ?thesis by simp
  qed (use eq start in auto, use eq start in metis)
  then show ?thesis using hd_enc_array[of enc] by (auto simp: self_delimiting_def)
qed

end
