(* ===== verification/Event.thy ===== *)
theory Event
  imports Text_Encoding
begin

text \<open>
  \<^verbatim>\<open>event.go\<close>: the Nostr event, its category, its format check, the canonical serialisation its
  identifier is the hash of, signature verification, and the address of replaceable and
  addressable events. \<^verbatim>\<open>isValidLowercaseHex\<close> is in \<^verbatim>\<open>filter.go\<close>.

  SHA-256 and the Schnorr signature scheme are a parameter (the record \<open>crypto\<close>).
\<close>

section \<open>Data\<close>

datatype EventType =
  EventTypeRegular | EventTypeReplaceable | EventTypeEphemeral | EventTypeAddressable

type_synonym Tag = "string list"

record Event =
  ID :: string
  Pubkey :: string
  CreatedAt :: time
  Kind :: int
  Tags :: "Tag slice"
  Content :: string
  Sig :: string

abbreviation tags_of :: "Event \<Rightarrow> Tag list" where
  "tags_of e \<equiv> elems (Tags e)"

definition Key :: "Tag \<Rightarrow> string" where
  "Key t = (if length t < 1 then '''' else t ! 0)"

definition Value :: "Tag \<Rightarrow> string" where
  "Value t = (if length t < 2 then '''' else t ! 1)"

text \<open>A small event for the concrete instances of the properties; times in Unix seconds.\<close>

definition mk_event :: "string \<Rightarrow> string \<Rightarrow> int \<Rightarrow> int \<Rightarrow> Tag list \<Rightarrow> Event" where
  "mk_event i p t k ts = \<lparr>ID = i, Pubkey = p, CreatedAt = t * nsPerSec, Kind = k, Tags = Some ts,
     Content = '''', Sig = ''''\<rparr>"

lemma mk_event_fields [simp]:
  "ID (mk_event i p t k ts) = i" "Pubkey (mk_event i p t k ts) = p"
  "CreatedAt (mk_event i p t k ts) = t * nsPerSec" "Kind (mk_event i p t k ts) = k"
  "Tags (mk_event i p t k ts) = Some ts" "Content (mk_event i p t k ts) = ''''"
  by (simp_all add: mk_event_def)

lemma mk_event_eq [simp]:
  "mk_event i p t k ts = mk_event i' p' t' k' ts' \<longleftrightarrow> i = i' \<and> p = p' \<and> t = t' \<and> k = k' \<and> ts = ts'"
  by (simp add: mk_event_def)

section \<open>Categories and format\<close>

definition eventType_of_kind :: "int \<Rightarrow> EventType" where
  "eventType_of_kind kind =
     (if kind = 0 \<or> kind = 3 \<or> (10000 \<le> kind \<and> kind < 20000) then EventTypeReplaceable
      else if 20000 \<le> kind \<and> kind < 30000 then EventTypeEphemeral
      else if 30000 \<le> kind \<and> kind < 40000 then EventTypeAddressable
      else EventTypeRegular)"

definition eventType :: "Event \<Rightarrow> EventType" where
  "eventType e = eventType_of_kind (Kind e)"

definition isValidLowercaseHex :: "string \<Rightarrow> nat \<Rightarrow> bool" where
  "isValidLowercaseHex s len =
     (if length s \<noteq> len then False
      else list_all (\<lambda>c. (CHR ''0'' \<le> c \<and> c \<le> CHR ''9'') \<or> (CHR ''a'' \<le> c \<and> c \<le> CHR ''f'')) s)"

text \<open>\<^verbatim>\<open>Valid\<close>; the receiver may be a nil pointer.\<close>

definition Event_Valid :: "Event option \<Rightarrow> bool" where
  "Event_Valid ep =
     (case ep of None \<Rightarrow> False
      | Some e \<Rightarrow>
          if \<not> isValidLowercaseHex (ID e) 64 then False
          else if \<not> isValidLowercaseHex (Pubkey e) 64 then False
          else if Kind e < 0 \<or> Kind e > 65535 then False
          else if Tags e = None then False
          else if \<exists>t \<in> set (tags_of e). length t < 1 \<or> t ! 0 = '''' then False
          else if \<not> isValidLowercaseHex (Sig e) 128 then False
          else True)"

section \<open>Canonical serialisation\<close>

datatype serialize_error = NilEvent | MarshalPubkey | MarshalTags | MarshalContent

text \<open>\<^verbatim>\<open>json.Marshal(e.Tags)\<close>: a nil slice is written as an empty array, one string that is not
  valid UTF-8 makes it fail.\<close>

definition marshal_tags :: "Tag list \<Rightarrow> string option" where
  "marshal_tags ts =
     (if list_all (list_all utf8_valid) ts then Some (enc_array (enc_array quote) ts) else None)"

definition Serialize :: "Event option \<Rightarrow> serialize_error + string" where
  "Serialize ep =
     (case ep of None \<Rightarrow> Inl NilEvent
      | Some e \<Rightarrow>
          (case marshal_string (Pubkey e) of None \<Rightarrow> Inl MarshalPubkey
           | Some pubkeyJSON \<Rightarrow>
          (case marshal_tags (tags_of e) of None \<Rightarrow> Inl MarshalTags
           | Some tagsJSON \<Rightarrow>
          (case marshal_string (Content e) of None \<Rightarrow> Inl MarshalContent
           | Some contentJSON \<Rightarrow>
               Inr (''[0,'' @ pubkeyJSON @ '','' @ FormatInt (Unix (CreatedAt e)) @ '','' @
                    FormatInt (Kind e) @ '','' @ tagsJSON @ '','' @ contentJSON @ '']'')))))"

section \<open>Verification\<close>

record ('pk, 'sg) crypto =
  sha256 :: "string \<Rightarrow> string"
  ParsePubKey :: "string \<Rightarrow> 'pk option"
  ParseSignature :: "string \<Rightarrow> 'sg option"
  sigVerify :: "'sg \<Rightarrow> string \<Rightarrow> 'pk \<Rightarrow> bool"

datatype verify_error =
  VerifyNil | VerifySerialize serialize_error | DecodePubkey | BadPubkey | DecodeSig | BadSig | DecodeId

definition Verify :: "('pk, 'sg) crypto \<Rightarrow> Event option \<Rightarrow> verify_error + bool" where
  "Verify C ep =
     (case ep of None \<Rightarrow> Inl VerifyNil
      | Some e \<Rightarrow>
     (case Serialize ep of Inl err \<Rightarrow> Inl (VerifySerialize err)
      | Inr serialized \<Rightarrow>
          if ID e \<noteq> EncodeToString (sha256 C serialized) then Inr False
          else
     (case DecodeString (Pubkey e) of None \<Rightarrow> Inl DecodePubkey
      | Some pubkeyBytes \<Rightarrow>
     (case ParsePubKey C pubkeyBytes of None \<Rightarrow> Inl BadPubkey
      | Some pubkey \<Rightarrow>
     (case DecodeString (Sig e) of None \<Rightarrow> Inl DecodeSig
      | Some sigBytes \<Rightarrow>
     (case ParseSignature C sigBytes of None \<Rightarrow> Inl BadSig
      | Some sig \<Rightarrow>
     (case DecodeString (ID e) of None \<Rightarrow> Inl DecodeId
      | Some idBytes \<Rightarrow> Inr (sigVerify C sig idBytes pubkey))))))))"

section \<open>Addresses\<close>

definition dTag :: "Event \<Rightarrow> string" where
  "dTag e =
     (case find (\<lambda>t. length t \<ge> 1 \<and> t ! 0 = ''d'') (tags_of e) of
        None \<Rightarrow> ''''
      | Some t \<Rightarrow> if length t > 1 then t ! 1 else '''')"

definition Address_of :: "Event \<Rightarrow> string" where
  "Address_of e =
     (case eventType e of
        EventTypeReplaceable \<Rightarrow> FormatInt (Kind e) @ '':'' @ Pubkey e @ '':''
      | EventTypeAddressable \<Rightarrow> FormatInt (Kind e) @ '':'' @ Pubkey e @ '':'' @ dTag e
      | _ \<Rightarrow> '''')"

definition Address :: "Event option \<Rightarrow> string" where
  "Address ep = (case ep of None \<Rightarrow> '''' | Some e \<Rightarrow> Address_of e)"

section \<open>Lemmas\<close>

lemma self_delimiting_tags: "self_delimiting (enc_array (enc_array quote))"
  by (intro self_delimiting_enc_array self_delimiting_quote)

lemma Serialize_Inr:
  "Serialize (Some e) = Inr s \<longleftrightarrow>
     utf8_valid (Pubkey e) \<and> list_all (list_all utf8_valid) (tags_of e) \<and> utf8_valid (Content e) \<and>
     s = ''[0,'' @ quote (Pubkey e) @ '','' @ FormatInt (Unix (CreatedAt e)) @ '','' @
         FormatInt (Kind e) @ '','' @ enc_array (enc_array quote) (tags_of e) @ '','' @
         quote (Content e) @ '']''"
  by (auto simp: Serialize_def marshal_string_def marshal_tags_def split: if_splits option.splits)

lemma isValidLowercaseHex_no_colon: "isValidLowercaseHex s n \<Longrightarrow> CHR '':'' \<notin> set s"
  by (auto simp: isValidLowercaseHex_def list_all_iff less_eq_char_def split: if_splits)

lemma Address_of_nonempty:
  "Address_of e \<noteq> '''' \<longleftrightarrow> eventType e = EventTypeReplaceable \<or> eventType e = EventTypeAddressable"
  by (cases "eventType e") (simp_all add: Address_of_def)

lemma Address_of_empty:
  "Address_of e = '''' \<longleftrightarrow> eventType e = EventTypeRegular \<or> eventType e = EventTypeEphemeral"
  by (cases "eventType e") (simp_all add: Address_of_def)

text \<open>The identifying part of an address: a replaceable event has no d tag in it.\<close>

definition address_key :: "Event \<Rightarrow> int \<times> string \<times> string" where
  "address_key e =
     (Kind e, Pubkey e, if eventType e = EventTypeAddressable then dTag e else '''')"

lemma Address_of_conv:
  "Address_of e \<noteq> '''' \<Longrightarrow>
     Address_of e = FormatInt (Kind e) @ CHR '':'' # (Pubkey e @ CHR '':'' # snd (snd (address_key e)))"
  by (cases "eventType e") (simp_all add: Address_of_def address_key_def)

lemma Address_of_inject:
  assumes ne: "Address_of e \<noteq> ''''" "Address_of f \<noteq> ''''"
    and colon: "CHR '':'' \<notin> set (Pubkey e)" "CHR '':'' \<notin> set (Pubkey f)"
  shows "Address_of e = Address_of f \<longleftrightarrow> address_key e = address_key f"
proof
  assume eq: "Address_of e = Address_of f"
  from split_at_sep[OF _ _ eq[unfolded Address_of_conv[OF ne(1)] Address_of_conv[OF ne(2)]]]
  have k: "Kind e = Kind f"
    and rest: "Pubkey e @ CHR '':'' # snd (snd (address_key e))
      = Pubkey f @ CHR '':'' # snd (snd (address_key f))" by auto
  from split_at_sep[OF colon rest] k show "address_key e = address_key f"
    by (simp add: address_key_def)
next
  assume "address_key e = address_key f"
  moreover from this have "Kind e = Kind f" "Pubkey e = Pubkey f" by (simp_all add: address_key_def)
  ultimately show "Address_of e = Address_of f"
    by (simp add: Address_of_conv[OF ne(1)] Address_of_conv[OF ne(2)])
qed

section \<open>Properties\<close>

text \<open>
  C1. The canonical serialisation is unambiguous: two events whose serialisation is the same
  byte string agree in every field the identifier commits to (pubkey, Unix time of creation,
  kind, tags and content).
\<close>

theorem Serialize_injective:
  assumes "Serialize (Some e) = Inr s" and "Serialize (Some f) = Inr s"
  shows "Pubkey e = Pubkey f \<and> Unix (CreatedAt e) = Unix (CreatedAt f) \<and> Kind e = Kind f
    \<and> tags_of e = tags_of f \<and> Content e = Content f"
proof -
  have "quote (Pubkey e) @ CHR '','' # FormatInt (Unix (CreatedAt e)) @ CHR '','' #
         FormatInt (Kind e) @ CHR '','' # enc_array (enc_array quote) (tags_of e) @ CHR '','' #
         quote (Content e) @ '']''
      = quote (Pubkey f) @ CHR '','' # FormatInt (Unix (CreatedAt f)) @ CHR '','' #
         FormatInt (Kind f) @ CHR '','' # enc_array (enc_array quote) (tags_of f) @ CHR '','' #
         quote (Content f) @ '']''"
    using assms by (simp add: Serialize_Inr)
  from self_delimitingD[OF self_delimiting_quote this]
  have pk: "Pubkey e = Pubkey f"
    and r1: "FormatInt (Unix (CreatedAt e)) @ CHR '','' # FormatInt (Kind e) @ CHR '','' #
        enc_array (enc_array quote) (tags_of e) @ CHR '','' # quote (Content e) @ '']''
      = FormatInt (Unix (CreatedAt f)) @ CHR '','' # FormatInt (Kind f) @ CHR '','' #
        enc_array (enc_array quote) (tags_of f) @ CHR '','' # quote (Content f) @ '']''"
    by auto
  from split_at_sep[OF _ _ r1] have ts: "Unix (CreatedAt e) = Unix (CreatedAt f)"
    and r2: "FormatInt (Kind e) @ CHR '','' #
        (enc_array (enc_array quote) (tags_of e) @ CHR '','' # quote (Content e) @ '']'')
      = FormatInt (Kind f) @ CHR '','' #
        (enc_array (enc_array quote) (tags_of f) @ CHR '','' # quote (Content f) @ '']'')"
    by auto
  from split_at_sep[OF _ _ r2] have k: "Kind e = Kind f"
    and r3: "enc_array (enc_array quote) (tags_of e) @ (CHR '','' # quote (Content e) @ '']'')
      = enc_array (enc_array quote) (tags_of f) @ (CHR '','' # quote (Content f) @ '']'')"
    by auto
  from self_delimitingD[OF self_delimiting_tags r3] have tg: "tags_of e = tags_of f"
    and r4: "quote (Content e) @ '']'' = quote (Content f) @ '']''" by auto
  from self_delimitingD[OF self_delimiting_quote r4] pk ts k tg show ?thesis by simp
qed

lemma Serialize_injective_witness:
  "\<exists>e f s. ID e \<noteq> ID f \<and> Serialize (Some e) = Inr s \<and> Serialize (Some f) = Inr s \<and> Kind e = Kind f"
proof -
  let ?e = "mk_event ''1'' ''p'' 1 7 [[''t'', ''x'']]" and ?f = "mk_event ''2'' ''p'' 1 7 [[''t'', ''x'']]"
  obtain s where s: "Serialize (Some ?e) = Inr s" "Serialize (Some ?f) = Inr s"
    by (simp add: Serialize_def mk_event_def marshal_string_def marshal_tags_def utf8_valid_ascii elems_def)
  with Serialize_injective[OF s] show ?thesis
    by (intro exI[of _ ?e] exI[of _ ?f] exI[of _ s]) simp
qed

text \<open>
  The address of a replaceable or addressable event determines, and is determined by, its
  kind, its author and (for an addressable event) its d tag, for authors that are valid
  lowercase hex keys.
\<close>

theorem Address_injective:
  assumes "Address (Some e) \<noteq> ''''" and "Address (Some f) \<noteq> ''''"
    and "isValidLowercaseHex (Pubkey e) 64" and "isValidLowercaseHex (Pubkey f) 64"
  shows "Address (Some e) = Address (Some f) \<longleftrightarrow>
    Kind e = Kind f \<and> Pubkey e = Pubkey f \<and> (eventType e = EventTypeAddressable \<longrightarrow> dTag e = dTag f)"
proof -
  have "eventType e = eventType f" if "Kind e = Kind f" using that by (simp add: eventType_def)
  then have "address_key e = address_key f \<longleftrightarrow>
    Kind e = Kind f \<and> Pubkey e = Pubkey f \<and> (eventType e = EventTypeAddressable \<longrightarrow> dTag e = dTag f)"
    by (auto simp: address_key_def)
  with Address_of_inject[of e f] assms isValidLowercaseHex_no_colon show ?thesis
    by (simp add: Address_def)
qed

lemma Address_injective_witness:
  "\<exists>e f. Kind e = Kind f \<and> Pubkey e = Pubkey f \<and> dTag e \<noteq> dTag f \<and> Address (Some e) \<noteq> Address (Some f)"
proof -
  let ?pk = "replicate 64 (CHR ''a'')"
  let ?e = "mk_event ''1'' ?pk 1 30000 [[''d'', ''x'']]" and ?f = "mk_event ''2'' ?pk 1 30000 [[''d'', ''y'']]"
  have addr: "eventType ?e = EventTypeAddressable" "eventType ?f = EventTypeAddressable"
    by (simp_all add: eventType_def eventType_of_kind_def)
  have hex: "isValidLowercaseHex ?pk 64" by (simp add: isValidLowercaseHex_def list_all_iff)
  have "Address (Some ?e) \<noteq> ''''" "Address (Some ?f) \<noteq> ''''"
    using Address_of_nonempty addr by (simp_all add: Address_def)
  from Address_injective[OF this] hex addr show ?thesis
    by (intro exI[of _ ?e] exI[of _ ?f]) (simp add: dTag_def)
qed

text \<open>
  \<open>Verify\<close> accepts an event only if its identifier is the lowercase hex digest of its canonical
  serialisation, and its signature, decoded, is valid for those digest bytes under the decoded
  public key. It never accepts a nil event.
\<close>

theorem Verify_accepts:
  assumes "Verify C ep = Inr True"
  shows "\<exists>e s pk sg. ep = Some e \<and> Serialize (Some e) = Inr s \<and>
    ID e = EncodeToString (sha256 C s) \<and>
    Option.bind (DecodeString (Pubkey e)) (ParsePubKey C) = Some pk \<and>
    Option.bind (DecodeString (Sig e)) (ParseSignature C) = Some sg \<and>
    sigVerify C sg (sha256 C s) pk"
  using assms
  by (auto simp: Verify_def split: option.splits sum.splits if_splits)

definition sample_crypto :: "(string, string) crypto" where
  "sample_crypto = \<lparr>sha256 = (\<lambda>s. replicate 32 (CHR ''A'')), ParsePubKey = Some, ParseSignature = Some,
     sigVerify = (\<lambda>sg d pk. sg = d)\<rparr>"

definition sample_note :: Event where
  "sample_note = \<lparr>ID = EncodeToString (replicate 32 (CHR ''A'')), Pubkey = ''00'', CreatedAt = 0, Kind = 1, Tags = Some [],
     Content = '''', Sig = EncodeToString (replicate 32 (CHR ''A''))\<rparr>"

lemma sample_note_verified: "Verify sample_crypto (Some sample_note) = Inr True"
proof -
  define d where "d = replicate 32 (CHR ''A'')"
  have c: "sha256 sample_crypto s = d" "ParsePubKey sample_crypto b = Some b" "ParseSignature sample_crypto b = Some b"
    "sigVerify sample_crypto sg h pk = (sg = h)" for s b sg h pk
    by (simp_all add: sample_crypto_def d_def)
  have "DecodeString ''00'' = Some [CHR 0x00]" by code_simp
  then show ?thesis
    unfolding sample_note_def d_def[symmetric]
    by (simp add: Verify_def Serialize_def marshal_string_def marshal_tags_def utf8_valid_ascii elems_def c
        del: DecodeString.simps)
qed

lemma Verify_accepts_witness:
  "\<exists>e s. Verify sample_crypto (Some e) = Inr True \<and> Serialize (Some e) = Inr s
     \<and> ID e = EncodeToString (sha256 sample_crypto s)"
  using Verify_accepts[OF sample_note_verified] sample_note_verified by auto

end
