(* ===== verification/Req_Filter.thy ===== *)
theory Req_Filter
  imports Event
begin

text \<open>
  \<^verbatim>\<open>filter.go\<close>: the filters of REQ and COUNT messages, their format check and the matching of
  an event against them; \<^verbatim>\<open>matchesAny\<close> is in \<^verbatim>\<open>router.go\<close>. The tag conditions are a Go map from a
  tag name to the accepted values, here the list of its entries.
\<close>

section \<open>Data\<close>

record ReqFilter =
  IDs :: "string slice"
  Authors :: "string slice"
  Kinds :: "int slice"
  TagFilters :: "(string \<times> string list) list"
  Since :: "int option"
  Until :: "int option"
  Limit :: "int option"
  Search :: "string option"

definition empty_filter :: ReqFilter where
  "empty_filter = \<lparr>IDs = None, Authors = None, Kinds = None, TagFilters = [],
     Since = None, Until = None, Limit = None, Search = None\<rparr>"

section \<open>Format\<close>

definition isTagLetter :: "char \<Rightarrow> bool" where
  "isTagLetter b \<longleftrightarrow> (CHR ''a'' \<le> b \<and> b \<le> CHR ''z'') \<or> (CHR ''A'' \<le> b \<and> b \<le> CHR ''Z'')"

definition valid_tag_filter :: "string \<times> string list \<Rightarrow> bool" where
  "valid_tag_filter kv =
     (case kv of (k, v) \<Rightarrow>
        if length k \<noteq> 1 \<or> \<not> isTagLetter (k ! 0) then False
        else if length v = 0 then False
        else if (k = ''e'' \<or> k = ''p'') \<and> \<not> list_all (\<lambda>s. isValidLowercaseHex s 64) v then False
        else True)"

definition Filter_Valid :: "ReqFilter option \<Rightarrow> bool" where
  "Filter_Valid fp =
     (case fp of None \<Rightarrow> False
      | Some f \<Rightarrow>
          if IDs f \<noteq> None \<and> length (elems (IDs f)) = 0 then False
          else if \<not> list_all (\<lambda>s. isValidLowercaseHex s 64) (elems (IDs f)) then False
          else if Authors f \<noteq> None \<and> length (elems (Authors f)) = 0 then False
          else if \<not> list_all (\<lambda>s. isValidLowercaseHex s 64) (elems (Authors f)) then False
          else if Kinds f \<noteq> None \<and> length (elems (Kinds f)) = 0 then False
          else if list_ex (\<lambda>k. k < 0) (elems (Kinds f)) then False
          else if \<not> list_all valid_tag_filter (TagFilters f) then False
          else if Since f \<noteq> None \<and> the (Since f) < 0 then False
          else if Until f \<noteq> None \<and> the (Until f) < 0 then False
          else if Since f \<noteq> None \<and> Until f \<noteq> None \<and> the (Since f) > the (Until f) then False
          else if Limit f \<noteq> None \<and> the (Limit f) < 0 then False
          else True)"

section \<open>Matching\<close>

text \<open>The inner loop over the event's tags, leaving at the first match.\<close>

fun tag_matched :: "string \<Rightarrow> string list \<Rightarrow> Tag list \<Rightarrow> bool" where
  "tag_matched tagKey filterValues [] = False"
| "tag_matched tagKey filterValues (t # ts) =
     (if length t \<ge> 2 \<and> t ! 0 = tagKey \<and> t ! 1 \<in> set filterValues then True
      else tag_matched tagKey filterValues ts)"

fun tags_matched :: "(string \<times> string list) list \<Rightarrow> Tag list \<Rightarrow> bool" where
  "tags_matched [] ts = True"
| "tags_matched ((tagKey, filterValues) # kvs) ts =
     (if length filterValues = 0 then tags_matched kvs ts
      else if \<not> tag_matched tagKey filterValues ts then False
      else tags_matched kvs ts)"

definition Match :: "ReqFilter \<Rightarrow> Event \<Rightarrow> bool" where
  "Match f ev =
     (if elems (IDs f) \<noteq> [] \<and> ID ev \<notin> set (elems (IDs f)) then False
      else if elems (Authors f) \<noteq> [] \<and> Pubkey ev \<notin> set (elems (Authors f)) then False
      else if elems (Kinds f) \<noteq> [] \<and> Kind ev \<notin> set (elems (Kinds f)) then False
      else if \<not> tags_matched (TagFilters f) (tags_of ev) then False
      else if Since f \<noteq> None \<and> Unix (CreatedAt ev) < the (Since f) then False
      else if Until f \<noteq> None \<and> Unix (CreatedAt ev) > the (Until f) then False
      else True)"

text \<open>The method itself, on pointers that may be nil.\<close>

definition Match_ptr :: "ReqFilter option \<Rightarrow> Event option \<Rightarrow> bool" where
  "Match_ptr fp evp = (case (fp, evp) of (Some f, Some ev) \<Rightarrow> Match f ev | _ \<Rightarrow> False)"

fun matchesAny :: "ReqFilter list \<Rightarrow> Event \<Rightarrow> bool" where
  "matchesAny [] event = False"
| "matchesAny (f # fs) event = (if Match f event then True else matchesAny fs event)"

section \<open>Lemmas\<close>

lemma tag_matched_iff:
  "tag_matched k vs ts \<longleftrightarrow> (\<exists>t \<in> set ts. length t \<ge> 2 \<and> t ! 0 = k \<and> t ! 1 \<in> set vs)"
  by (induction ts) auto

lemma tags_matched_iff:
  "tags_matched kvs ts \<longleftrightarrow> (\<forall>(k, vs) \<in> set kvs. vs = [] \<or> tag_matched k vs ts)"
  by (induction kvs ts rule: tags_matched.induct) auto

text \<open>The order in which Go iterates over the tag conditions does not matter.\<close>

lemma tags_matched_perm: "set kvs = set kvs' \<Longrightarrow> tags_matched kvs ts = tags_matched kvs' ts"
  by (simp add: tags_matched_iff)

lemma matchesAny_iff: "matchesAny fs e \<longleftrightarrow> (\<exists>f \<in> set fs. Match f e)"
  by (induction fs) auto

lemma Match_tag:
  "Match f e \<Longrightarrow> (k, vs) \<in> set (TagFilters f) \<Longrightarrow> vs \<noteq> [] \<Longrightarrow>
     \<exists>t \<in> set (tags_of e). length t \<ge> 2 \<and> t ! 0 = k \<and> t ! 1 \<in> set vs"
  by (auto simp: Match_def tags_matched_iff tag_matched_iff split: if_splits)

end
