(* ===== verification/Message.thy ===== *)
theory Message
  imports Req_Filter
begin

text \<open>
  \<^verbatim>\<open>message.go\<close>: the messages between client and relay, as the union structs the code uses, and
  the constructors of relay messages.
\<close>

section \<open>Message labels\<close>

definition MsgTypeEvent :: string where [simp, msg_defs]: "MsgTypeEvent = ''EVENT''"
definition MsgTypeReq :: string where [simp, msg_defs]: "MsgTypeReq = ''REQ''"
definition MsgTypeClose :: string where [simp, msg_defs]: "MsgTypeClose = ''CLOSE''"
definition MsgTypeAuth :: string where [simp, msg_defs]: "MsgTypeAuth = ''AUTH''"
definition MsgTypeCount :: string where [simp, msg_defs]: "MsgTypeCount = ''COUNT''"
definition MsgTypeOK :: string where [simp, msg_defs]: "MsgTypeOK = ''OK''"
definition MsgTypeEOSE :: string where [simp, msg_defs]: "MsgTypeEOSE = ''EOSE''"
definition MsgTypeClosed :: string where [simp, msg_defs]: "MsgTypeClosed = ''CLOSED''"
definition MsgTypeNotice :: string where [simp, msg_defs]: "MsgTypeNotice = ''NOTICE''"

section \<open>Client messages\<close>

record ClientMsg =
  CType :: string
  CEvent :: "Event option"
  CSubscriptionID :: string
  CFilters :: "ReqFilter list"

text \<open>The five shapes the parser builds.\<close>

definition client_event :: "Event \<Rightarrow> ClientMsg" where
  "client_event ev = \<lparr>CType = MsgTypeEvent, CEvent = Some ev, CSubscriptionID = '''', CFilters = []\<rparr>"

definition client_auth :: "Event \<Rightarrow> ClientMsg" where
  "client_auth ev = \<lparr>CType = MsgTypeAuth, CEvent = Some ev, CSubscriptionID = '''', CFilters = []\<rparr>"

definition client_req :: "string \<Rightarrow> ReqFilter list \<Rightarrow> ClientMsg" where
  "client_req subID fs = \<lparr>CType = MsgTypeReq, CEvent = None, CSubscriptionID = subID, CFilters = fs\<rparr>"

definition client_count :: "string \<Rightarrow> ReqFilter list \<Rightarrow> ClientMsg" where
  "client_count subID fs = \<lparr>CType = MsgTypeCount, CEvent = None, CSubscriptionID = subID, CFilters = fs\<rparr>"

definition client_close :: "string \<Rightarrow> ClientMsg" where
  "client_close subID = \<lparr>CType = MsgTypeClose, CEvent = None, CSubscriptionID = subID, CFilters = []\<rparr>"

definition validateSubscriptionID :: "string \<Rightarrow> bool" where
  "validateSubscriptionID subID \<longleftrightarrow> subID \<noteq> ''''"

section \<open>Relay messages\<close>

record ServerMsg =
  SType :: string
  SSubscriptionID :: string
  SEvent :: "Event option"
  SEventID :: string
  SAccepted :: bool
  SMessage :: string
  SCount :: "64 word"
  SApproximate :: "bool option"

definition zero_ServerMsg :: ServerMsg where
  [msg_defs]: "zero_ServerMsg = \<lparr>SType = '''', SSubscriptionID = '''', SEvent = None, SEventID = '''',
     SAccepted = False, SMessage = '''', SCount = 0, SApproximate = None\<rparr>"

definition NewServerEventMsg :: "string \<Rightarrow> Event \<Rightarrow> ServerMsg" where
  [msg_defs]: "NewServerEventMsg subID event =
     zero_ServerMsg\<lparr>SType := MsgTypeEvent, SSubscriptionID := subID, SEvent := Some event\<rparr>"

definition NewServerOKMsg :: "string \<Rightarrow> bool \<Rightarrow> string \<Rightarrow> ServerMsg" where
  [msg_defs]: "NewServerOKMsg eventID accepted message =
     zero_ServerMsg\<lparr>SType := MsgTypeOK, SEventID := eventID, SAccepted := accepted, SMessage := message\<rparr>"

definition NewServerEOSEMsg :: "string \<Rightarrow> ServerMsg" where
  [msg_defs]: "NewServerEOSEMsg subID = zero_ServerMsg\<lparr>SType := MsgTypeEOSE, SSubscriptionID := subID\<rparr>"

definition NewServerClosedMsg :: "string \<Rightarrow> string \<Rightarrow> ServerMsg" where
  [msg_defs]: "NewServerClosedMsg subID message =
     zero_ServerMsg\<lparr>SType := MsgTypeClosed, SSubscriptionID := subID, SMessage := message\<rparr>"

definition NewServerNoticeMsg :: "string \<Rightarrow> ServerMsg" where
  [msg_defs]: "NewServerNoticeMsg message = zero_ServerMsg\<lparr>SType := MsgTypeNotice, SMessage := message\<rparr>"

definition NewServerCountMsg :: "string \<Rightarrow> 64 word \<Rightarrow> bool option \<Rightarrow> ServerMsg" where
  [msg_defs]: "NewServerCountMsg subID cnt approximate =
     zero_ServerMsg\<lparr>SType := MsgTypeCount, SSubscriptionID := subID, SCount := cnt,
       SApproximate := approximate\<rparr>"

definition NewServerAuthMsg :: "string \<Rightarrow> ServerMsg" where
  [msg_defs]: "NewServerAuthMsg challenge = zero_ServerMsg\<lparr>SType := MsgTypeAuth, SMessage := challenge\<rparr>"

section \<open>Lemmas\<close>

lemma server_msg_types [simp]:
  "SType (NewServerEventMsg s e) = MsgTypeEvent"
  "SType (NewServerOKMsg i a m) = MsgTypeOK"
  "SType (NewServerEOSEMsg s) = MsgTypeEOSE"
  "SType (NewServerClosedMsg s m) = MsgTypeClosed"
  "SType (NewServerNoticeMsg m) = MsgTypeNotice"
  "SType (NewServerCountMsg s c ap) = MsgTypeCount"
  "SType (NewServerAuthMsg m) = MsgTypeAuth"
  by (simp_all add: msg_defs)

lemma server_msg_fields [simp]:
  "SSubscriptionID (NewServerEventMsg s e) = s" "SEvent (NewServerEventMsg s e) = Some e"
  "SEventID (NewServerOKMsg i a m) = i" "SAccepted (NewServerOKMsg i a m) = a"
  "SMessage (NewServerOKMsg i a m) = m"
  "SSubscriptionID (NewServerEOSEMsg s) = s"
  "SSubscriptionID (NewServerClosedMsg s m) = s" "SMessage (NewServerClosedMsg s m) = m"
  "SSubscriptionID (NewServerCountMsg s c ap) = s" "SCount (NewServerCountMsg s c ap) = c"
  by (simp_all add: msg_defs)

lemma client_msg_fields [simp]:
  "CType (client_event e) = MsgTypeEvent" "CEvent (client_event e) = Some e"
  "CType (client_auth e) = MsgTypeAuth" "CEvent (client_auth e) = Some e"
  "CType (client_req s fs) = MsgTypeReq" "CSubscriptionID (client_req s fs) = s"
  "CFilters (client_req s fs) = fs"
  "CType (client_count s fs) = MsgTypeCount" "CSubscriptionID (client_count s fs) = s"
  "CFilters (client_count s fs) = fs"
  "CType (client_close s) = MsgTypeClose" "CSubscriptionID (client_close s) = s"
  by (simp_all add: client_event_def client_auth_def client_req_def client_count_def client_close_def)

end
