(* ===== verification/In_Memory_Storage.thy ===== *)
theory In_Memory_Storage
  imports Message
begin

text \<open>
  \<^verbatim>\<open>storage.go\<close>: the contract of the \<^verbatim>\<open>Storage\<close> interface as a locale, the brute-force in-memory
  implementation with NIP-09 deletions and replaceable events, and the interpretation of the
  locale on it.

  The stored pointers are never nil (\<^verbatim>\<open>Store\<close> rejects a nil event), so the event list holds
  events. \<^verbatim>\<open>slices.SortFunc\<close> is an insertion sort here: the lemmas only use that the result is a
  sorted permutation, which is unique because identifiers are distinct.
\<close>

section \<open>Order of query results\<close>

text \<open>\<^verbatim>\<open>cmp.Compare\<close> on strings and \<^verbatim>\<open>compareEvents\<close>.\<close>

definition cmp_Compare :: "'a::linorder \<Rightarrow> 'a \<Rightarrow> int" where
  "cmp_Compare a b = (if a < b then -1 else if a > b then 1 else 0)"

definition compareEvents :: "Event \<Rightarrow> Event \<Rightarrow> int" where
  "compareEvents a b =
     (if CreatedAt a \<noteq> CreatedAt b then (if CreatedAt a > CreatedAt b then -1 else 1)
      else cmp_Compare (ID a) (ID b))"

fun insert_cmp :: "('a \<Rightarrow> 'a \<Rightarrow> int) \<Rightarrow> 'a \<Rightarrow> 'a list \<Rightarrow> 'a list" where
  "insert_cmp cmp x [] = [x]"
| "insert_cmp cmp x (y # ys) = (if cmp x y \<le> 0 then x # y # ys else y # insert_cmp cmp x ys)"

definition SortFunc :: "('a \<Rightarrow> 'a \<Rightarrow> int) \<Rightarrow> 'a list \<Rightarrow> 'a list" where
  "SortFunc cmp xs = foldr (insert_cmp cmp) xs []"

text \<open>The order as a key: newest first, then the smaller identifier.\<close>

definition event_key :: "Event \<Rightarrow> int \<times> string" where
  "event_key e = (- CreatedAt e, ID e)"

lemma compareEvents_le: "compareEvents a b \<le> 0 \<longleftrightarrow> event_key a \<le> event_key b"
  by (auto simp: compareEvents_def event_key_def cmp_Compare_def)

lemma insert_cmp_insort: "insert_cmp compareEvents x ys = insort_key event_key x ys"
  by (induction ys) (auto simp: compareEvents_le)

lemma SortFunc_sort: "SortFunc compareEvents xs = sort_key event_key xs"
proof -
  have "insert_cmp compareEvents = insort_key event_key"
    by (intro ext) (rule insert_cmp_insort)
  then show ?thesis by (simp add: SortFunc_def sort_key_def)
qed

section \<open>The Storage interface\<close>

datatype go_error = DeadlineExceeded | Canceled | Error string

text \<open>The limit of the first filter, \<open>-1\<close> for none, and how iteration stops at it.\<close>

definition limit_of :: "ReqFilter list \<Rightarrow> int" where
  "limit_of filters =
     (case filters of [] \<Rightarrow> -1 | f # _ \<Rightarrow> (case Limit f of None \<Rightarrow> -1 | Some l \<Rightarrow> l))"

fun yield_loop :: "int \<Rightarrow> int \<Rightarrow> 'a list \<Rightarrow> 'a list" where
  "yield_loop limit count [] = []"
| "yield_loop limit count (e # es) =
     (if limit \<ge> 0 \<and> count \<ge> limit then [] else e # yield_loop limit (count + 1) es)"

definition limited :: "int \<Rightarrow> 'a list \<Rightarrow> 'a list" where
  "limited limit xs = (if limit \<ge> 0 then take (nat limit) xs else xs)"

lemma yield_loop_limited:
  "yield_loop limit count xs = (if limit \<ge> 0 then take (nat (limit - count)) xs else xs)"
proof (induction limit count xs rule: yield_loop.induct)
  case (2 limit count e es)
  show ?case
  proof (cases "limit \<ge> 0 \<and> count < limit")
    case True
    then have "nat (limit - count) = Suc (nat (limit - (count + 1)))" by arith
    with True 2 show ?thesis by simp
  qed (use 2 in auto)
qed simp

lemma set_limited: "set (limited n xs) \<subseteq> set xs"
  using set_take_subset[of "nat n" xs] by (simp add: limited_def)

lemma sorted_wrt_limited: "sorted_wrt P xs \<Longrightarrow> sorted_wrt P (limited n xs)"
  by (simp add: limited_def sorted_wrt_take)

text \<open>
  What a client of \<^verbatim>\<open>Storage\<close> may rely on: storing keeps the implementation's invariant, a nil
  event changes nothing, and a query without error yields the matching stored events, newest
  first and ties by identifier, cut at the first filter's limit.
\<close>

definition query_result :: "Event set \<Rightarrow> ReqFilter list \<Rightarrow> Event list \<Rightarrow> bool" where
  "query_result evs filters es \<longleftrightarrow>
     (\<exists>all. set all = {e \<in> evs. matchesAny filters e} \<and>
        sorted_wrt (\<lambda>a b. event_key a < event_key b) all \<and> es = limited (limit_of filters) all)"

locale storage =
  fixes store :: "'s \<Rightarrow> Event option \<Rightarrow> 's \<times> (go_error + bool)"
    and query :: "'s \<Rightarrow> ReqFilter list \<Rightarrow> Event list \<times> go_error option"
    and contents :: "'s \<Rightarrow> Event set"
    and invar :: "'s \<Rightarrow> bool"
  assumes store_invar: "invar s \<Longrightarrow> invar (fst (store s ep))"
    and store_nil: "store s None = (s, Inr False)"
    and store_contents: "invar s \<Longrightarrow> contents (fst (store s (Some e))) \<subseteq> insert e (contents s)"
    and query_ok: "invar s \<Longrightarrow> query s filters = (es, None) \<Longrightarrow> query_result (contents s) filters es"
begin

lemma store_all_invar: "invar s \<Longrightarrow> invar (foldl (\<lambda>s e. fst (store s (Some e))) s es)"
  by (induction es arbitrary: s) (auto intro: store_invar)

lemma store_all_contents:
  "invar s \<Longrightarrow> contents (foldl (\<lambda>s e. fst (store s (Some e))) s es) \<subseteq> contents s \<union> set es"
proof (induction es arbitrary: s)
  case (Cons e es)
  from Cons.IH[OF store_invar[OF Cons.prems, of "Some e"]] store_contents[OF Cons.prems, of e]
  show ?case by auto
qed simp

lemma query_sorted:
  "invar s \<Longrightarrow> query s filters = (es, None) \<Longrightarrow> sorted_wrt (\<lambda>a b. event_key a < event_key b) es"
  using query_ok by (fastforce simp: query_result_def sorted_wrt_limited)

lemma query_distinct:
  assumes "invar s" "query s filters = (es, None)" shows "distinct es"
  using query_sorted[OF assms] by (rule sorted_wrt_distinct) simp

lemma query_sound:
  "invar s \<Longrightarrow> query s filters = (es, None) \<Longrightarrow> e \<in> set es \<Longrightarrow> e \<in> contents s \<and> matchesAny filters e"
  using query_ok set_limited by (fastforce simp: query_result_def)

lemma query_complete:
  "invar s \<Longrightarrow> query s filters = (es, None) \<Longrightarrow> limit_of filters < 0 \<or> int (length es) < limit_of filters \<Longrightarrow>
    e \<in> contents s \<Longrightarrow> matchesAny filters e \<Longrightarrow> e \<in> set es"
  using query_ok by (fastforce simp: query_result_def limited_def split: if_splits)

lemma query_length:
  "invar s \<Longrightarrow> query s filters = (es, None) \<Longrightarrow> 0 \<le> limit_of filters \<Longrightarrow> int (length es) \<le> limit_of filters"
  using query_ok by (fastforce simp: query_result_def limited_def)

end

section \<open>The in-memory storage\<close>

record deletionRecord =
  dPubkey :: string
  dCreatedAt :: time

record InMemoryStorage =
  events :: "Event list"
  deletedIDs :: "string \<rightharpoonup> deletionRecord"
  deletedAddrs :: "string \<rightharpoonup> deletionRecord"

definition NewInMemoryStorage :: InMemoryStorage where
  "NewInMemoryStorage = \<lparr>events = [], deletedIDs = Map.empty, deletedAddrs = Map.empty\<rparr>"

text \<open>One iteration of the tag loop of \<^verbatim>\<open>processKind5\<close>; \<open>filter\<close> is \<^verbatim>\<open>slices.DeleteFunc\<close>.\<close>

definition process_tag :: "Event \<Rightarrow> Tag \<Rightarrow> InMemoryStorage \<Rightarrow> InMemoryStorage" where
  "process_tag event tag s =
     (let rec = \<lparr>dPubkey = Pubkey event, dCreatedAt = CreatedAt event\<rparr> in
      if length tag < 2 then s
      else if tag ! 0 = ''e'' then
        s\<lparr>deletedIDs := (deletedIDs s)(tag ! 1 \<mapsto> rec),
          events := filter (\<lambda>e. \<not> (if Kind e = 5 then False
                                  else ID e = tag ! 1 \<and> Pubkey e = Pubkey event)) (events s)\<rparr>
      else if tag ! 0 = ''a'' then
        s\<lparr>deletedAddrs := (deletedAddrs s)(tag ! 1 \<mapsto> rec),
          events := filter (\<lambda>e. \<not> (Address_of e = tag ! 1 \<and> Pubkey e = Pubkey event
                                  \<and> \<not> CreatedAt e > CreatedAt event)) (events s)\<rparr>
      else s)"

fun process_tags :: "Event \<Rightarrow> Tag list \<Rightarrow> InMemoryStorage \<Rightarrow> InMemoryStorage" where
  "process_tags event [] s = s"
| "process_tags event (t # ts) s = process_tags event ts (process_tag event t s)"

definition processKind5 :: "InMemoryStorage \<Rightarrow> Event \<Rightarrow> InMemoryStorage" where
  "processKind5 s event = process_tags event (tags_of event) s"

text \<open>
  The loop that looks for the stored event with the same address: nothing found, the slot
  overwritten, or the stored event kept.
\<close>

datatype replace_result = NotFound | Replaced "Event list" | Kept

fun replace_loop :: "Event \<Rightarrow> string \<Rightarrow> Event list \<Rightarrow> replace_result" where
  "replace_loop event addr [] = NotFound"
| "replace_loop event addr (e # es) =
     (if Address_of e = addr then
        (if CreatedAt event > CreatedAt e then Replaced (event # es)
         else if CreatedAt event = CreatedAt e \<and> ID event < ID e then Replaced (event # es)
         else Kept)
      else (case replace_loop event addr es of
              Replaced es' \<Rightarrow> Replaced (e # es') | NotFound \<Rightarrow> NotFound | Kept \<Rightarrow> Kept))"

definition deleted_by_id :: "InMemoryStorage \<Rightarrow> Event \<Rightarrow> bool" where
  "deleted_by_id s event =
     (case deletedIDs s (ID event) of None \<Rightarrow> False | Some rec \<Rightarrow> dPubkey rec = Pubkey event)"

definition deleted_by_addr :: "InMemoryStorage \<Rightarrow> Event \<Rightarrow> bool" where
  "deleted_by_addr s event =
     (if Address_of event \<noteq> '''' then
        (case deletedAddrs s (Address_of event) of None \<Rightarrow> False
         | Some rec \<Rightarrow> dPubkey rec = Pubkey event \<and> \<not> CreatedAt event > dCreatedAt rec)
      else False)"

text \<open>\<^verbatim>\<open>Store\<close> after the kind 5 handling: replacement, ephemeral events, append.\<close>

definition store_tail :: "InMemoryStorage \<Rightarrow> Event \<Rightarrow> InMemoryStorage \<times> bool" where
  "store_tail s event =
     (let append_it = (if eventType event = EventTypeEphemeral then (s, False)
                       else (s\<lparr>events := events s @ [event]\<rparr>, True))
      in if eventType event = EventTypeReplaceable \<or> eventType event = EventTypeAddressable then
           (case replace_loop event (Address_of event) (events s) of
              Replaced es \<Rightarrow> (s\<lparr>events := es\<rparr>, True)
            | Kept \<Rightarrow> (s, False)
            | NotFound \<Rightarrow> append_it)
         else append_it)"

definition Store_event :: "InMemoryStorage \<Rightarrow> Event \<Rightarrow> InMemoryStorage \<times> bool" where
  "Store_event s event =
     (if deleted_by_id s event then (s, False)
      else if deleted_by_addr s event then (s, False)
      else if list_ex (\<lambda>e. ID e = ID event) (events s) then (s, False)
      else if Kind event = 5 then
        (let s' = processKind5 s event
         in if deleted_by_id s' event then (s', True) else store_tail s' event)
      else store_tail s event)"

definition Store :: "InMemoryStorage \<Rightarrow> Event option \<Rightarrow> InMemoryStorage \<times> (go_error + bool)" where
  "Store s ep =
     (case ep of None \<Rightarrow> (s, Inr False)
      | Some event \<Rightarrow> (case Store_event s event of (s', stored) \<Rightarrow> (s', Inr stored)))"

definition sortedEvents :: "InMemoryStorage \<Rightarrow> Event list" where
  "sortedEvents s = SortFunc compareEvents (events s)"

text \<open>The two nested loops that collect the matches, with the \<^verbatim>\<open>seen\<close> map and the result slice.\<close>

fun collect_filter :: "ReqFilter \<Rightarrow> Event list \<Rightarrow> string set \<times> Event list \<Rightarrow> string set \<times> Event list" where
  "collect_filter f [] (seen, result) = (seen, result)"
| "collect_filter f (e # es) (seen, result) =
     (if ID e \<in> seen then collect_filter f es (seen, result)
      else if Match f e then collect_filter f es (insert (ID e) seen, result @ [e])
      else collect_filter f es (seen, result))"

fun collect :: "ReqFilter list \<Rightarrow> Event list \<Rightarrow> string set \<times> Event list \<Rightarrow> string set \<times> Event list" where
  "collect [] sevs acc = acc"
| "collect (f # fs) sevs acc = collect fs sevs (collect_filter f sevs acc)"

definition Query_events :: "InMemoryStorage \<Rightarrow> ReqFilter list \<Rightarrow> Event list" where
  "Query_events s filters =
     (if filters = [] then []
      else let result = snd (collect filters (sortedEvents s) ({}, []))
           in yield_loop (limit_of filters) 0 (SortFunc compareEvents result))"

definition Query :: "InMemoryStorage \<Rightarrow> ReqFilter list \<Rightarrow> Event list \<times> go_error option" where
  "Query s filters = (Query_events s filters, None)"

definition len :: "InMemoryStorage \<Rightarrow> nat" where
  "len s = length (events s)"

section \<open>The invariant\<close>

text \<open>
  Identifiers are unique, an address is taken at most once, ephemeral events are never stored,
  and no stored event is covered by a deletion record of its author (kind 5 events are exempt
  from deletion by identifier).
\<close>

definition addrs :: "Event list \<Rightarrow> string list" where
  "addrs es = filter (\<lambda>a. a \<noteq> '''') (map Address_of es)"

definition storage_ok :: "InMemoryStorage \<Rightarrow> bool" where
  "storage_ok s \<longleftrightarrow>
     distinct (map ID (events s)) \<and> distinct (addrs (events s)) \<and>
     (\<forall>e \<in> set (events s). eventType e \<noteq> EventTypeEphemeral \<and> (Kind e \<noteq> 5 \<longrightarrow> \<not> deleted_by_id s e)
        \<and> \<not> deleted_by_addr s e)"

lemma storage_okD:
  assumes "storage_ok s"
  shows "distinct (map ID (events s))" "distinct (addrs (events s))"
    "e \<in> set (events s) \<Longrightarrow> eventType e \<noteq> EventTypeEphemeral"
    "e \<in> set (events s) \<Longrightarrow> Kind e \<noteq> 5 \<Longrightarrow> \<not> deleted_by_id s e"
    "e \<in> set (events s) \<Longrightarrow> \<not> deleted_by_addr s e"
  using assms by (auto simp: storage_ok_def)

lemma addrs_simps [simp]:
  "addrs [] = []" "addrs (e # es) = (if Address_of e = '''' then addrs es else Address_of e # addrs es)"
  "addrs (xs @ ys) = addrs xs @ addrs ys"
  by (simp_all add: addrs_def)

lemma set_addrs: "set (addrs es) = Address_of ` set es - {''''}"
  by (auto simp: addrs_def)

lemma distinct_addrs_filter: "distinct (addrs es) \<Longrightarrow> distinct (addrs (filter P es))"
  by (induction es) (auto simp: set_addrs)

lemma deleted_by_id_iff:
  "deleted_by_id s e \<longleftrightarrow> (\<exists>r. deletedIDs s (ID e) = Some r \<and> dPubkey r = Pubkey e)"
  by (auto simp: deleted_by_id_def split: option.splits)

lemma deleted_by_addr_iff:
  "deleted_by_addr s e \<longleftrightarrow> Address_of e \<noteq> '''' \<and>
     (\<exists>r. deletedAddrs s (Address_of e) = Some r \<and> dPubkey r = Pubkey e \<and> CreatedAt e \<le> dCreatedAt r)"
  by (auto simp: deleted_by_addr_def split: option.splits)

lemma process_tag_ok:
  assumes "storage_ok s"
  shows "storage_ok (process_tag event t s)"
proof -
  let ?s = "process_tag event t s"
  note ok = storage_okD[OF assms]
  have "distinct (map ID (events ?s)) \<and> distinct (addrs (events ?s))"
    using ok(1,2) by (simp add: process_tag_def Let_def distinct_map_filter distinct_addrs_filter)
  moreover have "eventType e \<noteq> EventTypeEphemeral" if "e \<in> set (events ?s)" for e
    using that ok(3) by (auto simp: process_tag_def Let_def split: if_splits)
  moreover have "\<not> deleted_by_id ?s e" if "e \<in> set (events ?s)" "Kind e \<noteq> 5" for e
    using that ok(4)[of e] by (auto simp: process_tag_def Let_def deleted_by_id_iff split: if_splits)
  moreover have "\<not> deleted_by_addr ?s e" if "e \<in> set (events ?s)" for e
    using that ok(5)[of e] by (auto simp: process_tag_def Let_def deleted_by_addr_iff split: if_splits)
  ultimately show ?thesis by (auto simp: storage_ok_def)
qed

lemma process_tags_ok: "storage_ok s \<Longrightarrow> storage_ok (process_tags event ts s)"
  by (induction ts arbitrary: s) (auto intro: process_tag_ok)

lemma processKind5_ok: "storage_ok s \<Longrightarrow> storage_ok (processKind5 s event)"
  by (simp add: processKind5_def process_tags_ok)

lemma process_tags_events: "set (events (process_tags event ts s)) \<subseteq> set (events s)"
proof (induction ts arbitrary: s)
  case (Cons t ts)
  have "set (events (process_tag event t s)) \<subseteq> set (events s)"
    by (auto simp: process_tag_def Let_def)
  with Cons[of "process_tag event t s"] show ?case by auto
qed simp

lemma processKind5_events: "set (events (processKind5 s event)) \<subseteq> set (events s)"
  by (simp add: processKind5_def process_tags_events)

section \<open>Replacement\<close>

lemma event_key_less:
  "event_key a < event_key b \<longleftrightarrow> CreatedAt a > CreatedAt b \<or> CreatedAt a = CreatedAt b \<and> ID a < ID b"
  by (auto simp: event_key_def)

lemma replace_loop_NotFound:
  "replace_loop ev addr es = NotFound \<Longrightarrow> e \<in> set es \<Longrightarrow> Address_of e \<noteq> addr"
  by (induction es) (auto split: if_splits replace_result.splits)

lemma replace_loop_Replaced:
  "replace_loop ev addr es = Replaced es' \<Longrightarrow>
     \<exists>xs e ys. es = xs @ e # ys \<and> es' = xs @ ev # ys \<and> Address_of e = addr \<and> event_key ev < event_key e"
proof (induction es arbitrary: es')
  case (Cons x es)
  show ?case
  proof (cases "Address_of x = addr")
    case True
    with Cons.prems show ?thesis
      by (intro exI[of _ "[]"]) (auto simp: event_key_less split: if_splits)
  next
    case False
    with Cons.prems obtain es2 where "replace_loop ev addr es = Replaced es2" "es' = x # es2"
      by (auto split: replace_result.splits)
    with Cons.IH obtain xs e ys where "es = xs @ e # ys" "es2 = xs @ ev # ys" "Address_of e = addr"
      "event_key ev < event_key e" by blast
    with \<open>es' = x # es2\<close> show ?thesis by (intro exI[of _ "x # xs"]) auto
  qed
qed simp

lemma replace_loop_Kept:
  "replace_loop ev addr es = Kept \<Longrightarrow>
     \<exists>e \<in> set es. Address_of e = addr \<and> event_key e \<le> event_key ev"
proof (induction es)
  case (Cons x es)
  then show ?case
    by (auto simp: not_less event_key_def split: if_splits replace_result.splits)
qed simp

text \<open>
  The tail of \<^verbatim>\<open>Store\<close> on an event that is neither deleted nor a duplicate: it is rejected and
  nothing changes, or it takes the place of an older event with its address, or it is appended
  and its address was free.
\<close>

lemma store_tail_cases:
  obtains (rejected) "store_tail s ev = (s, False)"
      "eventType ev = EventTypeEphemeral \<or>
       (Address_of ev \<noteq> '''' \<and> (\<exists>e \<in> set (events s). Address_of e = Address_of ev \<and> event_key e \<le> event_key ev))"
  | (replaced) xs e ys where "events s = xs @ e # ys" "Address_of e = Address_of ev" "Address_of ev \<noteq> ''''"
      "event_key ev < event_key e" "store_tail s ev = (s\<lparr>events := xs @ ev # ys\<rparr>, True)"
  | (appended) "store_tail s ev = (s\<lparr>events := events s @ [ev]\<rparr>, True)"
      "eventType ev \<noteq> EventTypeEphemeral" "Address_of ev \<noteq> '''' \<Longrightarrow> Address_of ev \<notin> set (addrs (events s))"
proof (cases "eventType ev = EventTypeReplaceable \<or> eventType ev = EventTypeAddressable")
  case True
  then have ne: "Address_of ev \<noteq> ''''" by (simp add: Address_of_nonempty)
  show thesis
  proof (cases "replace_loop ev (Address_of ev) (events s)")
    case NotFound
    with True have "store_tail s ev = (s\<lparr>events := events s @ [ev]\<rparr>, True)"
      by (auto simp: store_tail_def)
    moreover have "Address_of ev \<notin> set (addrs (events s))"
      using replace_loop_NotFound[OF NotFound] by (fastforce simp: set_addrs)
    ultimately show thesis using appended True by auto
  next
    case (Replaced es')
    with replace_loop_Replaced[OF Replaced] True ne show thesis
      by (auto simp: store_tail_def intro!: replaced)
  next
    case Kept
    with replace_loop_Kept[OF Kept] True ne show thesis
      by (auto simp: store_tail_def intro!: rejected)
  qed
next
  case False
  then show thesis using rejected appended
    by (cases "eventType ev = EventTypeEphemeral") (auto simp: store_tail_def Address_of_nonempty)
qed

lemma deleted_update [simp]:
  "deleted_by_id (s\<lparr>events := es\<rparr>) e = deleted_by_id s e"
  "deleted_by_addr (s\<lparr>events := es\<rparr>) e = deleted_by_addr s e"
  by (simp_all add: deleted_by_id_def deleted_by_addr_def)

lemma store_tail_ok:
  assumes ok: "storage_ok s" and fresh: "ID ev \<notin> ID ` set (events s)"
    and nd: "Kind ev \<noteq> 5 \<Longrightarrow> \<not> deleted_by_id s ev" "\<not> deleted_by_addr s ev"
  shows "storage_ok (fst (store_tail s ev))"
proof (cases rule: store_tail_cases[of s ev])
  case rejected
  with ok show ?thesis by simp
next
  case (replaced xs e ys)
  have "eventType ev \<noteq> EventTypeEphemeral"
    using replaced(3) by (simp add: Address_of_nonempty) auto
  with replaced ok fresh nd show ?thesis by (auto simp: storage_ok_def)
next
  case appended
  with ok fresh nd show ?thesis by (cases "Address_of ev = ''''") (auto simp: storage_ok_def)
qed

lemma processKind5_deleted_by_addr:
  assumes "Address_of e = ''''" shows "\<not> deleted_by_addr s e"
  using assms by (simp add: deleted_by_addr_iff)

lemma kind5_regular [simp]: "Kind e = 5 \<Longrightarrow> eventType e = EventTypeRegular"
  by (simp add: eventType_def eventType_of_kind_def)

lemma kind5_address [simp]: "Kind e = 5 \<Longrightarrow> Address_of e = ''''"
  by (simp add: Address_of_empty)

lemma store_tail_kind5: "Kind e = 5 \<Longrightarrow> store_tail s e = (s\<lparr>events := events s @ [e]\<rparr>, True)"
  by (simp add: store_tail_def)

text \<open>The outcomes of \<^verbatim>\<open>Store\<close>: refused, a deletion request, or the tail on any other event.\<close>

lemma Store_event_cases:
  obtains (refused) "Store_event s ev = (s, False)"
      "deleted_by_id s ev \<or> deleted_by_addr s ev \<or> ID ev \<in> ID ` set (events s)"
  | (self_deleted) "Kind ev = 5" "Store_event s ev = (processKind5 s ev, True)"
      "deleted_by_id (processKind5 s ev) ev" "ID ev \<notin> ID ` set (events s)"
  | (deletion) "Kind ev = 5" "\<not> deleted_by_id (processKind5 s ev) ev" "ID ev \<notin> ID ` set (events s)"
      "Store_event s ev = ((processKind5 s ev)\<lparr>events := events (processKind5 s ev) @ [ev]\<rparr>, True)"
  | (other) "Kind ev \<noteq> 5" "Store_event s ev = store_tail s ev" "\<not> deleted_by_id s ev"
      "\<not> deleted_by_addr s ev" "ID ev \<notin> ID ` set (events s)"
proof -
  consider "deleted_by_id s ev \<or> deleted_by_addr s ev \<or> ID ev \<in> ID ` set (events s)"
    | "\<not> deleted_by_id s ev" "\<not> deleted_by_addr s ev" "ID ev \<notin> ID ` set (events s)" by blast
  then show thesis
  proof cases
    case 1
    then have "Store_event s ev = (s, False)"
      by (auto simp: Store_event_def list_ex_iff)
    with 1 show thesis by (rule refused[rotated])
  next
    case 2
    then have "\<not> list_ex (\<lambda>e. ID e = ID ev) (events s)" by (metis (mono_tags, lifting) image_eqI list_ex_iff)
    with 2 show thesis
      using self_deleted deletion other
      by (cases "Kind ev = 5"; cases "deleted_by_id (processKind5 s ev) ev")
        (simp_all add: Store_event_def Let_def store_tail_kind5)
  qed
qed

lemma Store_event_ok:
  assumes "storage_ok s" shows "storage_ok (fst (Store_event s ev))"
proof (cases rule: Store_event_cases[of s ev])
  case deletion
  have "ID ev \<notin> ID ` set (events (processKind5 s ev))"
    using deletion(3) processKind5_events[of s ev] by blast
  with deletion assms processKind5_ok[OF assms, of ev] show ?thesis
    by (auto simp: storage_ok_def processKind5_deleted_by_addr)
next
  case other
  with assms show ?thesis by (simp add: store_tail_ok)
qed (use assms in \<open>auto intro: processKind5_ok\<close>)

lemma Store_Some [simp]:
  "fst (Store s (Some e)) = fst (Store_event s e)" "snd (Store s (Some e)) = Inr (snd (Store_event s e))"
  by (simp_all add: Store_def split: prod.splits)

lemma Store_ok: "storage_ok s \<Longrightarrow> storage_ok (fst (Store s ep))"
  by (cases ep) (simp add: Store_def, simp add: Store_event_ok)

lemma storage_ok_new: "storage_ok NewInMemoryStorage"
  by (simp add: storage_ok_def NewInMemoryStorage_def)

section \<open>Queries\<close>

lemma collect_filter_spec:
  assumes "inj_on ID (set result \<union> set es)" "seen = ID ` set result" "distinct result"
  shows "case collect_filter f es (seen, result) of (seen', result') \<Rightarrow>
    seen' = ID ` set result' \<and> distinct result' \<and> set result' = set result \<union> {e \<in> set es. Match f e}"
  using assms
proof (induction f es "(seen, result)" arbitrary: seen result rule: collect_filter.induct)
  case (2 f e es seen result)
  consider "ID e \<in> seen" | "ID e \<notin> seen" "Match f e" | "ID e \<notin> seen" "\<not> Match f e" by blast
  then show ?case
  proof cases
    case 1
    with 2 have "e \<in> set result" by (auto dest: inj_onD)
    with 1 2(1) 2(4-6) show ?thesis by (auto simp: inj_on_def split: prod.splits)
  next
    case 2
    with "2.prems" have "e \<notin> set result" by auto
    with 2 "2.hyps"(2) "2.prems" show ?thesis by (auto simp: insert_commute split: prod.splits)
  next
    case 3
    with "2.hyps"(3) "2.prems" show ?thesis by (auto simp: inj_on_def split: prod.splits)
  qed
qed simp

lemma collect_spec:
  assumes "inj_on ID (set sevs)" "set res \<subseteq> set sevs" "distinct res"
  shows "distinct (snd (collect fs sevs (ID ` set res, res))) \<and>
    set (snd (collect fs sevs (ID ` set res, res))) = set res \<union> {e \<in> set sevs. matchesAny fs e}"
  using assms(2,3)
proof (induction fs arbitrary: res)
  case (Cons f fs)
  have inj: "inj_on ID (set res \<union> set sevs)" using assms(1) Cons.prems(1) by (simp add: Un_absorb1)
  obtain res' where "collect_filter f sevs (ID ` set res, res) = (ID ` set res', res')" "distinct res'"
    "set res' = set res \<union> {e \<in> set sevs. Match f e}"
    using collect_filter_spec[OF inj refl Cons.prems(2), of f] by (auto split: prod.splits)
  with Cons.IH[of res'] Cons.prems show ?case by auto
qed simp

lemma Query_events_eq:
  assumes "storage_ok s"
  shows "Query_events s filters =
    limited (limit_of filters) (sort_key event_key (filter (matchesAny filters) (events s)))"
proof -
  let ?r = "snd (collect filters (sortedEvents s) ({}, []))"
  have d: "distinct (map ID (events s))" using storage_okD(1)[OF assms] .
  then have "inj_on ID (set (sortedEvents s))" by (simp add: sortedEvents_def SortFunc_sort distinct_map)
  from collect_spec[OF this, of "[]" filters]
  have r: "distinct ?r" "set ?r = {e \<in> set (events s). matchesAny filters e}"
    by (simp_all add: sortedEvents_def SortFunc_sort)
  have key: "inj_on event_key (set (events s))"
    using d by (auto simp: inj_on_def event_key_def distinct_map)
  have "distinct (map event_key ?r)"
    using r key by (auto simp: distinct_map intro: inj_on_subset)
  moreover have "distinct (map event_key (filter (matchesAny filters) (events s)))"
    using d key by (auto simp: distinct_map intro: inj_on_subset)
  ultimately have "sort_key event_key ?r = sort_key event_key (filter (matchesAny filters) (events s))"
    using r by (intro sorted_wrt_key_unique[of event_key] sort_key_strict) auto
  then show ?thesis
    by (cases "filters = []")
      (auto simp: Query_events_def SortFunc_sort yield_loop_limited limited_def)
qed

lemma Query_result:
  assumes "storage_ok s"
  shows "query_result (set (events s)) filters (Query_events s filters)"
proof -
  let ?all = "sort_key event_key (filter (matchesAny filters) (events s))"
  have "inj_on event_key (set (events s))" "distinct (events s)"
    using storage_okD(1)[OF assms] by (auto simp: inj_on_def event_key_def distinct_map)
  then have "distinct (map event_key (filter (matchesAny filters) (events s)))"
    by (auto simp: distinct_map intro: inj_on_subset)
  from sort_key_strict[OF this] show ?thesis
    unfolding query_result_def Query_events_eq[OF assms] by (intro exI[of _ ?all]) auto
qed

lemma store_tail_events: "set (events (fst (store_tail s ev))) \<subseteq> insert ev (set (events s))"
  by (cases rule: store_tail_cases[of s ev]) auto

lemma Store_event_events: "set (events (fst (Store_event s ev))) \<subseteq> insert ev (set (events s))"
  by (cases rule: Store_event_cases[of s ev])
    (use processKind5_events[of s ev] store_tail_events[of s ev] in auto)

interpretation mem: storage Store Query "\<lambda>s. set (events s)" storage_ok
proof unfold_locales
  show "Store s None = (s, Inr False)" for s by (simp add: Store_def)
  show "storage_ok s \<Longrightarrow> Query s filters = (es, None) \<Longrightarrow> query_result (set (events s)) filters es"
    for s filters es by (auto simp: Query_def Query_result)
qed (use Store_ok Store_event_events in auto)

end
