(* ===== verification/In_Memory_Properties.thy ===== *)
theory In_Memory_Properties
  imports In_Memory_Storage
begin

text \<open>
  What the in-memory storage promises: its invariant over any sequence of submissions, the
  meaning of queries, of the result of \<^verbatim>\<open>Store\<close>, of replaceable events and of deletion requests,
  and the two places where deletions do not behave as the comments say.
\<close>

section \<open>Replaceable events\<close>

definition held :: "string \<Rightarrow> InMemoryStorage \<Rightarrow> Event set" where
  "held A s = {e \<in> set (events s). Address_of e = A}"

definition is_best :: "Event \<Rightarrow> Event set \<Rightarrow> bool" where
  "is_best b S \<longleftrightarrow> b \<in> S \<and> (\<forall>x \<in> S. event_key b \<le> event_key x)"

lemma distinct_addrs_unique:
  assumes "distinct (addrs es)" "e \<in> set es" "f \<in> set es" "Address_of e = Address_of f" "Address_of e \<noteq> ''''"
  shows "e = f"
  using assms by (induction es) (auto simp: set_addrs image_iff split: if_splits)

lemma held_unique:
  "storage_ok s \<Longrightarrow> A \<noteq> '''' \<Longrightarrow> b \<in> held A s \<Longrightarrow> held A s = {b}"
  by (auto simp: held_def dest!: storage_okD(2) intro: distinct_addrs_unique)

lemma store_tail_held:
  assumes ok: "storage_ok s" and A: "Address_of e = A" "A \<noteq> ''''"
  shows "\<exists>b. held A (fst (store_tail s e)) = {b} \<and> is_best b (insert e (held A s))"
proof (cases rule: store_tail_cases[of s e])
  case rejected
  then obtain f where "f \<in> held A s" "event_key f \<le> event_key e"
    using A by (auto simp: held_def Address_of_empty)
  with held_unique[OF ok A(2)] have "held A s = {f}" by simp
  with rejected(1) \<open>event_key f \<le> event_key e\<close> show ?thesis by (auto simp: is_best_def)
next
  case (replaced xs f ys)
  with A have "f \<in> held A s" by (auto simp: held_def)
  with held_unique[OF ok A(2)] have h: "held A s = {f}" by simp
  from storage_okD(1,2)[OF ok] replaced(1,2) A have
    "\<forall>x \<in> set xs \<union> set ys. Address_of x \<noteq> A" by (auto simp: set_addrs image_iff)
  with replaced A have "held A (fst (store_tail s e)) = {e}" by (auto simp: held_def)
  with h replaced(4) show ?thesis by (auto simp: is_best_def)
next
  case appended
  with A have "held A s = {}" by (auto simp: held_def set_addrs image_iff)
  with appended A show ?thesis by (auto simp: held_def is_best_def)
qed

lemma store_tail_deleted [simp]:
  "deletedIDs (fst (store_tail s e)) = deletedIDs s" "deletedAddrs (fst (store_tail s e)) = deletedAddrs s"
  by (cases rule: store_tail_cases[of s e]; simp)+

lemma deleted_cong:
  "deletedIDs s' = deletedIDs s \<Longrightarrow> deleted_by_id s' e = deleted_by_id s e"
  "deletedAddrs s' = deletedAddrs s \<Longrightarrow> deleted_by_addr s' e = deleted_by_addr s e"
  by (simp_all add: deleted_by_id_def deleted_by_addr_def)

text \<open>One submission to the address, of an event no deletion covers.\<close>

lemma Store_event_held:
  assumes ok: "storage_ok s" and A: "Address_of e = A" "A \<noteq> ''''"
    and nd: "\<not> deleted_by_id s e" "\<not> deleted_by_addr s e"
    and ids: "\<forall>f \<in> set (events s). ID f = ID e \<longrightarrow> f = e"
  shows "\<exists>b. held A (fst (Store_event s e)) = {b} \<and> is_best b (insert e (held A s))"
    and "deletedIDs (fst (Store_event s e)) = deletedIDs s"
    and "deletedAddrs (fst (Store_event s e)) = deletedAddrs s"
proof -
  have k: "Kind e \<noteq> 5" using A by auto
  have *: "(\<exists>b. held A (fst (Store_event s e)) = {b} \<and> is_best b (insert e (held A s))) \<and>
    deletedIDs (fst (Store_event s e)) = deletedIDs s \<and> deletedAddrs (fst (Store_event s e)) = deletedAddrs s"
  proof (cases rule: Store_event_cases[of s e])
    case refused
    with nd ids A have "e \<in> held A s" by (auto simp: held_def)
    with held_unique[OF ok A(2)] have "held A s = {e}" by simp
    with refused(1) show ?thesis by (auto simp: is_best_def)
  next
    case other
    with store_tail_held[OF ok A] show ?thesis by simp
  qed (use k in auto)
  then show "\<exists>b. held A (fst (Store_event s e)) = {b} \<and> is_best b (insert e (held A s))"
    "deletedIDs (fst (Store_event s e)) = deletedIDs s"
    "deletedAddrs (fst (Store_event s e)) = deletedAddrs s" by auto
qed

definition Store_all :: "InMemoryStorage \<Rightarrow> Event list \<Rightarrow> InMemoryStorage" where
  "Store_all s es = foldl (\<lambda>s e. fst (Store s (Some e))) s es"

lemma Store_all_simps [simp]:
  "Store_all s [] = s" "Store_all s (e # es) = Store_all (fst (Store_event s e)) es"
  by (simp_all add: Store_all_def)

lemma is_best_insert:
  "is_best b (insert e S) \<Longrightarrow> is_best c ({b} \<union> T) \<Longrightarrow> is_best c (S \<union> insert e T)"
  unfolding is_best_def by (auto intro: order_trans)

text \<open>
  Other events in between: an event with another address leaves the address alone, unless it is a
  deletion request that names the address or one of the events.
\<close>

definition spares :: "Event \<Rightarrow> string \<Rightarrow> Event set \<Rightarrow> bool" where
  "spares d A V \<longleftrightarrow> (\<forall>t \<in> set (tags_of d). length t \<ge> 2 \<longrightarrow>
     (t ! 0 = ''e'' \<longrightarrow> t ! 1 \<notin> ID ` V) \<and> (t ! 0 = ''a'' \<longrightarrow> t ! 1 \<noteq> A))"

definition untouched :: "string \<Rightarrow> Event set \<Rightarrow> InMemoryStorage \<Rightarrow> InMemoryStorage \<Rightarrow> bool" where
  "untouched A V s s' \<longleftrightarrow> held A s' = held A s \<and> deletedAddrs s' A = deletedAddrs s A \<and>
     (\<forall>i \<in> ID ` V. deletedIDs s' i = deletedIDs s i)"

lemma untouched_refl [simp]: "untouched A V s s"
  by (simp add: untouched_def)

lemma untouched_deleted:
  "untouched A V s s' \<Longrightarrow> e \<in> V \<Longrightarrow> Address_of e = A \<Longrightarrow>
    deleted_by_id s' e = deleted_by_id s e \<and> deleted_by_addr s' e = deleted_by_addr s e"
  by (simp add: untouched_def deleted_by_id_def deleted_by_addr_def)

lemma process_tag_untouched:
  assumes "held A s \<subseteq> V" "length t \<ge> 2 \<longrightarrow> (t ! 0 = ''e'' \<longrightarrow> t ! 1 \<notin> ID ` V) \<and> (t ! 0 = ''a'' \<longrightarrow> t ! 1 \<noteq> A)"
  shows "untouched A V s (process_tag d t s)"
proof (cases "length t \<ge> 2 \<and> t ! 0 = ''e''")
  case True
  then have ids: "\<forall>i \<in> V. ID i \<noteq> t ! 1" using assms(2) by (metis imageI)
  then have "\<forall>e \<in> held A s. ID e \<noteq> t ! 1" using assms(1) by blast
  with True ids show ?thesis by (auto simp: untouched_def process_tag_def Let_def held_def)
next
  case False
  with assms(2) show ?thesis by (auto simp: untouched_def process_tag_def Let_def held_def)
qed

lemma process_tags_untouched:
  assumes "\<forall>t \<in> set ts. length t \<ge> 2 \<longrightarrow> (t ! 0 = ''e'' \<longrightarrow> t ! 1 \<notin> ID ` V) \<and> (t ! 0 = ''a'' \<longrightarrow> t ! 1 \<noteq> A)"
  shows "held A s \<subseteq> V \<Longrightarrow> untouched A V s (process_tags d ts s)"
  using assms
proof (induction ts arbitrary: s)
  case (Cons t ts)
  have u: "untouched A V s (process_tag d t s)" using Cons.prems by (intro process_tag_untouched) auto
  then have "held A (process_tag d t s) \<subseteq> V" using Cons.prems(1) by (simp add: untouched_def)
  from Cons.IH[OF this] Cons.prems(2) u show ?case by (simp add: untouched_def)
qed simp

lemma Store_event_untouched:
  assumes "Address_of e \<noteq> A" "A \<noteq> ''''" "held A s \<subseteq> V" "Kind e = 5 \<longrightarrow> spares e A V"
  shows "untouched A V s (fst (Store_event s e))"
proof (cases rule: Store_event_cases[of s e])
  case self_deleted
  with assms(3,4) show ?thesis by (simp add: processKind5_def spares_def process_tags_untouched)
next
  case deletion
  have "untouched A V s (processKind5 s e)"
    using assms(3,4) deletion(1) by (simp add: processKind5_def spares_def process_tags_untouched)
  with deletion assms(1) show ?thesis by (auto simp: untouched_def held_def)
next
  case other
  have "held A (fst (store_tail s e)) = held A s"
    by (cases rule: store_tail_cases[of s e]) (use assms(1) in \<open>auto simp: held_def\<close>)
  with other(2) show ?thesis by (simp add: untouched_def)
qed simp

lemma Store_all_held:
  assumes "storage_ok s" "A \<noteq> ''''" "held A s \<union> {e \<in> set es. Address_of e = A} \<subseteq> V"
    "\<forall>e \<in> set es. Address_of e = A \<longrightarrow> \<not> deleted_by_id s e \<and> \<not> deleted_by_addr s e"
    "\<forall>d \<in> set es. Kind d = 5 \<longrightarrow> spares d A V"
    "inj_on ID (set (events s) \<union> set es)" "held A s \<union> {e \<in> set es. Address_of e = A} \<noteq> {}"
  shows "\<exists>b. held A (Store_all s es) = {b} \<and> is_best b (held A s \<union> {e \<in> set es. Address_of e = A})"
  using assms
proof (induction es arbitrary: s)
  case Nil
  then obtain b where "b \<in> held A s" by auto
  with held_unique[OF Nil.prems(1,2)] have "held A s = {b}" by simp
  then show ?case by (intro exI[of _ b]) (simp add: is_best_def)
next
  case (Cons e es)
  let ?s = "fst (Store_event s e)"
  have ok: "storage_ok ?s" by (rule Store_event_ok[OF Cons.prems(1)])
  have inj: "inj_on ID (set (events ?s) \<union> set es)"
    by (rule inj_on_subset[OF Cons.prems(6)]) (use Store_event_events[of s e] in auto)
  have sp: "\<forall>d \<in> set es. Kind d = 5 \<longrightarrow> spares d A V" using Cons.prems(5) by simp
  show ?case
  proof (cases "Address_of e = A")
    case False
    have u: "untouched A V s ?s" using False Cons.prems(2,3,5) by (intro Store_event_untouched) auto
    then have h: "held A ?s = held A s" by (simp add: untouched_def)
    have "\<forall>e' \<in> set es. Address_of e' = A \<longrightarrow> \<not> deleted_by_id ?s e' \<and> \<not> deleted_by_addr ?s e'"
      using untouched_deleted[OF u] Cons.prems(3,4) by auto
    moreover have "{x \<in> set (e # es). Address_of x = A} = {x \<in> set es. Address_of x = A}" using False by auto
    ultimately show ?thesis using Cons.IH[OF ok Cons.prems(2) _ _ sp inj] Cons.prems(3,7) h by simp
  next
    case True
    from Cons.prems(6) have "\<forall>f \<in> set (events s). ID f = ID e \<longrightarrow> f = e" by (auto simp: inj_on_def)
    note st = Store_event_held[OF Cons.prems(1) True Cons.prems(2) _ _ this]
    from st(1) Cons.prems(4) True obtain b where b: "held A ?s = {b}" "is_best b (insert e (held A s))" by auto
    have "deletedIDs ?s = deletedIDs s" "deletedAddrs ?s = deletedAddrs s" using st(2,3) Cons.prems(4) True by auto
    then have nd: "\<forall>e' \<in> set es. Address_of e' = A \<longrightarrow> \<not> deleted_by_id ?s e' \<and> \<not> deleted_by_addr ?s e'"
      using Cons.prems(4) deleted_cong[of ?s s] by auto
    have "b \<in> V" using b(2) Cons.prems(3) True by (auto simp: is_best_def)
    then have "held A ?s \<union> {e \<in> set es. Address_of e = A} \<subseteq> V" using b(1) Cons.prems(3) by auto
    from Cons.IH[OF ok Cons.prems(2) this nd sp inj] b(1)
    obtain c where c: "held A (Store_all ?s es) = {c}" "is_best c (held A ?s \<union> {e \<in> set es. Address_of e = A})" by auto
    from is_best_insert[OF b(2), of c "{e \<in> set es. Address_of e = A}"] c(2) b(1)
    have "is_best c (held A s \<union> insert e {e \<in> set es. Address_of e = A})" by simp
    moreover have "insert e {e \<in> set es. Address_of e = A} = {x \<in> set (e # es). Address_of x = A}" using True by auto
    ultimately show ?thesis using c(1) by (intro exI[of _ c]) simp
  qed
qed

section \<open>Deletion requests\<close>

lemma process_tags_deletedIDs:
  assumes "t \<in> set ts" "length t \<ge> 2" "t ! 0 = ''e''"
  shows "deletedIDs (process_tags d ts s) (t ! 1) = Some \<lparr>dPubkey = Pubkey d, dCreatedAt = CreatedAt d\<rparr>"
  using assms(1)
proof (induction ts arbitrary: s)
  case (Cons u ts)
  have keep: "deletedIDs s' i = Some \<lparr>dPubkey = Pubkey d, dCreatedAt = CreatedAt d\<rparr> \<Longrightarrow>
    deletedIDs (process_tags d us s') i = Some \<lparr>dPubkey = Pubkey d, dCreatedAt = CreatedAt d\<rparr>" for s' i us
    by (induction us arbitrary: s') (auto simp: process_tag_def Let_def)
  show ?case
  proof (cases "t = u")
    case True
    with assms(2,3) have "deletedIDs (process_tag d u s) (t ! 1) = Some \<lparr>dPubkey = Pubkey d, dCreatedAt = CreatedAt d\<rparr>"
      by (simp add: process_tag_def Let_def)
    then show ?thesis by (simp add: keep)
  next
    case False
    with Cons show ?thesis by simp
  qed
qed simp

lemma process_tags_deletedAddrs:
  assumes "t \<in> set ts" "length t \<ge> 2" "t ! 0 = ''a''"
  shows "deletedAddrs (process_tags d ts s) (t ! 1) = Some \<lparr>dPubkey = Pubkey d, dCreatedAt = CreatedAt d\<rparr>"
  using assms(1)
proof (induction ts arbitrary: s)
  case (Cons u ts)
  have keep: "deletedAddrs s' i = Some \<lparr>dPubkey = Pubkey d, dCreatedAt = CreatedAt d\<rparr> \<Longrightarrow>
    deletedAddrs (process_tags d us s') i = Some \<lparr>dPubkey = Pubkey d, dCreatedAt = CreatedAt d\<rparr>" for s' i us
    by (induction us arbitrary: s') (auto simp: process_tag_def Let_def)
  show ?case
  proof (cases "t = u")
    case True
    with assms(2,3) have "deletedAddrs (process_tag d u s) (t ! 1) = Some \<lparr>dPubkey = Pubkey d, dCreatedAt = CreatedAt d\<rparr>"
      by (simp add: process_tag_def Let_def)
    then show ?thesis by (simp add: keep)
  next
    case False
    with Cons show ?thesis by simp
  qed
qed simp

lemma process_tag_keeps:
  "e \<in> set (events s) \<Longrightarrow> Pubkey e \<noteq> Pubkey d \<Longrightarrow> e \<in> set (events (process_tag d t s))"
  by (simp add: process_tag_def Let_def)

lemma process_tags_keeps:
  "e \<in> set (events s) \<Longrightarrow> Pubkey e \<noteq> Pubkey d \<Longrightarrow> e \<in> set (events (process_tags d ts s))"
  by (induction ts arbitrary: s) (auto intro: process_tag_keeps)

lemma process_tags_removes:
  assumes "t \<in> set ts" "length t \<ge> 2"
    and gone: "\<And>e s. P e \<Longrightarrow> e \<notin> set (events (process_tag d t s))"
  shows "P e \<Longrightarrow> e \<notin> set (events (process_tags d ts s))"
  using assms(1)
proof (induction ts arbitrary: s)
  case (Cons u ts)
  then show ?case using gone[of e] process_tags_events[of d ts "process_tag d u s"] by auto
qed simp

lemma accepted_deletion:
  assumes "Kind d = 5" "Store_event s d = (s', True)"
  shows "deletedIDs s' = deletedIDs (processKind5 s d) \<and> deletedAddrs s' = deletedAddrs (processKind5 s d) \<and>
    set (events s') \<subseteq> insert d (set (events (processKind5 s d)))"
  using assms by (cases rule: Store_event_cases[of s d]) auto

section \<open>Properties\<close>

text \<open>
  C2. Whatever events are submitted in whatever order, the in-memory storage holds no two events
  with the same identifier, no two with the same address, no ephemeral event and no event that
  a recorded deletion of its author covers.
\<close>

theorem Store_all_invariant: "storage_ok (Store_all NewInMemoryStorage es)"
  unfolding Store_all_def by (rule mem.store_all_invar[OF storage_ok_new])

text \<open>
  C3. A query returns what a reference definition says: the stored events that match some filter,
  each once, sorted newest first and by identifier, cut at the first filter's limit. The two
  nested loops with the \<open>seen\<close> map and the final sort compute exactly that.
\<close>

theorem Query_reference:
  "Query (Store_all NewInMemoryStorage es) filters =
    (limited (limit_of filters)
      (sort_key event_key (filter (matchesAny filters) (events (Store_all NewInMemoryStorage es)))), None)"
  unfolding Query_def Store_all_def
  by (subst Query_events_eq[OF mem.store_all_invar[OF storage_ok_new]]) (rule refl)

text \<open>
  C4. Replaceable and addressable events converge: whatever sequence of events is submitted, events of
  other addresses and deletion requests of other things in between, in any order and with
  repetitions, exactly one event is held at an address, the newest of those submitted for it and
  held before, ties broken by the smaller identifier. The conditions: no deletion, past or in the
  sequence, covers the address or these events, and identifiers identify events.
\<close>

theorem replaceable_converges:
  assumes "storage_ok s" and "A \<noteq> ''''"
    and "V = {e \<in> set (events s). Address_of e = A} \<union> {e \<in> set es. Address_of e = A}" and "V \<noteq> {}"
    and "\<forall>e \<in> set es. Address_of e = A \<longrightarrow> \<not> deleted_by_id s e \<and> \<not> deleted_by_addr s e"
    and "\<forall>d \<in> set es. Kind d = 5 \<longrightarrow> spares d A V"
    and "inj_on ID (set (events s) \<union> set es)"
  shows "\<exists>b \<in> V. {e \<in> set (events (Store_all s es)). Address_of e = A} = {b} \<and>
    (\<forall>e \<in> V. CreatedAt b > CreatedAt e \<or> (CreatedAt b = CreatedAt e \<and> ID b \<le> ID e))"
proof -
  have key: "event_key b \<le> event_key e \<longleftrightarrow> CreatedAt b > CreatedAt e \<or> (CreatedAt b = CreatedAt e \<and> ID b \<le> ID e)"
    for b e by (auto simp: event_key_def)
  from Store_all_held[OF assms(1,2) _ assms(5,6,7)] assms(3,4) obtain b where
    "held A (Store_all s es) = {b}" "is_best b V" by (auto simp: held_def)
  then show ?thesis unfolding held_def is_best_def key by blast
qed

theorem replaceable_converges_witness:
  "\<exists>b. {e \<in> set (events (Store_all NewInMemoryStorage
        [mk_event ''02'' ''a'' 7 0 [], mk_event ''09'' ''a'' 8 5 [[''e'', ''07'']], mk_event ''01'' ''a'' 7 0 [],
         mk_event ''03'' ''a'' 5 0 []])).
      Address_of e = ''0:a:''} = {b}"
proof -
  let ?es = "[mk_event ''02'' ''a'' 7 0 [], mk_event ''09'' ''a'' 8 5 [[''e'', ''07'']], mk_event ''01'' ''a'' 7 0 [],
         mk_event ''03'' ''a'' 5 0 []]"
  have adr: "Address_of (mk_event i ''a'' t 0 []) = ''0:a:''" for i t
    by (simp add: Address_of_def eventType_def eventType_of_kind_def FormatInt_def nat_digits.simps)
  let ?V = "{e \<in> set (events NewInMemoryStorage). Address_of e = ''0:a:''} \<union> {e \<in> set ?es. Address_of e = ''0:a:''}"
  have sub: "?V \<subseteq> {mk_event ''02'' ''a'' 7 0 [], mk_event ''01'' ''a'' 7 0 [], mk_event ''03'' ''a'' 5 0 []}"
    by (auto simp: NewInMemoryStorage_def)
  have ne: "?V \<noteq> {}" using adr[of "''02''" 7] by auto
  have del: "\<forall>e \<in> set ?es. Address_of e = ''0:a:'' \<longrightarrow>
      \<not> deleted_by_id NewInMemoryStorage e \<and> \<not> deleted_by_addr NewInMemoryStorage e"
    by (simp add: deleted_by_id_iff deleted_by_addr_iff NewInMemoryStorage_def)
  have "ID ` ?V \<subseteq> {''02'', ''01'', ''03''}" using sub by auto
  then have sp: "\<forall>d \<in> set ?es. Kind d = 5 \<longrightarrow> spares d ''0:a:'' ?V" by (auto simp: spares_def)
  have inj: "inj_on ID (set (events NewInMemoryStorage) \<union> set ?es)"
    by (simp add: NewInMemoryStorage_def)
  have a: "''0:a:'' \<noteq> ''''" by simp
  from replaceable_converges[OF storage_ok_new a refl ne del sp inj] obtain b where
    "{e \<in> set (events (Store_all NewInMemoryStorage ?es)). Address_of e = ''0:a:''} = {b}" by (elim bexE conjE)
  then show ?thesis by (rule exI)
qed

text \<open>
  The flag \<open>Store\<close> returns is right: false means the state is unchanged, true that the event
  is now stored, or that it was a deletion request that deletes itself. No error is returned.
\<close>

theorem Store_result:
  "(snd (Store s (Some e)) = Inr False \<and> fst (Store s (Some e)) = s) \<or>
   (snd (Store s (Some e)) = Inr True \<and>
     (e \<in> set (events (fst (Store s (Some e)))) \<or> (Kind e = 5 \<and> deleted_by_id (fst (Store s (Some e))) e)))"
proof (cases rule: Store_event_cases[of s e])
  case other
  then show ?thesis by (cases rule: store_tail_cases[of s e]) auto
qed auto

text \<open>
  No event removes another author's event: a stored event stays stored when any event by a
  different (well-formed) key arrives, be it a deletion request naming it or its address or a
  replaceable event.
\<close>

theorem Store_keeps_others:
  assumes "e \<in> set (events s)" and "Pubkey e \<noteq> Pubkey d"
    and "isValidLowercaseHex (Pubkey e) 64" and "isValidLowercaseHex (Pubkey d) 64"
  shows "e \<in> set (events (fst (Store s (Some d))))"
proof (cases rule: Store_event_cases[of s d])
  case other
  show ?thesis
  proof (cases rule: store_tail_cases[of s d])
    case (replaced xs f ys)
    have "f \<noteq> e"
    proof
      assume "f = e"
      with replaced(2,3) assms Address_of_inject[of e d] have "address_key e = address_key d"
        by (simp add: isValidLowercaseHex_no_colon)
      with assms(2) show False by (simp add: address_key_def)
    qed
    with replaced other(2) assms(1) show ?thesis by auto
  qed (use other(2) assms(1) in auto)
qed (use assms process_tags_keeps[of e s d "tags_of d"] in \<open>auto simp: processKind5_def\<close>)

theorem Store_keeps_others_witness:
  "mk_event ''n'' (replicate 64 (CHR ''a'')) 1 1 [] \<in> set (events (fst (Store
     (NewInMemoryStorage\<lparr>events := [mk_event ''n'' (replicate 64 (CHR ''a'')) 1 1 []]\<rparr>)
     (Some (mk_event ''d'' (replicate 64 (CHR ''b'')) 2 5 [[''e'', ''n'']])))))"
  by (rule Store_keeps_others) (simp_all add: isValidLowercaseHex_def list_all_iff less_eq_char_def)

text \<open>
  C5. A deletion request is effective: once a kind 5 event has been accepted, every event of its author
  that it names is gone (stored deletion requests excepted), and submitting one is refused without
  changing the state. It names an event by an e tag with its identifier, or by an a tag with its
  address, which is not empty, if the event is not newer than the request.
\<close>

theorem deletion_effective:
  assumes "Kind d = 5" and "Store s (Some d) = (s', Inr True)"
    and "t \<in> set (tags_of d)" and "length t \<ge> 2" and "Pubkey e = Pubkey d"
    and "t ! 0 = ''e'' \<and> ID e = t ! 1 \<or>
      t ! 0 = ''a'' \<and> Address_of e = t ! 1 \<and> Address_of e \<noteq> '''' \<and> CreatedAt e \<le> CreatedAt d"
  shows "(Kind e \<noteq> 5 \<longrightarrow> e \<notin> set (events s')) \<and> Store s' (Some e) = (s', Inr False)"
proof -
  have acc: "Store_event s d = (s', True)"
    using assms(2) by (cases "Store_event s d") (simp add: Store_def)
  note ad = accepted_deletion[OF assms(1) acc]
  show ?thesis using assms(6)
  proof (elim disjE conjE)
    assume t: "t ! 0 = ''e''" "ID e = t ! 1"
    have "deleted_by_id s' e"
      using ad process_tags_deletedIDs[OF assms(3,4) t(1), of d s] t(2) assms(5)
      by (simp add: processKind5_def deleted_by_id_iff)
    moreover have "e \<notin> set (events (process_tags d (tags_of d) s))" if "Kind e \<noteq> 5"
      by (rule process_tags_removes[OF assms(3,4), where P = "\<lambda>e. Kind e \<noteq> 5 \<and> ID e = t ! 1 \<and> Pubkey e = Pubkey d"])
        (use assms(4,5) t that in \<open>auto simp: process_tag_def Let_def\<close>)
    ultimately show ?thesis using ad assms(1) by (auto simp: processKind5_def Store_def Store_event_def)
  next
    assume t: "t ! 0 = ''a''" "Address_of e = t ! 1" "Address_of e \<noteq> ''''" "CreatedAt e \<le> CreatedAt d"
    have "deleted_by_addr s' e"
      using ad process_tags_deletedAddrs[OF assms(3,4) t(1), of d s] t assms(5)
      by (simp add: processKind5_def deleted_by_addr_iff)
    moreover have "e \<notin> set (events (process_tags d (tags_of d) s))"
      by (rule process_tags_removes[OF assms(3,4),
            where P = "\<lambda>e. Address_of e = t ! 1 \<and> Pubkey e = Pubkey d \<and> CreatedAt e \<le> CreatedAt d"])
        (use assms(4,5) t in \<open>auto simp: process_tag_def Let_def\<close>)
    moreover have "e \<noteq> d" using t(3) assms(1) by auto
    ultimately show ?thesis using ad by (auto simp: processKind5_def Store_def Store_event_def)
  qed
qed

theorem deletion_effective_witness:
  "(let d = mk_event ''d'' ''a'' 2 5 [[''e'', ''n''], [''a'', ''0:a:'']]; s' = fst (Store NewInMemoryStorage (Some d)) in
     Store s' (Some (mk_event ''n'' ''a'' 1 1 [])) = (s', Inr False) \<and>
     Store s' (Some (mk_event ''p'' ''a'' 2 0 [])) = (s', Inr False))"
proof -
  let ?d = "mk_event ''d'' ''a'' 2 5 [[''e'', ''n''], [''a'', ''0:a:'']]"
  have "Store NewInMemoryStorage (Some ?d) = (fst (Store NewInMemoryStorage (Some ?d)), Inr True)"
    by (simp add: prod_eq_iff Store_event_def NewInMemoryStorage_def processKind5_def process_tag_def
        deleted_by_id_def deleted_by_addr_def store_tail_kind5)
  note eff = deletion_effective[OF _ this]
  have "Address_of (mk_event ''p'' ''a'' 2 0 []) = ''0:a:''"
    by (simp add: Address_of_def eventType_def eventType_of_kind_def FormatInt_def nat_digits.simps)
  with eff[of "[''e'', ''n'']" "mk_event ''n'' ''a'' 1 1 []"] eff[of "[''a'', ''0:a:'']" "mk_event ''p'' ''a'' 2 0 []"]
  show ?thesis by (simp add: Let_def)
qed

text \<open>
  Deletion records are not protected: a deletion request by any other author that names the
  same identifier overwrites the record, and the event its own author had deleted is then no
  longer refused as deleted.
\<close>

theorem foreign_deletion_overwrites:
  assumes "deleted_by_id s e" and "Kind d = 5" and "Store s (Some d) = (s', Inr True)"
    and "t \<in> set (tags_of d)" and "length t \<ge> 2" and "t ! 0 = ''e''" and "ID e = t ! 1"
    and "Pubkey d \<noteq> Pubkey e"
  shows "\<not> deleted_by_id s' e"
proof -
  have acc: "Store_event s d = (s', True)"
    using assms(3) by (cases "Store_event s d") (simp add: Store_def)
  have "deletedIDs s' (ID e) = Some \<lparr>dPubkey = Pubkey d, dCreatedAt = CreatedAt d\<rparr>"
    using accepted_deletion[OF assms(2) acc] process_tags_deletedIDs[OF assms(4-6), of d s] assms(7)
    by (simp add: processKind5_def)
  with assms(8) show ?thesis by (simp add: deleted_by_id_iff)
qed

text \<open>In the instance, the note is deleted by its author, revived by a stranger's request, and stored again.\<close>

definition revived_storage :: InMemoryStorage where
  "revived_storage = Store_all NewInMemoryStorage
     [mk_event ''n'' ''a'' 1 1 [], mk_event ''d'' ''a'' 2 5 [[''e'', ''n'']]]"

lemma revived_storage_eq:
  "events revived_storage = [mk_event ''d'' ''a'' 2 5 [[''e'', ''n'']]]"
  "deletedIDs revived_storage = [''n'' \<mapsto> \<lparr>dPubkey = ''a'', dCreatedAt = 2 * nsPerSec\<rparr>]"
  "deletedAddrs revived_storage = Map.empty"
  by (simp_all add: revived_storage_def Store_event_def NewInMemoryStorage_def processKind5_def
      process_tag_def deleted_by_id_def deleted_by_addr_def store_tail_kind5 store_tail_def
      eventType_def eventType_of_kind_def Address_of_def Let_def)

theorem foreign_deletion_overwrites_witness:
  "snd (Store revived_storage (Some (mk_event ''n'' ''a'' 1 1 []))) = Inr False \<and>
   \<not> deleted_by_id (fst (Store revived_storage (Some (mk_event ''x'' ''b'' 3 5 [[''e'', ''n'']]))))
       (mk_event ''n'' ''a'' 1 1 [])"
proof -
  let ?d = "mk_event ''x'' ''b'' 3 5 [[''e'', ''n'']]" and ?n = "mk_event ''n'' ''a'' 1 1 []"
  have del: "deleted_by_id revived_storage ?n" by (simp add: deleted_by_id_def revived_storage_eq)
  have acc: "Store revived_storage (Some ?d) = (fst (Store revived_storage (Some ?d)), Inr True)"
    by (simp add: prod_eq_iff Store_event_def processKind5_def process_tag_def
        deleted_by_id_def deleted_by_addr_def store_tail_kind5 revived_storage_eq)
  have "\<not> deleted_by_id (fst (Store revived_storage (Some ?d))) ?n"
    by (rule foreign_deletion_overwrites[OF del _ acc, of "[''e'', ''n'']"]) simp_all
  with del show ?thesis by (simp add: Store_event_def)
qed

text \<open>
  A deletion request with an empty address (the tag \<^verbatim>\<open>["a", ""]\<close>) deletes every event of its
  author that has no address and is not newer, that is all regular events, earlier deletion
  requests included: the comparison \<^verbatim>\<open>e.Address() == addr\<close> holds for all of them.
\<close>

theorem empty_address_deletes_regular:
  assumes "Kind d = 5" and "Store s (Some d) = (s', Inr True)"
    and "t \<in> set (tags_of d)" and "length t \<ge> 2" and "t ! 0 = ''a''" and "t ! 1 = ''''"
    and "e \<in> set (events s')" and "Address_of e = ''''" and "Pubkey e = Pubkey d" and "CreatedAt e \<le> CreatedAt d"
  shows "e = d"
proof (rule ccontr)
  assume "e \<noteq> d"
  have "Store_event s d = (s', True)"
    using assms(2) by (cases "Store_event s d") (simp add: Store_def)
  from accepted_deletion[OF assms(1) this] assms(7) \<open>e \<noteq> d\<close>
  have "e \<in> set (events (process_tags d (tags_of d) s))" by (auto simp: processKind5_def)
  moreover have "e \<notin> set (events (process_tags d (tags_of d) s))"
    by (rule process_tags_removes[OF assms(3,4),
          where P = "\<lambda>e. Address_of e = '''' \<and> Pubkey e = Pubkey d \<and> CreatedAt e \<le> CreatedAt d"])
      (use assms in \<open>auto simp: process_tag_def Let_def\<close>)
  ultimately show False by simp
qed

theorem empty_address_deletes_regular_witness:
  "mk_event ''d'' ''a'' 2 5 [[''e'', ''n'']] \<in> set (events revived_storage) \<and>
   mk_event ''d'' ''a'' 2 5 [[''e'', ''n'']] \<notin>
     set (events (fst (Store revived_storage (Some (mk_event ''x'' ''a'' 3 5 [[''a'', '''']])))))"
proof
  let ?d = "mk_event ''x'' ''a'' 3 5 [[''a'', '''']]" and ?e = "mk_event ''d'' ''a'' 2 5 [[''e'', ''n'']]"
  have acc: "Store revived_storage (Some ?d) = (fst (Store revived_storage (Some ?d)), Inr True)"
    by (simp add: prod_eq_iff Store_event_def processKind5_def process_tag_def
        deleted_by_id_def deleted_by_addr_def store_tail_kind5 revived_storage_eq)
  show "?e \<notin> set (events (fst (Store revived_storage (Some ?d))))"
  proof
    assume "?e \<in> set (events (fst (Store revived_storage (Some ?d))))"
    then have "?e = ?d"
      by (rule empty_address_deletes_regular[OF _ acc, of "[''a'', '''']", rotated 5])
        (simp_all add: Address_of_def eventType_def eventType_of_kind_def)
    then show False by simp
  qed
qed (simp add: revived_storage_eq)

end
