(* ===== verification/Merge_Session.thy ===== *)
theory Merge_Session
  imports Message
begin

text \<open>
  The \<^verbatim>\<open>mergeSession\<close> of \<^verbatim>\<open>merge_handler.go\<close>: the bookkeeping by which the merge handler combines
  the answers of several child handlers into one OK, one EOSE or one COUNT per request, and
  deduplicates, orders and limits the stored events of a subscription.

  The three pending maps are association lists: the code iterates over them when a child is
  lost, and the list is the iteration order. \<open>None\<close> as the result of \<open>processResponse\<close> is the
  nil dereference of an EVENT message without event. \<open>eventDrops\<close> is the drop counter by reason.
\<close>

section \<open>State\<close>

record pendingOK =
  okReceived :: nat
  okAccepted :: bool
  okMessage :: string
  okResponded :: "bool list"
  hadHandlerLoss :: bool

record pendingCount =
  cReceived :: nat
  maxCount :: "64 word"
  cResponded :: "bool list"

record pendingEOSE =
  eReceived :: nat
  seenEventIDs :: "string set"
  lastCreatedAt :: int
  lastID :: string
  hasSentEvent :: bool
  eLimit :: int
  eventCount :: int
  eoseSent :: bool
  handlerEOSESent :: "bool list"

record mergeSession =
  numHandlers :: nat
  pendingOKs :: "(string \<times> pendingOK) list"
  pendingEOSEs :: "(string \<times> pendingEOSE) list"
  pendingCounts :: "(string \<times> pendingCount) list"
  completedSubs :: "string set"
  eventDrops :: "string \<Rightarrow> nat"

definition MergeHandlerOKLostHandlerMessage :: string where
  "MergeHandlerOKLostHandlerMessage = ''error: a downstream handler is unavailable, please retry''"

definition newMergeSession :: "nat \<Rightarrow> mergeSession" where
  "newMergeSession n = \<lparr>numHandlers = n, pendingOKs = [], pendingEOSEs = [], pendingCounts = [],
     completedSubs = {}, eventDrops = (\<lambda>_. 0)\<rparr>"

definition recordEventDrop :: "string \<Rightarrow> mergeSession \<Rightarrow> mergeSession" where
  "recordEventDrop reason s = s\<lparr>eventDrops := (eventDrops s)(reason := Suc (eventDrops s reason))\<rparr>"

definition finalizeOKMsg :: "string \<Rightarrow> pendingOK \<Rightarrow> ServerMsg" where
  "finalizeOKMsg eventID p =
     (if hadHandlerLoss p then NewServerOKMsg eventID False MergeHandlerOKLostHandlerMessage
      else NewServerOKMsg eventID (okAccepted p) (okMessage p))"

section \<open>Requests\<close>

definition startEventResponse :: "string \<Rightarrow> mergeSession \<Rightarrow> mergeSession" where
  "startEventResponse eventID s =
     s\<lparr>pendingOKs := AList.update eventID
        \<lparr>okReceived = 0, okAccepted = True, okMessage = '''',
         okResponded = replicate (numHandlers s) False, hadHandlerLoss = False\<rparr> (pendingOKs s)\<rparr>"

definition startCountResponse :: "string \<Rightarrow> mergeSession \<Rightarrow> mergeSession" where
  "startCountResponse subID s =
     s\<lparr>pendingCounts := AList.update subID
        \<lparr>cReceived = 0, maxCount = 0, cResponded = replicate (numHandlers s) False\<rparr> (pendingCounts s)\<rparr>"

definition startReqResponse :: "string \<Rightarrow> ReqFilter list \<Rightarrow> mergeSession \<Rightarrow> mergeSession" where
  "startReqResponse subID filters s =
     (let limit = (case filters of [] \<Rightarrow> 0 | f # _ \<Rightarrow> (case Limit f of None \<Rightarrow> 0 | Some l \<Rightarrow> l))
      in s\<lparr>completedSubs := completedSubs s - {subID},
           pendingEOSEs := AList.update subID
             \<lparr>eReceived = 0, seenEventIDs = {}, lastCreatedAt = 0, lastID = '''', hasSentEvent = False,
              eLimit = limit, eventCount = 0, eoseSent = False,
              handlerEOSESent = replicate (numHandlers s) False\<rparr> (pendingEOSEs s)\<rparr>)"

definition closeSubscription :: "string \<Rightarrow> mergeSession \<Rightarrow> mergeSession" where
  "closeSubscription subID s =
     s\<lparr>pendingEOSEs := AList.delete subID (pendingEOSEs s),
       pendingCounts := AList.delete subID (pendingCounts s),
       completedSubs := completedSubs s - {subID}\<rparr>"

section \<open>Loss of a child\<close>

fun close_oks :: "nat \<Rightarrow> nat \<Rightarrow> (string \<times> pendingOK) list \<Rightarrow> (string \<times> pendingOK) list \<times> ServerMsg list" where
  "close_oks n i [] = ([], [])"
| "close_oks n i ((eventID, p) # ps) =
     (let (ps', results) = close_oks n i ps in
      if okResponded p ! i then ((eventID, p) # ps', results)
      else let p' = p\<lparr>okResponded := (okResponded p)[i := True], okReceived := okReceived p + 1,
                      hadHandlerLoss := True\<rparr>
           in if okReceived p' \<ge> n then (ps', finalizeOKMsg eventID p' # results)
              else ((eventID, p') # ps', results))"

fun close_eoses :: "nat \<Rightarrow> nat \<Rightarrow> (string \<times> pendingEOSE) list \<Rightarrow> (string \<times> pendingEOSE) list \<times> string list" where
  "close_eoses n i [] = ([], [])"
| "close_eoses n i ((subID, p) # ps) =
     (let (ps', done) = close_eoses n i ps in
      if eoseSent p \<or> handlerEOSESent p ! i then ((subID, p) # ps', done)
      else let p' = p\<lparr>handlerEOSESent := (handlerEOSESent p)[i := True], eReceived := eReceived p + 1\<rparr>
           in if eReceived p' \<ge> n then (ps', subID # done) else ((subID, p') # ps', done))"

fun close_counts :: "nat \<Rightarrow> nat \<Rightarrow> (string \<times> pendingCount) list \<Rightarrow> (string \<times> pendingCount) list \<times> ServerMsg list" where
  "close_counts n i [] = ([], [])"
| "close_counts n i ((subID, p) # ps) =
     (let (ps', results) = close_counts n i ps in
      if cResponded p ! i then ((subID, p) # ps', results)
      else let p' = p\<lparr>cResponded := (cResponded p)[i := True], cReceived := cReceived p + 1\<rparr>
           in if cReceived p' \<ge> n then (ps', NewServerCountMsg subID (maxCount p') None # results)
              else ((subID, p') # ps', results))"

definition handlerClosed :: "nat \<Rightarrow> mergeSession \<Rightarrow> mergeSession \<times> ServerMsg list" where
  "handlerClosed i s =
     (let (oks, okMsgs) = close_oks (numHandlers s) i (pendingOKs s);
          (eoses, done) = close_eoses (numHandlers s) i (pendingEOSEs s);
          (counts, countMsgs) = close_counts (numHandlers s) i (pendingCounts s)
      in (s\<lparr>pendingOKs := oks, pendingEOSEs := eoses, pendingCounts := counts,
            completedSubs := completedSubs s \<union> set done\<rparr>,
          okMsgs @ map NewServerEOSEMsg done @ countMsgs))"

section \<open>Answers of children\<close>

definition processOK :: "ServerMsg \<Rightarrow> nat \<Rightarrow> mergeSession \<Rightarrow> mergeSession \<times> ServerMsg list" where
  "processOK msg i s =
     (case map_of (pendingOKs s) (SEventID msg) of
        None \<Rightarrow> (s, [])
      | Some p \<Rightarrow>
          if okResponded p ! i then (s, [])
          else
            let p1 = p\<lparr>okResponded := (okResponded p)[i := True], okReceived := okReceived p + 1\<rparr>;
                p2 = (if \<not> SAccepted msg then p1\<lparr>okAccepted := False, okMessage := SMessage msg\<rparr> else p1)
            in if okReceived p2 \<ge> numHandlers s
               then (s\<lparr>pendingOKs := AList.delete (SEventID msg) (pendingOKs s)\<rparr>,
                     [finalizeOKMsg (SEventID msg) p2])
               else (s\<lparr>pendingOKs := AList.update (SEventID msg) p2 (pendingOKs s)\<rparr>, []))"

definition processEvent :: "ServerMsg \<Rightarrow> Event \<Rightarrow> nat \<Rightarrow> mergeSession \<Rightarrow> mergeSession \<times> ServerMsg list" where
  "processEvent msg event i s =
     (let subID = SSubscriptionID msg; eventCreatedAt = Unix (CreatedAt event); eventID = ID event in
      if subID \<in> completedSubs s then (s, [msg])
      else case map_of (pendingEOSEs s) subID of
        None \<Rightarrow> (s, [])
      | Some p \<Rightarrow>
          if eoseSent p then (recordEventDrop ''after_limit'' s, [])
          else if handlerEOSESent p ! i then
            (if eventID \<in> seenEventIDs p then (recordEventDrop ''duplicate'' s, [])
             else (s\<lparr>pendingEOSEs := AList.update subID
                        (p\<lparr>seenEventIDs := insert eventID (seenEventIDs p)\<rparr>) (pendingEOSEs s)\<rparr>, [msg]))
          else if eventID \<in> seenEventIDs p then (recordEventDrop ''duplicate'' s, [])
          else if hasSentEvent p \<and> eventCreatedAt > lastCreatedAt p then
            (recordEventDrop ''out_of_order'' s, [])
          else if hasSentEvent p \<and> eventCreatedAt = lastCreatedAt p \<and> eventID < lastID p then
            (recordEventDrop ''out_of_order'' s, [])
          else
            let p' = p\<lparr>seenEventIDs := insert eventID (seenEventIDs p), lastCreatedAt := eventCreatedAt,
                       lastID := eventID, hasSentEvent := True, eventCount := eventCount p + 1\<rparr>
            in if eLimit p' > 0 \<and> eventCount p' \<ge> eLimit p'
               then (s\<lparr>pendingEOSEs := AList.delete subID (pendingEOSEs s),
                       completedSubs := insert subID (completedSubs s)\<rparr>, [msg, NewServerEOSEMsg subID])
               else (s\<lparr>pendingEOSEs := AList.update subID p' (pendingEOSEs s)\<rparr>, [msg]))"

definition processEOSE :: "ServerMsg \<Rightarrow> nat \<Rightarrow> mergeSession \<Rightarrow> mergeSession \<times> ServerMsg list" where
  "processEOSE msg i s =
     (let subID = SSubscriptionID msg in
      if subID \<in> completedSubs s then (s, [])
      else case map_of (pendingEOSEs s) subID of
        None \<Rightarrow> (s, [])
      | Some p \<Rightarrow>
          if eoseSent p then (s, [])
          else if handlerEOSESent p ! i then (s, [])
          else
            let p' = p\<lparr>handlerEOSESent := (handlerEOSESent p)[i := True], eReceived := eReceived p + 1\<rparr>
            in if eReceived p' \<ge> numHandlers s
               then (s\<lparr>pendingEOSEs := AList.delete subID (pendingEOSEs s),
                       completedSubs := insert subID (completedSubs s)\<rparr>, [NewServerEOSEMsg subID])
               else (s\<lparr>pendingEOSEs := AList.update subID p' (pendingEOSEs s)\<rparr>, []))"

definition processCount :: "ServerMsg \<Rightarrow> nat \<Rightarrow> mergeSession \<Rightarrow> mergeSession \<times> ServerMsg list" where
  "processCount msg i s =
     (let subID = SSubscriptionID msg in
      case map_of (pendingCounts s) subID of
        None \<Rightarrow> (s, [])
      | Some p \<Rightarrow>
          if cResponded p ! i then (s, [])
          else
            let p1 = p\<lparr>cResponded := (cResponded p)[i := True], cReceived := cReceived p + 1\<rparr>;
                p2 = (if SCount msg > maxCount p1 then p1\<lparr>maxCount := SCount msg\<rparr> else p1)
            in if cReceived p2 \<ge> numHandlers s
               then (s\<lparr>pendingCounts := AList.delete subID (pendingCounts s)\<rparr>,
                     [NewServerCountMsg subID (maxCount p2) None])
               else (s\<lparr>pendingCounts := AList.update subID p2 (pendingCounts s)\<rparr>, []))"

definition processResponse :: "ServerMsg \<Rightarrow> nat \<Rightarrow> mergeSession \<Rightarrow> (mergeSession \<times> ServerMsg list) option" where
  "processResponse msg i s =
     (if SType msg = MsgTypeOK then Some (processOK msg i s)
      else if SType msg = MsgTypeEvent then
        (case SEvent msg of None \<Rightarrow> None | Some event \<Rightarrow> Some (processEvent msg event i s))
      else if SType msg = MsgTypeEOSE then Some (processEOSE msg i s)
      else if SType msg = MsgTypeCount then Some (processCount msg i s)
      else Some (s, [msg]))"

end
