(* ===== verification/Merge_Views.thy ===== *)
theory Merge_Views
  imports Merge_Session
begin

text \<open>
  The merge session as a product of small machines, one per event identifier and one per
  subscription identifier. \<open>session_step\<close> is what the main loop of \<^verbatim>\<open>mergeHandler.ServeNostr\<close> does to
  the session for one input; the views say what it does to the entry of one key and which of the
  emitted messages carry that key. The refinement lemmas show that the session implements every
  view, so properties are proved on a single entry and hold for any interleaving.
\<close>

section \<open>Inputs of the session\<close>

datatype merge_input = FromClient ClientMsg | FromChild nat ServerMsg | ChildLost nat

text \<open>The \<^verbatim>\<open>switch\<close> that registers a request before it is broadcast.\<close>

definition track_request :: "ClientMsg \<Rightarrow> mergeSession \<Rightarrow> mergeSession option" where
  "track_request msg s =
     (if CType msg = MsgTypeEvent then
        (case CEvent msg of None \<Rightarrow> None | Some e \<Rightarrow> Some (startEventResponse (ID e) s))
      else if CType msg = MsgTypeReq then Some (startReqResponse (CSubscriptionID msg) (CFilters msg) s)
      else if CType msg = MsgTypeCount then Some (startCountResponse (CSubscriptionID msg) s)
      else if CType msg = MsgTypeClose then Some (closeSubscription (CSubscriptionID msg) s)
      else Some s)"

definition session_step :: "merge_input \<Rightarrow> mergeSession \<Rightarrow> (mergeSession \<times> ServerMsg list) option" where
  "session_step inp s =
     (case inp of
        FromClient msg \<Rightarrow> (case track_request msg s of None \<Rightarrow> None | Some s' \<Rightarrow> Some (s', []))
      | FromChild i msg \<Rightarrow> processResponse msg i s
      | ChildLost i \<Rightarrow> Some (handlerClosed i s))"

fun session_run :: "merge_input list \<Rightarrow> mergeSession \<Rightarrow> (mergeSession \<times> ServerMsg list) option" where
  "session_run [] s = Some (s, [])"
| "session_run (inp # inps) s =
     (case session_step inp s of None \<Rightarrow> None
      | Some (s', out) \<Rightarrow>
          (case session_run inps s' of None \<Rightarrow> None | Some (s'', outs) \<Rightarrow> Some (s'', out @ outs)))"

text \<open>Messages that name the event their type requires; for the others the code dereferences nil.\<close>

definition well_formed_input :: "merge_input \<Rightarrow> bool" where
  "well_formed_input inp = (case inp of
     FromClient m \<Rightarrow> CType m = MsgTypeEvent \<longrightarrow> CEvent m \<noteq> None
   | FromChild i m \<Rightarrow> SType m = MsgTypeEvent \<longrightarrow> SEvent m \<noteq> None
   | ChildLost i \<Rightarrow> True)"

lemma session_step_total: "session_step inp s = None \<longleftrightarrow> \<not> well_formed_input inp"
  by (auto simp: session_step_def well_formed_input_def track_request_def processResponse_def
      split: merge_input.splits option.splits)

lemma session_run_total: "(\<exists>r. session_run inps s = Some r) \<longleftrightarrow> (\<forall>inp\<in>set inps. well_formed_input inp)"
proof (induction inps arbitrary: s)
  case (Cons inp inps)
  show ?case
  proof (cases "session_step inp s")
    case None
    then show ?thesis using session_step_total[of inp s] by simp
  next
    case (Some r)
    then have "well_formed_input inp" using session_step_total by (metis option.distinct(1))
    with Some Cons[of "fst r"] show ?thesis by (auto split: prod.splits option.splits)
  qed
qed simp

section \<open>The OK view\<close>

definition ok_msgs :: "string \<Rightarrow> ServerMsg list \<Rightarrow> ServerMsg list" where
  "ok_msgs eid = filter (\<lambda>m. SType m = MsgTypeOK \<and> SEventID m = eid)"

definition fresh_ok :: "nat \<Rightarrow> pendingOK" where
  "fresh_ok n = \<lparr>okReceived = 0, okAccepted = True, okMessage = '''',
     okResponded = replicate n False, hadHandlerLoss = False\<rparr>"

definition ok_mark :: "nat \<Rightarrow> pendingOK \<Rightarrow> pendingOK" where
  "ok_mark i p = p\<lparr>okResponded := (okResponded p)[i := True], okReceived := okReceived p + 1\<rparr>"

definition ok_verdict :: "ServerMsg \<Rightarrow> pendingOK \<Rightarrow> pendingOK" where
  "ok_verdict msg p = (if \<not> SAccepted msg then p\<lparr>okAccepted := False, okMessage := SMessage msg\<rparr> else p)"

text \<open>An entry after an answer: finished, or still waiting.\<close>

definition ok_settle :: "nat \<Rightarrow> string \<Rightarrow> pendingOK \<Rightarrow> pendingOK option \<times> ServerMsg list" where
  "ok_settle n eid p = (if okReceived p \<ge> n then (None, [finalizeOKMsg eid p]) else (Some p, []))"

definition is_ok_from :: "string \<Rightarrow> merge_input \<Rightarrow> bool" where
  "is_ok_from eid inp = (case inp of FromChild i m \<Rightarrow> SType m = MsgTypeOK \<and> SEventID m = eid | _ \<Rightarrow> False)"

definition is_event_req :: "string \<Rightarrow> merge_input \<Rightarrow> bool" where
  "is_event_req eid inp =
     (case inp of FromClient m \<Rightarrow> CType m = MsgTypeEvent \<and> map_option ID (CEvent m) = Some eid | _ \<Rightarrow> False)"

fun ok_view :: "nat \<Rightarrow> string \<Rightarrow> merge_input \<Rightarrow> pendingOK option \<Rightarrow> pendingOK option \<times> ServerMsg list" where
  "ok_view n eid (FromClient m) p =
     (if is_event_req eid (FromClient m) then (Some (fresh_ok n), []) else (p, []))"
| "ok_view n eid inp None = (None, [])"
| "ok_view n eid (FromChild i m) (Some p) =
     (if \<not> is_ok_from eid (FromChild i m) \<or> okResponded p ! i then (Some p, [])
      else ok_settle n eid (ok_verdict m (ok_mark i p)))"
| "ok_view n eid (ChildLost i) (Some p) =
     (if okResponded p ! i then (Some p, [])
      else ok_settle n eid ((ok_mark i p)\<lparr>hadHandlerLoss := True\<rparr>))"

fun ok_view_run :: "nat \<Rightarrow> string \<Rightarrow> merge_input list \<Rightarrow> pendingOK option \<Rightarrow> pendingOK option \<times> ServerMsg list" where
  "ok_view_run n eid [] p = (p, [])"
| "ok_view_run n eid (inp # inps) p =
     (case ok_view n eid inp p of (p', out) \<Rightarrow>
        (case ok_view_run n eid inps p' of (p'', outs) \<Rightarrow> (p'', out @ outs)))"

section \<open>The subscription view\<close>

text \<open>The entry of a subscription and whether its EOSE has been sent.\<close>

type_synonym sub_state = "pendingEOSE option \<times> bool"

definition sub_msgs :: "string \<Rightarrow> ServerMsg list \<Rightarrow> ServerMsg list" where
  "sub_msgs sid = filter (\<lambda>m. (SType m = MsgTypeEvent \<or> SType m = MsgTypeEOSE) \<and> SSubscriptionID m = sid)"

definition req_limit :: "ReqFilter list \<Rightarrow> int" where
  "req_limit filters = (case filters of [] \<Rightarrow> 0 | f # _ \<Rightarrow> (case Limit f of None \<Rightarrow> 0 | Some l \<Rightarrow> l))"

definition fresh_eose :: "nat \<Rightarrow> ReqFilter list \<Rightarrow> pendingEOSE" where
  "fresh_eose n filters =
     \<lparr>eReceived = 0, seenEventIDs = {}, lastCreatedAt = 0, lastID = '''', hasSentEvent = False,
      eLimit = req_limit filters, eventCount = 0, eoseSent = False,
      handlerEOSESent = replicate n False\<rparr>"

definition eose_mark :: "nat \<Rightarrow> pendingEOSE \<Rightarrow> pendingEOSE" where
  "eose_mark i p = p\<lparr>handlerEOSESent := (handlerEOSESent p)[i := True], eReceived := eReceived p + 1\<rparr>"

definition eose_settle :: "nat \<Rightarrow> string \<Rightarrow> pendingEOSE \<Rightarrow> sub_state \<times> ServerMsg list" where
  "eose_settle n sid p =
     (if eReceived p \<ge> n then ((None, True), [NewServerEOSEMsg sid]) else ((Some p, False), []))"

definition in_order :: "pendingEOSE \<Rightarrow> Event \<Rightarrow> bool" where
  "in_order p e \<longleftrightarrow>
     \<not> (hasSentEvent p \<and> Unix (CreatedAt e) > lastCreatedAt p) \<and>
     \<not> (hasSentEvent p \<and> Unix (CreatedAt e) = lastCreatedAt p \<and> ID e < lastID p)"

definition record_event :: "Event \<Rightarrow> pendingEOSE \<Rightarrow> pendingEOSE" where
  "record_event e p = p\<lparr>seenEventIDs := insert (ID e) (seenEventIDs p), lastCreatedAt := Unix (CreatedAt e),
     lastID := ID e, hasSentEvent := True, eventCount := eventCount p + 1\<rparr>"

definition event_view :: "string \<Rightarrow> nat \<Rightarrow> ServerMsg \<Rightarrow> Event \<Rightarrow> sub_state \<Rightarrow> sub_state \<times> ServerMsg list" where
  "event_view sid i m e st =
     (if snd st then (st, [m])
      else case fst st of None \<Rightarrow> (st, [])
      | Some p \<Rightarrow>
          if eoseSent p \<or> ID e \<in> seenEventIDs p then (st, [])
          else if handlerEOSESent p ! i then
            ((Some (p\<lparr>seenEventIDs := insert (ID e) (seenEventIDs p)\<rparr>), False), [m])
          else if \<not> in_order p e then (st, [])
          else if eLimit p > 0 \<and> eventCount p + 1 \<ge> eLimit p then ((None, True), [m, NewServerEOSEMsg sid])
          else ((Some (record_event e p), False), [m]))"

definition eose_view :: "nat \<Rightarrow> string \<Rightarrow> nat \<Rightarrow> sub_state \<Rightarrow> sub_state \<times> ServerMsg list" where
  "eose_view n sid i st =
     (if snd st then (st, [])
      else case fst st of None \<Rightarrow> (st, [])
      | Some p \<Rightarrow> if eoseSent p \<or> handlerEOSESent p ! i then (st, []) else eose_settle n sid (eose_mark i p))"

text \<open>A lost child is counted whether or not the subscription is marked as completed.\<close>

definition lost_view :: "nat \<Rightarrow> string \<Rightarrow> nat \<Rightarrow> sub_state \<Rightarrow> sub_state \<times> ServerMsg list" where
  "lost_view n sid i st =
     (case fst st of None \<Rightarrow> (st, [])
      | Some p \<Rightarrow>
          if eoseSent p \<or> handlerEOSESent p ! i then (st, [])
          else if eReceived (eose_mark i p) \<ge> n then ((None, True), [NewServerEOSEMsg sid])
          else ((Some (eose_mark i p), snd st), []))"

fun sub_view :: "nat \<Rightarrow> string \<Rightarrow> merge_input \<Rightarrow> sub_state \<Rightarrow> sub_state \<times> ServerMsg list" where
  "sub_view n sid (FromClient m) st =
     (if CSubscriptionID m \<noteq> sid then (st, [])
      else if CType m = MsgTypeReq then ((Some (fresh_eose n (CFilters m)), False), [])
      else if CType m = MsgTypeClose then ((None, False), [])
      else (st, []))"
| "sub_view n sid (FromChild i m) st =
     (if SSubscriptionID m \<noteq> sid then (st, [])
      else if SType m = MsgTypeEvent then
        (case SEvent m of None \<Rightarrow> (st, []) | Some e \<Rightarrow> event_view sid i m e st)
      else if SType m = MsgTypeEOSE then eose_view n sid i st
      else (st, []))"
| "sub_view n sid (ChildLost i) st = lost_view n sid i st"

fun sub_view_run :: "nat \<Rightarrow> string \<Rightarrow> merge_input list \<Rightarrow> sub_state \<Rightarrow> sub_state \<times> ServerMsg list" where
  "sub_view_run n sid [] st = (st, [])"
| "sub_view_run n sid (inp # inps) st =
     (case sub_view n sid inp st of (st', out) \<Rightarrow>
        (case sub_view_run n sid inps st' of (st'', outs) \<Rightarrow> (st'', out @ outs)))"

section \<open>The COUNT view\<close>

definition count_msgs :: "string \<Rightarrow> ServerMsg list \<Rightarrow> ServerMsg list" where
  "count_msgs sid = filter (\<lambda>m. SType m = MsgTypeCount \<and> SSubscriptionID m = sid)"

definition fresh_count :: "nat \<Rightarrow> pendingCount" where
  "fresh_count n = \<lparr>cReceived = 0, maxCount = 0, cResponded = replicate n False\<rparr>"

definition count_mark :: "nat \<Rightarrow> pendingCount \<Rightarrow> pendingCount" where
  "count_mark i p = p\<lparr>cResponded := (cResponded p)[i := True], cReceived := cReceived p + 1\<rparr>"

definition count_settle :: "nat \<Rightarrow> string \<Rightarrow> pendingCount \<Rightarrow> pendingCount option \<times> ServerMsg list" where
  "count_settle n sid p =
     (if cReceived p \<ge> n then (None, [NewServerCountMsg sid (maxCount p) None]) else (Some p, []))"

fun count_view :: "nat \<Rightarrow> string \<Rightarrow> merge_input \<Rightarrow> pendingCount option \<Rightarrow> pendingCount option \<times> ServerMsg list" where
  "count_view n sid (FromClient m) p =
     (if CSubscriptionID m \<noteq> sid then (p, [])
      else if CType m = MsgTypeCount then (Some (fresh_count n), [])
      else if CType m = MsgTypeClose then (None, [])
      else (p, []))"
| "count_view n sid inp None = (None, [])"
| "count_view n sid (FromChild i m) (Some p) =
     (if SType m \<noteq> MsgTypeCount \<or> SSubscriptionID m \<noteq> sid \<or> cResponded p ! i then (Some p, [])
      else count_settle n sid ((count_mark i p)\<lparr>maxCount := max (maxCount p) (SCount m)\<rparr>))"
| "count_view n sid (ChildLost i) (Some p) =
     (if cResponded p ! i then (Some p, []) else count_settle n sid (count_mark i p))"

fun count_view_run :: "nat \<Rightarrow> string \<Rightarrow> merge_input list \<Rightarrow> pendingCount option \<Rightarrow> pendingCount option \<times> ServerMsg list" where
  "count_view_run n sid [] p = (p, [])"
| "count_view_run n sid (inp # inps) p =
     (case count_view n sid inp p of (p', out) \<Rightarrow>
        (case count_view_run n sid inps p' of (p'', outs) \<Rightarrow> (p'', out @ outs)))"

section \<open>The session implements the views\<close>

definition session_keys :: "mergeSession \<Rightarrow> bool" where
  "session_keys s \<longleftrightarrow> distinct (map fst (pendingOKs s)) \<and> distinct (map fst (pendingEOSEs s))
     \<and> distinct (map fst (pendingCounts s))"

definition sub_state_of :: "string \<Rightarrow> mergeSession \<Rightarrow> sub_state" where
  "sub_state_of sid s = (map_of (pendingEOSEs s) sid, sid \<in> completedSubs s)"

lemmas alist_facts = update_conv' delete_conv' distinct_update distinct_delete

lemma ok_msgs_simps [simp]:
  "ok_msgs eid [] = []"
  "ok_msgs eid (m # ms) = (if SType m = MsgTypeOK \<and> SEventID m = eid then m # ok_msgs eid ms else ok_msgs eid ms)"
  "ok_msgs eid (xs @ ys) = ok_msgs eid xs @ ok_msgs eid ys"
  by (simp_all add: ok_msgs_def)

lemma sub_msgs_simps [simp]:
  "sub_msgs sid [] = []"
  "sub_msgs sid (m # ms) =
     (if (SType m = MsgTypeEvent \<or> SType m = MsgTypeEOSE) \<and> SSubscriptionID m = sid
      then m # sub_msgs sid ms else sub_msgs sid ms)"
  "sub_msgs sid (xs @ ys) = sub_msgs sid xs @ sub_msgs sid ys"
  by (simp_all add: sub_msgs_def)

lemma count_msgs_simps [simp]:
  "count_msgs sid [] = []"
  "count_msgs sid (m # ms) =
     (if SType m = MsgTypeCount \<and> SSubscriptionID m = sid then m # count_msgs sid ms else count_msgs sid ms)"
  "count_msgs sid (xs @ ys) = count_msgs sid xs @ count_msgs sid ys"
  by (simp_all add: count_msgs_def)

lemma finalizeOKMsg_fields [simp]:
  "SType (finalizeOKMsg eid p) = MsgTypeOK" "SEventID (finalizeOKMsg eid p) = eid"
  by (simp_all add: finalizeOKMsg_def)

text \<open>The three loops over the pending maps when a child is lost.\<close>

lemma close_oks_keys:
  "set (map fst (fst (close_oks n i ps))) \<subseteq> set (map fst ps)"
  "distinct (map fst ps) \<Longrightarrow> distinct (map fst (fst (close_oks n i ps)))"
proof -
  show keys: "set (map fst (fst (close_oks n i ps))) \<subseteq> set (map fst ps)" for ps
    by (induction n i ps rule: close_oks.induct) (simp_all add: Let_def split_beta subset_insertI2)
  show "distinct (map fst ps) \<Longrightarrow> distinct (map fst (fst (close_oks n i ps)))"
  proof (induction ps)
    case (Cons a ps)
    with keys[of ps] show ?case by (cases a) (auto simp: Let_def split_beta)
  qed simp
qed

lemma close_oks_view:
  "distinct (map fst ps) \<Longrightarrow>
    (map_of (fst (close_oks n i ps)) eid, ok_msgs eid (snd (close_oks n i ps)))
      = ok_view n eid (ChildLost i) (map_of ps eid)"
proof (induction ps)
  case (Cons kp ps)
  obtain k p where kp: "kp = (k, p)" by fastforce
  have "map_of ps eid = None" if "k = eid" using Cons.prems kp that by (auto simp: map_of_eq_None_iff)
  with Cons kp show ?case
    by (cases "k = eid") (simp_all add: Let_def split_beta ok_settle_def ok_mark_def)
qed simp

lemma close_oks_type: "m \<in> set (snd (close_oks n i ps)) \<Longrightarrow> SType m = MsgTypeOK"
  by (induction n i ps rule: close_oks.induct) (auto simp: Let_def split_beta split: if_splits)

lemma close_eoses_keys:
  "set (map fst (fst (close_eoses n i ps))) \<subseteq> set (map fst ps)"
  "set (snd (close_eoses n i ps)) \<subseteq> set (map fst ps)"
  "distinct (map fst ps) \<Longrightarrow> distinct (map fst (fst (close_eoses n i ps)))"
proof -
  show keys: "set (map fst (fst (close_eoses n i ps))) \<subseteq> set (map fst ps)" for ps
    by (induction n i ps rule: close_eoses.induct) (simp_all add: Let_def split_beta subset_insertI2)
  show "set (snd (close_eoses n i ps)) \<subseteq> set (map fst ps)"
    by (induction n i ps rule: close_eoses.induct) (simp_all add: Let_def split_beta subset_insertI2)
  show "distinct (map fst ps) \<Longrightarrow> distinct (map fst (fst (close_eoses n i ps)))"
  proof (induction ps)
    case (Cons a ps)
    with keys[of ps] show ?case by (cases a) (auto simp: Let_def split_beta)
  qed simp
qed

lemma close_eoses_view:
  "distinct (map fst ps) \<Longrightarrow>
    ((map_of (fst (close_eoses n i ps)) sid, c \<or> sid \<in> set (snd (close_eoses n i ps))),
      sub_msgs sid (map NewServerEOSEMsg (snd (close_eoses n i ps))))
      = lost_view n sid i (map_of ps sid, c)"
proof (induction ps)
  case (Cons kp ps)
  obtain k p where kp: "kp = (k, p)" by fastforce
  have "map_of ps sid = None" if "k = sid" using Cons.prems kp that by (auto simp: map_of_eq_None_iff)
  with Cons kp show ?case
    by (cases "k = sid") (simp_all add: Let_def split_beta lost_view_def eose_mark_def)
qed (simp add: lost_view_def)

lemma close_counts_keys:
  "set (map fst (fst (close_counts n i ps))) \<subseteq> set (map fst ps)"
  "distinct (map fst ps) \<Longrightarrow> distinct (map fst (fst (close_counts n i ps)))"
proof -
  show keys: "set (map fst (fst (close_counts n i ps))) \<subseteq> set (map fst ps)" for ps
    by (induction n i ps rule: close_counts.induct) (simp_all add: Let_def split_beta subset_insertI2)
  show "distinct (map fst ps) \<Longrightarrow> distinct (map fst (fst (close_counts n i ps)))"
  proof (induction ps)
    case (Cons a ps)
    with keys[of ps] show ?case by (cases a) (auto simp: Let_def split_beta)
  qed simp
qed

lemma close_counts_view:
  "distinct (map fst ps) \<Longrightarrow>
    (map_of (fst (close_counts n i ps)) sid, count_msgs sid (snd (close_counts n i ps)))
      = count_view n sid (ChildLost i) (map_of ps sid)"
proof (induction ps)
  case (Cons kp ps)
  obtain k p where kp: "kp = (k, p)" by fastforce
  have "map_of ps sid = None" if "k = sid" using Cons.prems kp that by (auto simp: map_of_eq_None_iff)
  with Cons kp show ?case
    by (cases "k = sid") (simp_all add: Let_def split_beta count_settle_def count_mark_def)
qed simp

lemma close_counts_type: "m \<in> set (snd (close_counts n i ps)) \<Longrightarrow> SType m = MsgTypeCount"
  by (induction n i ps rule: close_counts.induct) (auto simp: Let_def split_beta split: if_splits)

section \<open>One step of the session against the views\<close>

lemmas session_ops = startEventResponse_def startReqResponse_def startCountResponse_def
  closeSubscription_def processOK_def processEvent_def processEOSE_def processCount_def
  recordEventDrop_def

lemmas session_run_ops = session_step_def track_request_def processResponse_def handlerClosed_def

lemma session_step_keys:
  assumes "session_keys s" "session_step inp s = Some (s', out)"
  shows "session_keys s'"
  using assms
  by (cases inp)
    (auto simp: session_keys_def session_ops session_run_ops Let_def alist_facts split_beta
       close_oks_keys close_eoses_keys close_counts_keys split: if_splits option.splits)

lemma session_step_numHandlers:
  "session_step inp s = Some (s', out) \<Longrightarrow> numHandlers s' = numHandlers s"
  by (cases inp)
    (auto simp: session_ops session_run_ops Let_def split_beta split: if_splits option.splits)

lemma msgs_of_other_type [simp]:
  "ok_msgs eid (map NewServerEOSEMsg sids) = []" "count_msgs sid (map NewServerEOSEMsg sids) = []"
  "ok_msgs eid (snd (close_counts n i cs)) = []" "count_msgs sid (snd (close_oks n i os)) = []"
  "sub_msgs sid (snd (close_counts n i cs)) = []" "sub_msgs sid (snd (close_oks n i os)) = []"
  using close_counts_type[of _ n i cs] close_oks_type[of _ n i os]
  by (auto simp: ok_msgs_def count_msgs_def sub_msgs_def filter_empty_conv)

lemma session_step_ok_view:
  assumes "session_keys s" "session_step inp s = Some (s', out)"
  shows "(map_of (pendingOKs s') eid, ok_msgs eid out)
           = ok_view (numHandlers s) eid inp (map_of (pendingOKs s) eid)"
proof (cases inp)
  case (ChildLost i)
  with assms show ?thesis
    using close_oks_view[of "pendingOKs s" "numHandlers s" i eid]
    by (auto simp: session_keys_def session_run_ops Let_def split_beta)
next
  case (FromClient m)
  with assms show ?thesis
    by (auto simp: session_ops session_run_ops Let_def alist_facts is_event_req_def fresh_ok_def
       split: if_splits option.splits)
next
  case (FromChild i m)
  with assms show ?thesis
    by (cases "map_of (pendingOKs s) eid")
      (auto simp: session_ops session_run_ops Let_def alist_facts is_ok_from_def ok_settle_def ok_mark_def
       ok_verdict_def split: if_splits option.splits)
qed

lemma session_step_count_view:
  assumes "session_keys s" "session_step inp s = Some (s', out)"
  shows "(map_of (pendingCounts s') sid, count_msgs sid out)
           = count_view (numHandlers s) sid inp (map_of (pendingCounts s) sid)"
proof (cases inp)
  case (ChildLost i)
  with assms show ?thesis
    using close_counts_view[of "pendingCounts s" "numHandlers s" i sid]
    by (auto simp: session_keys_def session_run_ops Let_def split_beta)
next
  case (FromClient m)
  with assms show ?thesis
    by (auto simp: session_ops session_run_ops Let_def alist_facts fresh_count_def
       split: if_splits option.splits)
next
  case (FromChild i m)
  with assms show ?thesis
    by (cases "map_of (pendingCounts s) sid")
      (auto simp: session_ops session_run_ops Let_def alist_facts count_settle_def count_mark_def max_def
       split: if_splits option.splits)
qed

lemma processEvent_pending:
  assumes "SSubscriptionID m \<notin> completedSubs s" "map_of (pendingEOSEs s) (SSubscriptionID m) = Some p"
    "processEvent m e i s = (s', out)" "event_view sid i m e (Some p, False) = (st', out')" "SType m = MsgTypeEvent"
    "SSubscriptionID m = sid"
  shows "out' = sub_msgs sid out \<and> st' = sub_state_of sid s'"
proof -
  consider "eoseSent p" | "\<not> eoseSent p" "ID e \<in> seenEventIDs p"
    | "\<not> eoseSent p" "ID e \<notin> seenEventIDs p" "handlerEOSESent p ! i"
    | "\<not> eoseSent p" "ID e \<notin> seenEventIDs p" "\<not> handlerEOSESent p ! i" "\<not> in_order p e"
    | "\<not> eoseSent p" "ID e \<notin> seenEventIDs p" "\<not> handlerEOSESent p ! i" "in_order p e" by blast
  then show ?thesis
  proof cases
    case 4
    then show ?thesis using assms unfolding in_order_def
      by (auto simp: processEvent_def Let_def sub_state_of_def event_view_def recordEventDrop_def in_order_def
        split: if_splits)
  next
    case 5
    then have o: "(hasSentEvent p \<and> Unix (CreatedAt e) > lastCreatedAt p) = False"
      "(hasSentEvent p \<and> Unix (CreatedAt e) = lastCreatedAt p \<and> ID e < lastID p) = False"
      by (auto simp: in_order_def)
    from 5 show ?thesis using assms
      by (auto simp: processEvent_def Let_def sub_state_of_def event_view_def o record_event_def alist_facts
        simp del: de_Morgan_conj split: if_splits)
  qed (use assms in \<open>auto simp: processEvent_def Let_def sub_state_of_def event_view_def recordEventDrop_def
        alist_facts split: if_splits\<close>)
qed

lemma processEvent_elsewhere:
  assumes "SSubscriptionID m \<noteq> sid" "processEvent m e i s = (s', out)"
  shows "sub_msgs sid out = [] \<and> sub_state_of sid s' = sub_state_of sid s"
  using assms unfolding processEvent_def Let_def
  by (simp add: sub_state_of_def recordEventDrop_def split: if_splits option.splits)
    (auto simp: alist_facts)

lemma processEvent_view:
  assumes "processEvent m e i s = (s', out)" "SType m = MsgTypeEvent"
  shows "(sub_state_of sid s', sub_msgs sid out) =
     (if SSubscriptionID m \<noteq> sid then (sub_state_of sid s, []) else event_view sid i m e (sub_state_of sid s))"
proof -
  obtain st' out' where v: "event_view sid i m e (sub_state_of sid s) = (st', out')" by fastforce
  consider "SSubscriptionID m \<noteq> sid" | "SSubscriptionID m = sid" "sid \<in> completedSubs s"
    | "SSubscriptionID m = sid" "sid \<notin> completedSubs s" "map_of (pendingEOSEs s) sid = None"
    | p where "SSubscriptionID m = sid" "sid \<notin> completedSubs s" "map_of (pendingEOSEs s) sid = Some p"
    by fastforce
  then show ?thesis
  proof cases
    case 1
    then show ?thesis using processEvent_elsewhere[OF 1 assms(1)] by simp
  next
    case (4 p)
    then show ?thesis using processEvent_pending[of m s p e i s' out sid] assms v by (auto simp: sub_state_of_def)
  qed (use assms in \<open>auto simp: processEvent_def event_view_def sub_state_of_def\<close>)
qed

lemma processEOSE_view:
  assumes "processEOSE m i s = (s', out)" "SType m = MsgTypeEOSE"
  shows "(sub_state_of sid s', sub_msgs sid out) =
     (if SSubscriptionID m \<noteq> sid then (sub_state_of sid s, [])
      else eose_view (numHandlers s) sid i (sub_state_of sid s))"
  using assms
  by (auto simp: processEOSE_def Let_def alist_facts sub_state_of_def eose_view_def eose_mark_def eose_settle_def
      split: if_splits option.splits)

lemma track_request_sub_view:
  assumes "track_request m s = Some s'"
  shows "(sub_state_of sid s', []) = sub_view (numHandlers s) sid (FromClient m) (sub_state_of sid s)"
  using assms
  by (simp add: track_request_def startEventResponse_def startReqResponse_def startCountResponse_def
      closeSubscription_def Let_def sub_state_of_def fresh_eose_def req_limit_def
      split: if_splits option.splits)
    (auto simp: alist_facts)

lemma handlerClosed_sub_view:
  assumes "session_keys s" "handlerClosed i s = (s', out)"
  shows "(sub_state_of sid s', sub_msgs sid out) = lost_view (numHandlers s) sid i (sub_state_of sid s)"
  using assms close_eoses_view[of "pendingEOSEs s" "numHandlers s" i sid "sid \<in> completedSubs s"]
  by (auto simp: session_keys_def handlerClosed_def Let_def split_beta sub_state_of_def)

lemma session_step_sub_view:
  assumes "session_keys s" "session_step inp s = Some (s', out)"
  shows "(sub_state_of sid s', sub_msgs sid out) = sub_view (numHandlers s) sid inp (sub_state_of sid s)"
proof (cases inp)
  case (ChildLost i)
  with assms handlerClosed_sub_view[OF assms(1), of i s' out sid] show ?thesis by (simp add: session_step_def)
next
  case (FromClient m)
  with assms(2) have "track_request m s = Some s'" "out = []" by (auto simp: session_step_def split: option.splits)
  with track_request_sub_view[of m s s' sid] FromClient show ?thesis by simp
next
  case (FromChild i m)
  with assms(2) have r: "processResponse m i s = Some (s', out)" by (simp add: session_step_def)
  consider "SType m = MsgTypeEvent" | "SType m = MsgTypeEOSE"
    | (other) "SType m \<noteq> MsgTypeEvent" "SType m \<noteq> MsgTypeEOSE" by blast
  then show ?thesis
  proof cases
    case 1
    with r obtain e where e: "SEvent m = Some e" "processEvent m e i s = (s', out)"
      by (auto simp: processResponse_def split: option.splits)
    show ?thesis using processEvent_view[OF e(2) 1, of sid] e(1) 1 FromChild by simp
  next
    case 2
    with r have "processEOSE m i s = (s', out)" by (auto simp: processResponse_def)
    from processEOSE_view[OF this 2, of sid] 2 FromChild show ?thesis by simp
  next
    case other
    have "sub_state_of sid s' = sub_state_of sid s \<and> sub_msgs sid out = []"
    proof -
      have "SType m = MsgTypeOK \<Longrightarrow> ?thesis" using r
        by (auto simp: processResponse_def processOK_def Let_def sub_state_of_def split: option.splits if_splits)
      moreover have "SType m = MsgTypeCount \<Longrightarrow> ?thesis" using r
        by (auto simp: processResponse_def processCount_def Let_def sub_state_of_def split: option.splits if_splits)
      ultimately show ?thesis using r other by (auto simp: processResponse_def split: if_splits)
    qed
    with other FromChild show ?thesis by simp
  qed
qed

section \<open>Runs\<close>

theorem session_run_views:
  assumes "session_keys s" "session_run inps s = Some (s', out)"
  shows "session_keys s' \<and> numHandlers s' = numHandlers s
    \<and> (map_of (pendingOKs s') eid, ok_msgs eid out)
         = ok_view_run (numHandlers s) eid inps (map_of (pendingOKs s) eid)
    \<and> (sub_state_of sid s', sub_msgs sid out) = sub_view_run (numHandlers s) sid inps (sub_state_of sid s)
    \<and> (map_of (pendingCounts s') sid, count_msgs sid out)
         = count_view_run (numHandlers s) sid inps (map_of (pendingCounts s) sid)"
  using assms
proof (induction inps arbitrary: s out)
  case (Cons inp inps)
  then obtain t o1 o2 where t: "session_step inp s = Some (t, o1)" "session_run inps t = Some (s', o2)"
      "out = o1 @ o2"
    by (auto split: option.splits)
  have k: "session_keys t" "numHandlers t = numHandlers s"
    using session_step_keys session_step_numHandlers Cons.prems(1) t(1) by blast+
  from Cons.IH[OF k(1) t(2)] k(2) session_step_ok_view[OF Cons.prems(1) t(1), of eid, symmetric]
    session_step_sub_view[OF Cons.prems(1) t(1), of sid, symmetric]
    session_step_count_view[OF Cons.prems(1) t(1), of sid, symmetric] t(3)
  show ?case by (auto split: prod.splits)
qed simp

lemma session_keys_new [simp]: "session_keys (newMergeSession n)"
  by (simp add: session_keys_def newMergeSession_def)

lemma newMergeSession_views [simp]:
  "map_of (pendingOKs (newMergeSession n)) eid = None" "sub_state_of sid (newMergeSession n) = (None, False)"
  "map_of (pendingCounts (newMergeSession n)) sid = None" "numHandlers (newMergeSession n) = n"
  by (simp_all add: newMergeSession_def sub_state_of_def)

end
