(* ===== verification/Gather.thy ===== *)
theory Gather
  imports Prelude
begin

text \<open>
  Waiting for one answer from each of \<open>n\<close> participants: the discipline shared by the pending OK and
  the pending COUNT of the merge handler. \<open>gather_step\<close> is the common shape of the two (a second
  answer of a participant is ignored, the last missing answer finishes the entry); the locale
  states what an entry must provide, and its lemmas reduce a run of answers to the fold over the
  first answer of every participant.
\<close>

fun first_answers :: "nat set \<Rightarrow> (nat \<times> 'a) list \<Rightarrow> (nat \<times> 'a) list" where
  "first_answers seen [] = []"
| "first_answers seen ((i, a) # xs) =
     (if i \<in> seen then first_answers seen xs else (i, a) # first_answers (insert i seen) xs)"

lemma first_answers_keys: "fst ` set (first_answers seen xs) = fst ` set xs - seen"
  by (induction seen xs rule: first_answers.induct) auto

lemma first_answers_distinct: "distinct (map fst (first_answers seen xs))"
  by (induction seen xs rule: first_answers.induct) (auto simp: first_answers_keys)

lemma first_answers_map_of:
  "map_of (first_answers seen xs) i = (if i \<in> seen then None else map_of xs i)"
  by (induction seen xs rule: first_answers.induct) (auto simp: map_of_eq_None_iff first_answers_keys)

lemma first_answers_in:
  "(i, a) \<in> set (first_answers {} xs) \<longleftrightarrow> map_of xs i = Some a"
  using first_answers_map_of[of "{}" xs i] map_of_eq_Some_iff[OF first_answers_distinct, of "{}" xs i a] by auto

lemma first_answers_all_seen: "fst ` set xs \<subseteq> seen \<Longrightarrow> first_answers seen xs = []"
  by (induction seen xs rule: first_answers.induct) auto

fun gather_step ::
  "nat \<Rightarrow> ('p \<Rightarrow> bool list) \<Rightarrow> ('p \<Rightarrow> nat) \<Rightarrow> (nat \<Rightarrow> 'a \<Rightarrow> 'p \<Rightarrow> 'p) \<Rightarrow> nat \<times> 'a \<Rightarrow> 'p option \<Rightarrow> 'p option \<times> 'p list" where
  "gather_step n responded received absorb x None = (None, [])"
| "gather_step n responded received absorb (i, a) (Some p) =
     (if responded p ! i then (Some p, [])
      else let p' = absorb i a p in if received p' \<ge> n then (None, [p']) else (Some p', []))"

fun gather_run ::
  "nat \<Rightarrow> ('p \<Rightarrow> bool list) \<Rightarrow> ('p \<Rightarrow> nat) \<Rightarrow> (nat \<Rightarrow> 'a \<Rightarrow> 'p \<Rightarrow> 'p) \<Rightarrow> (nat \<times> 'a) list \<Rightarrow> 'p option \<Rightarrow> 'p option \<times> 'p list" where
  "gather_run n responded received absorb [] p = (p, [])"
| "gather_run n responded received absorb (x # xs) p =
     (case gather_step n responded received absorb x p of (p', out) \<Rightarrow>
        (case gather_run n responded received absorb xs p' of (p'', outs) \<Rightarrow> (p'', out @ outs)))"

text \<open>The received counter agrees with the flags of the participants.\<close>

definition tally :: "nat \<Rightarrow> bool list \<Rightarrow> nat \<Rightarrow> bool" where
  "tally n rs k \<longleftrightarrow> length rs = n \<and> k = length (filter (\<lambda>b. b) rs)"

lemma tally_fresh: "tally n (replicate n False) 0"
  by (simp add: tally_def)

lemma length_filter_update:
  "i < length rs \<Longrightarrow> \<not> rs ! i \<Longrightarrow> length (filter (\<lambda>b. b) (rs[i := True])) = Suc (length (filter (\<lambda>b. b) rs))"
proof (induction rs arbitrary: i)
  case (Cons r rs)
  then show ?case by (cases i) auto
qed simp

lemma tally_mark: "tally n rs k \<Longrightarrow> i < n \<Longrightarrow> \<not> rs ! i \<Longrightarrow> tally n (rs[i := True]) (k + 1)"
  by (simp add: tally_def length_filter_update)

lemma tally_full: "tally n rs k \<Longrightarrow> k \<ge> n \<longleftrightarrow> (\<forall>i<n. rs ! i)"
proof -
  assume t: "tally n rs k"
  have "k \<ge> n \<longleftrightarrow> False \<notin> set rs"
  proof
    assume "k \<ge> n"
    with t show "False \<notin> set rs" using length_filter_less[of False rs "\<lambda>b. b"] by (auto simp: tally_def)
  next
    assume "False \<notin> set rs"
    then have "filter (\<lambda>b. b) rs = rs" by (metis (mono_tags, lifting) filter_True)
    with t show "k \<ge> n" by (simp add: tally_def)
  qed
  with t show ?thesis by (auto simp: tally_def in_set_conv_nth)
qed

locale gather =
  fixes n :: nat and responded :: "'p \<Rightarrow> bool list" and received :: "'p \<Rightarrow> nat"
    and absorb :: "nat \<Rightarrow> 'a \<Rightarrow> 'p \<Rightarrow> 'p"
  assumes responded_absorb: "responded (absorb i a p) = (responded p)[i := True]"
    and received_absorb: "received (absorb i a p) = received p + 1"
begin

definition answered_by :: "'p \<Rightarrow> nat set" where
  "answered_by p = {i. i < n \<and> responded p ! i}"

lemma run_None: "gather_run n responded received absorb xs None = (None, [])"
  by (induction xs) auto

lemma answered_by_absorb:
  "i < n \<Longrightarrow> length (responded p) = n \<Longrightarrow> answered_by (absorb i a p) = insert i (answered_by p)"
  by (auto simp: answered_by_def responded_absorb nth_list_update)

theorem run_eq:
  assumes "tally n (responded p) (received p)" "received p < n" "\<forall>x\<in>set xs. fst x < n"
  shows "gather_run n responded received absorb xs (Some p) =
    (let q = fold (\<lambda>(i, a). absorb i a) (first_answers (answered_by p) xs) p in
     if {..<n} \<subseteq> answered_by p \<union> fst ` set xs then (None, [q]) else (Some q, []))"
  using assms
proof (induction xs arbitrary: p)
  case Nil
  then have "\<not> (\<forall>i<n. responded p ! i)" using tally_full by fastforce
  then show ?case by (auto simp: answered_by_def)
next
  case (Cons x xs)
  obtain i a where x: "x = (i, a)" by fastforce
  have i: "i < n" and len: "length (responded p) = n" using Cons.prems x by (auto simp: tally_def)
  let ?p = "absorb i a p"
  show ?case
  proof (cases "responded p ! i")
    case True
    then have "i \<in> answered_by p" using i by (simp add: answered_by_def)
    with Cons True x show ?thesis by (simp add: insert_absorb)
  next
    case new: False
    then have n: "i \<notin> answered_by p" by (simp add: answered_by_def)
    have t: "tally n (responded ?p) (received ?p)"
      using Cons.prems(1) new i using tally_mark[of n "responded p" "received p" i] by (simp add: responded_absorb received_absorb)
    note ab = answered_by_absorb[OF i len, of a]
    show ?thesis
    proof (cases "received ?p \<ge> n")
      case True
      then have "{..<n} \<subseteq> answered_by ?p" using tally_full[OF t] by (auto simp: answered_by_def)
      moreover from this have "first_answers (answered_by ?p) xs = []"
        using Cons.prems(3) by (intro first_answers_all_seen) auto
      ultimately show ?thesis using x n new True ab by (auto simp: run_None Let_def)
    next
      case False
      with Cons.IH[OF t] Cons.prems(3) x n new ab show ?thesis by (simp add: Let_def)
    qed
  qed
qed

corollary run_fresh:
  assumes "responded p = replicate n False" "received p = 0" "0 < n" "\<forall>x\<in>set xs. fst x < n"
  shows "gather_run n responded received absorb xs (Some p) =
    (let q = fold (\<lambda>(i, a). absorb i a) (first_answers {} xs) p in
     if \<forall>i<n. map_of xs i \<noteq> None then (None, [q]) else (Some q, []))"
proof -
  have "answered_by p = {}" using assms(1) by (simp add: answered_by_def)
  moreover have "{..<n} \<subseteq> fst ` set xs \<longleftrightarrow> (\<forall>i<n. map_of xs i \<noteq> None)"
    by (auto simp: map_of_eq_None_iff)
  ultimately show ?thesis using run_eq[of p xs] assms tally_fresh[of n] by (simp add: Let_def)
qed

end

end
