(* ===== verification/Merge_Answers.thy ===== *)
theory Merge_Answers
  imports Merge_Views Gather
begin

text \<open>
  One OK per EVENT and one COUNT per COUNT. The pending entries of the merge session are
  interpreted as gatherings of one answer per child; an answer is a message of the child or the
  loss of the child. The properties hold for every run of the session that starts with the request
  and does not repeat it, whatever else is interleaved.
\<close>

section \<open>Answers to an EVENT\<close>

fun ok_answer :: "string \<Rightarrow> merge_input \<Rightarrow> (nat \<times> ServerMsg option) option" where
  "ok_answer eid (FromClient m) = None"
| "ok_answer eid (FromChild i m) = (if is_ok_from eid (FromChild i m) then Some (i, Some m) else None)"
| "ok_answer eid (ChildLost i) = Some (i, None)"

definition ok_answers :: "string \<Rightarrow> merge_input list \<Rightarrow> (nat \<times> ServerMsg option) list" where
  "ok_answers eid = List.map_filter (ok_answer eid)"

text \<open>The first answer of a child: nothing yet, its loss, or its OK message.\<close>

definition ok_of_child :: "string \<Rightarrow> nat \<Rightarrow> merge_input list \<Rightarrow> ServerMsg option option" where
  "ok_of_child eid i inps = map_of (ok_answers eid inps) i"

definition ok_absorb :: "nat \<Rightarrow> ServerMsg option \<Rightarrow> pendingOK \<Rightarrow> pendingOK" where
  "ok_absorb i a p = (case a of None \<Rightarrow> (ok_mark i p)\<lparr>hadHandlerLoss := True\<rparr>
     | Some m \<Rightarrow> ok_verdict m (ok_mark i p))"

text \<open>Inputs of a session with \<open>n\<close> children.\<close>

fun input_index :: "nat \<Rightarrow> merge_input \<Rightarrow> bool" where
  "input_index n (FromClient m) = True"
| "input_index n (FromChild i m) = (i < n)"
| "input_index n (ChildLost i) = (i < n)"

interpretation ok_gather: gather n okResponded okReceived ok_absorb for n
  by unfold_locales (auto simp: ok_absorb_def ok_mark_def ok_verdict_def split: option.splits)

lemma ok_view_run_gather:
  assumes "\<forall>inp\<in>set inps. \<not> is_event_req eid inp"
  shows "ok_view_run n eid inps p =
    map_prod id (map (finalizeOKMsg eid)) (gather_run n okResponded okReceived ok_absorb (ok_answers eid inps) p)"
  using assms
proof (induction inps arbitrary: p)
  case Nil
  then show ?case by (simp add: ok_answers_def)
next
  case (Cons inp inps)
  note IH = Cons.IH
  have rest: "\<forall>inp\<in>set inps. \<not> is_event_req eid inp" using Cons.prems by simp
  show ?case
  proof (cases inp)
    case (FromClient m)
    with Cons show ?thesis by (simp add: ok_answers_def)
  next
    case (FromChild i m)
    with IH[OF rest] show ?thesis
      by (cases p) (auto simp: ok_answers_def ok_absorb_def ok_settle_def Let_def ok_gather.run_None
          split: prod.splits)
  next
    case (ChildLost i)
    with IH[OF rest] show ?thesis
      by (cases p) (auto simp: ok_answers_def ok_absorb_def ok_settle_def Let_def ok_gather.run_None
          split: prod.splits)
  qed
qed

lemma ok_answers_index:
  "\<forall>inp\<in>set inps. input_index n inp \<Longrightarrow> \<forall>x\<in>set (ok_answers eid inps). fst x < n"
proof (induction inps)
  case (Cons inp inps)
  then show ?case by (cases inp) (auto simp: ok_answers_def)
qed (simp add: ok_answers_def)

lemma ok_fold_facts:
  fixes as defines "q \<equiv> \<lambda>p. fold (\<lambda>(i, a). ok_absorb i a) as p"
  shows "hadHandlerLoss (q p) \<longleftrightarrow> hadHandlerLoss p \<or> (\<exists>i. (i, None) \<in> set as)"
    and "okAccepted (q p) \<longleftrightarrow> okAccepted p \<and> (\<forall>i m. (i, Some m) \<in> set as \<longrightarrow> SAccepted m)"
    and "okAccepted (q p) \<Longrightarrow> okMessage (q p) = okMessage p"
    and "\<not> okAccepted (q p) \<Longrightarrow> okAccepted p \<Longrightarrow>
      \<exists>i m. (i, Some m) \<in> set as \<and> \<not> SAccepted m \<and> okMessage (q p) = SMessage m"
  unfolding q_def
proof (induction as rule: rev_induct)
  case (snoc x as)
  obtain i a where x: "x = (i, a)" by fastforce
  note facts = ok_absorb_def ok_mark_def ok_verdict_def
  { case 1 with snoc.IH(1) x show ?case by (cases a) (auto simp: facts)
  next case 2 with snoc.IH(2) x show ?case by (cases a) (auto simp: facts)
  next case 3 with snoc.IH(3) x show ?case by (cases a) (auto simp: facts split: if_splits)
  next case 4 with snoc.IH(4) x show ?case by (cases a) (auto simp: facts split: if_splits)
  }
qed simp_all

text \<open>The merged answer, from the first answer of every child.\<close>

definition merged_ok :: "nat \<Rightarrow> string \<Rightarrow> merge_input list \<Rightarrow> pendingOK" where
  "merged_ok n eid inps = fold (\<lambda>(i, a). ok_absorb i a) (first_answers {} (ok_answers eid inps)) (fresh_ok n)"

lemma ok_view_request:
  assumes "0 < n" "\<forall>inp\<in>set inps. input_index n inp \<and> \<not> is_event_req eid inp"
  shows "ok_view_run n eid inps (Some (fresh_ok n)) =
    (if \<forall>i<n. ok_of_child eid i inps \<noteq> None then (None, [finalizeOKMsg eid (merged_ok n eid inps)])
     else (Some (merged_ok n eid inps), []))"
  using ok_gather.run_fresh[of "fresh_ok n" n "ok_answers eid inps"] assms ok_answers_index[of inps n eid]
  by (simp add: ok_view_run_gather ok_of_child_def merged_ok_def fresh_ok_def Let_def)

lemma event_request_run:
  assumes "session_run (FromClient (client_event e) # inps) s = Some (s', out)" "session_keys s"
    "0 < numHandlers s" "\<forall>inp\<in>set inps. input_index (numHandlers s) inp \<and> \<not> is_event_req (ID e) inp"
  shows "ok_msgs (ID e) out =
    (if \<forall>i<numHandlers s. ok_of_child (ID e) i inps \<noteq> None
     then [finalizeOKMsg (ID e) (merged_ok (numHandlers s) (ID e) inps)] else [])"
proof -
  have r: "is_event_req (ID e) (FromClient (client_event e))" by (simp add: is_event_req_def)
  from session_run_views[OF assms(2,1), of "ID e"] ok_view_request[OF assms(3,4)]
  show ?thesis by (auto simp: r split: if_splits)
qed

lemma merged_ok_facts:
  "hadHandlerLoss (merged_ok n eid inps) \<longleftrightarrow> (\<exists>i. ok_of_child eid i inps = Some None)"
  "okAccepted (merged_ok n eid inps) \<longleftrightarrow> (\<forall>i m. ok_of_child eid i inps = Some (Some m) \<longrightarrow> SAccepted m)"
  "okAccepted (merged_ok n eid inps) \<Longrightarrow> okMessage (merged_ok n eid inps) = ''''"
  "\<not> okAccepted (merged_ok n eid inps) \<Longrightarrow>
     \<exists>i m. ok_of_child eid i inps = Some (Some m) \<and> \<not> SAccepted m \<and> okMessage (merged_ok n eid inps) = SMessage m"
  using ok_fold_facts[of "first_answers {} (ok_answers eid inps)" "fresh_ok n"]
  by (simp_all add: merged_ok_def ok_of_child_def first_answers_in fresh_ok_def)

lemma ok_of_child_index:
  "\<forall>inp\<in>set inps. input_index n inp \<Longrightarrow> ok_of_child eid i inps = Some a \<Longrightarrow> i < n"
  using ok_answers_index[of inps n eid] by (fastforce simp: ok_of_child_def dest: map_of_SomeD)

section \<open>Answers to a COUNT\<close>

fun count_answer :: "string \<Rightarrow> merge_input \<Rightarrow> (nat \<times> 64 word option) option" where
  "count_answer sid (FromClient m) = None"
| "count_answer sid (FromChild i m) =
     (if SType m = MsgTypeCount \<and> SSubscriptionID m = sid then Some (i, Some (SCount m)) else None)"
| "count_answer sid (ChildLost i) = Some (i, None)"

definition count_answers :: "string \<Rightarrow> merge_input list \<Rightarrow> (nat \<times> 64 word option) list" where
  "count_answers sid = List.map_filter (count_answer sid)"

definition count_of_child :: "string \<Rightarrow> nat \<Rightarrow> merge_input list \<Rightarrow> 64 word option option" where
  "count_of_child sid i inps = map_of (count_answers sid inps) i"

definition is_count_req :: "string \<Rightarrow> merge_input \<Rightarrow> bool" where
  "is_count_req sid inp = (case inp of
     FromClient m \<Rightarrow> CSubscriptionID m = sid \<and> (CType m = MsgTypeCount \<or> CType m = MsgTypeClose) | _ \<Rightarrow> False)"

definition count_absorb :: "nat \<Rightarrow> 64 word option \<Rightarrow> pendingCount \<Rightarrow> pendingCount" where
  "count_absorb i a p = (case a of None \<Rightarrow> count_mark i p
     | Some c \<Rightarrow> (count_mark i p)\<lparr>maxCount := max (maxCount p) c\<rparr>)"

interpretation count_gather: gather n cResponded cReceived count_absorb for n
  by unfold_locales (auto simp: count_absorb_def count_mark_def split: option.splits)

lemma count_view_run_gather:
  assumes "\<forall>inp\<in>set inps. \<not> is_count_req sid inp"
  shows "count_view_run n sid inps p =
    map_prod id (map (\<lambda>q. NewServerCountMsg sid (maxCount q) None))
      (gather_run n cResponded cReceived count_absorb (count_answers sid inps) p)"
  using assms
proof (induction inps arbitrary: p)
  case Nil
  then show ?case by (simp add: count_answers_def)
next
  case (Cons inp inps)
  note IH = Cons.IH
  have rest: "\<forall>inp\<in>set inps. \<not> is_count_req sid inp" using Cons.prems by simp
  show ?case
  proof (cases inp)
    case (FromClient m)
    with Cons.prems IH[OF rest] show ?thesis by (auto simp: count_answers_def is_count_req_def split: prod.splits)
  next
    case (FromChild i m)
    with IH[OF rest] show ?thesis
      by (cases p) (auto simp: count_answers_def count_absorb_def count_settle_def Let_def
          count_gather.run_None split: prod.splits)
  next
    case (ChildLost i)
    with IH[OF rest] show ?thesis
      by (cases p) (auto simp: count_answers_def count_absorb_def count_settle_def Let_def
          count_gather.run_None split: prod.splits)
  qed
qed

lemma count_answers_index:
  "\<forall>inp\<in>set inps. input_index n inp \<Longrightarrow> \<forall>x\<in>set (count_answers sid inps). fst x < n"
proof (induction inps)
  case (Cons inp inps)
  then show ?case by (cases inp) (auto simp: count_answers_def)
qed (simp add: count_answers_def)

lemma count_fold_max:
  "maxCount (fold (\<lambda>(i, a). count_absorb i a) as p) = Max (insert (maxCount p) {c. \<exists>i. (i, Some c) \<in> set as})"
proof (induction as rule: rev_induct)
  case (snoc x as)
  obtain i a where x: "x = (i, a)" by fastforce
  have fin: "finite {c. \<exists>i. (i, Some c) \<in> set as}"
    by (rule finite_subset[of _ "(\<lambda>x. the (snd x)) ` set as"]) force+
  show ?case
  proof (cases a)
    case None
    with snoc x show ?thesis by (simp add: count_absorb_def count_mark_def)
  next
    case (Some c)
    have "{d. \<exists>j. (j, Some d) \<in> set (as @ [x])} = insert c {c. \<exists>i. (i, Some c) \<in> set as}" using x Some by auto
    with snoc x Some fin show ?thesis
      by (simp add: count_absorb_def insert_commute[of _ c] max.commute)
  qed
qed simp

lemma count_request_run:
  assumes "session_run (FromClient (client_count sid fs) # inps) s = Some (s', out)" "session_keys s"
    "0 < numHandlers s" "\<forall>inp\<in>set inps. input_index (numHandlers s) inp \<and> \<not> is_count_req sid inp"
  shows "count_msgs sid out =
    (if \<forall>i<numHandlers s. count_of_child sid i inps \<noteq> None
     then [NewServerCountMsg sid (Max (insert 0 {c. \<exists>i. count_of_child sid i inps = Some (Some c)})) None] else [])"
  using session_run_views[OF assms(2,1), of _ sid]
    count_gather.run_fresh[of "fresh_count (numHandlers s)" "numHandlers s" "count_answers sid inps"]
    assms(3,4) count_answers_index[of inps "numHandlers s" sid]
  by (auto simp: count_view_run_gather fresh_count_def count_of_child_def count_fold_max first_answers_in Let_def
      split: if_splits)

section \<open>Properties\<close>

lemma replicate_2: "replicate 2 x = [x, x]"
  by (simp add: numeral_2_eq_2)

text \<open>C6. An EVENT forwarded to the children gets exactly one OK once every child has answered or
  has been lost, and none before, however the answers, further requests and messages for other
  identifiers are interleaved.\<close>

theorem merge_one_ok_per_event:
  assumes "session_run (FromClient (client_event e) # inps) s = Some (s', out)" "session_keys s"
    "0 < numHandlers s" "\<forall>inp\<in>set inps. input_index (numHandlers s) inp \<and> \<not> is_event_req (ID e) inp"
  shows "length (ok_msgs (ID e) out) = (if \<forall>i<numHandlers s. ok_of_child (ID e) i inps \<noteq> None then 1 else 0)"
  by (simp add: event_request_run[OF assms])

lemma merge_one_ok_per_event_witness:
  "\<exists>s' out. session_run (FromClient (client_event (mk_event ''a'' ''p'' 1 1 []))
      # [FromChild 1 (NewServerOKMsg ''a'' True ''''), FromChild 1 (NewServerOKMsg ''a'' True ''''), ChildLost 0])
      (newMergeSession 2) = Some (s', out) \<and> length (ok_msgs ''a'' out) = 1"
proof -
  let ?e = "mk_event ''a'' ''p'' 1 1 []"
  let ?inps = "[FromChild 1 (NewServerOKMsg ''a'' True ''''), FromChild 1 (NewServerOKMsg ''a'' True ''''), ChildLost 0]"
  obtain s' out where r: "session_run (FromClient (client_event ?e) # ?inps) (newMergeSession 2) = Some (s', out)"
    by (simp add: session_run_ops session_ops newMergeSession_def replicate_2 Let_def)
  have "length (ok_msgs (ID ?e) out) = 1"
    by (subst merge_one_ok_per_event[OF r])
      (auto simp: is_event_req_def ok_of_child_def ok_answers_def is_ok_from_def mk_event_def less_2_cases_iff)
  with r show ?thesis by (auto simp: mk_event_def)
qed

text \<open>C7. The merged OK accepts the event exactly when every child accepted it and none was lost;
  if a child was lost it says so and asks for a retry, and otherwise a rejection carries the reason
  given by a rejecting child.\<close>

theorem merge_ok_verdict:
  assumes "session_run (FromClient (client_event e) # inps) s = Some (s', out)" "session_keys s"
    "0 < numHandlers s" "\<forall>inp\<in>set inps. input_index (numHandlers s) inp \<and> \<not> is_event_req (ID e) inp"
    "m \<in> set (ok_msgs (ID e) out)"
  shows "(SAccepted m \<longleftrightarrow> (\<forall>i<numHandlers s. \<exists>a. ok_of_child (ID e) i inps = Some (Some a) \<and> SAccepted a))
    \<and> (if \<exists>i<numHandlers s. ok_of_child (ID e) i inps = Some None
       then SMessage m = MergeHandlerOKLostHandlerMessage
       else SAccepted m \<and> SMessage m = '''' \<or>
         (\<exists>i<numHandlers s. \<exists>a. ok_of_child (ID e) i inps = Some (Some a) \<and> \<not> SAccepted a \<and> SMessage m = SMessage a))"
proof -
  let ?n = "numHandlers s" and ?a = "\<lambda>i. ok_of_child (ID e) i inps"
  let ?p = "merged_ok ?n (ID e) inps"
  have all: "\<forall>i<?n. ?a i \<noteq> None" and m: "m = finalizeOKMsg (ID e) ?p"
    using assms(5) event_request_run[OF assms(1-4)] by (auto split: if_splits)
  have idx: "i < ?n" if "?a i = Some x" for i x using ok_of_child_index that assms(4) by blast
  show ?thesis
  proof (cases "hadHandlerLoss ?p")
    case True
    then obtain i where "?a i = Some None" by (auto simp: merged_ok_facts)
    with idx m True show ?thesis by (auto simp: finalizeOKMsg_def intro!: exI[of _ i])
  next
    case False
    then have none: "\<forall>i. ?a i \<noteq> Some None" by (simp add: merged_ok_facts)
    have acc: "SAccepted m \<longleftrightarrow> okAccepted ?p" and msg: "SMessage m = okMessage ?p"
      using m False by (simp_all add: finalizeOKMsg_def)
    have "okAccepted ?p \<longleftrightarrow> (\<forall>i<?n. \<exists>x. ?a i = Some (Some x) \<and> SAccepted x)"
      unfolding merged_ok_facts using all none idx by (metis option.exhaust option.inject)
    moreover have "okMessage ?p = ''''" if "okAccepted ?p" using that by (rule merged_ok_facts)
    moreover have "\<exists>i<?n. \<exists>x. ?a i = Some (Some x) \<and> \<not> SAccepted x \<and> okMessage ?p = SMessage x" if "\<not> okAccepted ?p"
      using merged_ok_facts(4)[OF that] idx by blast
    ultimately show ?thesis using none acc msg by auto
  qed
qed

lemma merge_ok_verdict_witness:
  "\<exists>s' out m. session_run (FromClient (client_event (mk_event ''a'' ''p'' 1 1 []))
      # [FromChild 1 (NewServerOKMsg ''a'' False ''blocked''), FromChild 0 (NewServerOKMsg ''a'' True '''')])
      (newMergeSession 2) = Some (s', out) \<and> ok_msgs ''a'' out = [m] \<and> \<not> SAccepted m \<and> SMessage m = ''blocked''"
proof -
  let ?e = "mk_event ''a'' ''p'' 1 1 []"
  let ?inps = "[FromChild 1 (NewServerOKMsg ''a'' False ''blocked''), FromChild 0 (NewServerOKMsg ''a'' True '''')]"
  obtain s' out where r: "session_run (FromClient (client_event ?e) # ?inps) (newMergeSession 2) = Some (s', out)"
    and out: "out = [NewServerOKMsg ''a'' False ''blocked'']"
    by (simp add: session_run_ops session_ops newMergeSession_def replicate_2 Let_def finalizeOKMsg_def mk_event_def)
  let ?m = "NewServerOKMsg ''a'' False ''blocked''"
  have "?m \<in> set (ok_msgs (ID ?e) out)" by (simp add: out mk_event_def)
  from merge_ok_verdict[OF r _ _ _ this] have "\<not> SAccepted ?m \<and> SMessage ?m = ''blocked''"
    by (auto simp: is_event_req_def mk_event_def ok_of_child_def ok_answers_def is_ok_from_def less_2_cases_iff)
  with r show ?thesis by (auto simp: out)
qed

text \<open>A COUNT is answered once every child has answered or has been lost, and not before; the
  answer is one COUNT message with the largest of the first counts the children gave, zero if all
  were lost.\<close>

theorem merge_count_is_max:
  assumes "session_run (FromClient (client_count sid fs) # inps) s = Some (s', out)" "session_keys s"
    "0 < numHandlers s" "\<forall>inp\<in>set inps. input_index (numHandlers s) inp \<and> \<not> is_count_req sid inp"
  shows "count_msgs sid out =
    (if \<forall>i<numHandlers s. count_of_child sid i inps \<noteq> None
     then [NewServerCountMsg sid (Max (insert 0 {c. \<exists>i. count_of_child sid i inps = Some (Some c)})) None] else [])"
  by (rule count_request_run[OF assms])

lemma merge_count_is_max_witness:
  "\<exists>s' out. session_run (FromClient (client_count ''s'' [])
      # [FromChild 1 (NewServerCountMsg ''s'' 3 None), FromChild 0 (NewServerCountMsg ''s'' 7 None)])
      (newMergeSession 2) = Some (s', out) \<and> count_msgs ''s'' out = [NewServerCountMsg ''s'' 7 None]"
proof -
  let ?inps = "[FromChild 1 (NewServerCountMsg ''s'' 3 None), FromChild 0 (NewServerCountMsg ''s'' 7 None)]"
  obtain s' out where r: "session_run (FromClient (client_count ''s'' []) # ?inps) (newMergeSession 2) = Some (s', out)"
    by (simp add: session_run_ops session_ops newMergeSession_def replicate_2 Let_def)
  have s: "{c. \<exists>i. count_of_child ''s'' i ?inps = Some (Some c)} = {3, 7}"
    by (auto simp: count_of_child_def count_answers_def split: if_splits)
  have m: "Max (insert 0 {c. \<exists>i. count_of_child ''s'' i ?inps = Some (Some c)}) = 7" unfolding s by simp
  have "count_msgs ''s'' out = [NewServerCountMsg ''s'' 7 None]"
    by (subst merge_count_is_max[OF r], unfold m)
      (auto simp: is_count_req_def count_of_child_def count_answers_def less_2_cases_iff)
  with r show ?thesis by blast
qed

end
