(* ===== verification/Merge_Subscriptions.thy ===== *)
theory Merge_Subscriptions
  imports Merge_Answers
begin

text \<open>
  Stored events and the EOSE of a merged subscription. The invariants describe the entry of one
  subscription after a prefix of the inputs and the messages sent so far; the properties read off
  them what a client sees between its REQ and the EOSE.
\<close>

section \<open>Runs of the subscription view\<close>

lemma sub_view_run_append:
  "sub_view_run n sid (xs @ ys) st =
    (case sub_view_run n sid xs st of (st', o1) \<Rightarrow>
      (case sub_view_run n sid ys st' of (st'', o2) \<Rightarrow> (st'', o1 @ o2)))"
  by (induction xs arbitrary: st) (simp_all split: prod.splits)

lemma sub_view_run_snoc:
  "sub_view_run n sid (xs @ [x]) st =
    (case sub_view_run n sid xs st of (st', o1) \<Rightarrow> (case sub_view n sid x st' of (st'', o2) \<Rightarrow> (st'', o1 @ o2)))"
  by (simp add: sub_view_run_append split: prod.splits)

text \<open>The requests that start or end the subscription, and the end of a child's stored events.\<close>

definition is_sub_req :: "string \<Rightarrow> merge_input \<Rightarrow> bool" where
  "is_sub_req sid inp = (case inp of
     FromClient m \<Rightarrow> CSubscriptionID m = sid \<and> (CType m = MsgTypeReq \<or> CType m = MsgTypeClose) | _ \<Rightarrow> False)"

definition ends_child :: "string \<Rightarrow> nat \<Rightarrow> merge_input \<Rightarrow> bool" where
  "ends_child sid i inp = (case inp of
     FromClient m \<Rightarrow> False
   | FromChild j m \<Rightarrow> j = i \<and> SType m = MsgTypeEOSE \<and> SSubscriptionID m = sid
   | ChildLost j \<Rightarrow> j = i)"

definition ended :: "string \<Rightarrow> nat \<Rightarrow> merge_input list \<Rightarrow> bool" where
  "ended sid i inps = (\<exists>inp\<in>set inps. ends_child sid i inp)"

lemma ended_simps [simp]: "\<not> ended sid i []" "ended sid i (xs @ [x]) \<longleftrightarrow> ended sid i xs \<or> ends_child sid i x"
  by (auto simp: ended_def)

definition is_eose :: "ServerMsg \<Rightarrow> bool" where
  "is_eose m = (SType m = MsgTypeEOSE)"

definition msg_event :: "ServerMsg \<Rightarrow> Event" where
  "msg_event m = (case SEvent m of Some e \<Rightarrow> e | None \<Rightarrow> mk_event '''' '''' 0 0 [])"

lemma is_eose_simps [simp]: "is_eose (NewServerEOSEMsg sid)" "SType m = MsgTypeEvent \<Longrightarrow> \<not> is_eose m"
  by (simp_all add: is_eose_def)

section \<open>The invariant of a subscription\<close>

definition stored_inv :: "nat \<Rightarrow> string \<Rightarrow> int \<Rightarrow> merge_input list \<Rightarrow> pendingEOSE \<Rightarrow> ServerMsg list \<Rightarrow> bool" where
  "stored_inv n sid lmt inps p out \<longleftrightarrow>
     tally n (handlerEOSESent p) (eReceived p) \<and> eReceived p < n \<and> \<not> eoseSent p \<and> eLimit p = lmt
     \<and> (\<forall>i<n. handlerEOSESent p ! i \<longleftrightarrow> ended sid i inps)
     \<and> (\<forall>m\<in>set out. \<not> is_eose m)
     \<and> distinct (map (ID \<circ> msg_event) out) \<and> seenEventIDs p = set (map (ID \<circ> msg_event) out)
     \<and> eventCount p \<le> int (length out)"

definition done_inv :: "nat \<Rightarrow> string \<Rightarrow> int \<Rightarrow> merge_input list \<Rightarrow> ServerMsg list \<Rightarrow> bool" where
  "done_inv n sid lmt inps out \<longleftrightarrow>
     (\<exists>pre post. out = pre @ NewServerEOSEMsg sid # post \<and> (\<forall>m\<in>set pre. \<not> is_eose m) \<and> (\<forall>m\<in>set post. \<not> is_eose m)
        \<and> distinct (map (ID \<circ> msg_event) pre)
        \<and> ((\<forall>i<n. ended sid i inps) \<or> 0 < lmt \<and> lmt \<le> int (length pre)))"

definition sub_inv :: "nat \<Rightarrow> string \<Rightarrow> int \<Rightarrow> merge_input list \<Rightarrow> sub_state \<Rightarrow> ServerMsg list \<Rightarrow> bool" where
  "sub_inv n sid lmt inps st out =
     (case st of (Some p, False) \<Rightarrow> stored_inv n sid lmt inps p out
      | (None, True) \<Rightarrow> done_inv n sid lmt inps out
      | _ \<Rightarrow> False)"

lemma sub_inv_simps [simp]:
  "sub_inv n sid lmt inps (Some p, False) out = stored_inv n sid lmt inps p out"
  "sub_inv n sid lmt inps (None, True) out = done_inv n sid lmt inps out"
  by (simp_all add: sub_inv_def)

lemma sub_inv_cases:
  assumes "sub_inv n sid lmt inps st out"
  obtains (fin) "st = (None, True)" "done_inv n sid lmt inps out"
    | (pend) p where "st = (Some p, False)" "stored_inv n sid lmt inps p out"
  using assms by (cases st; cases "fst st"; cases "snd st") (auto simp: sub_inv_def)

lemma sub_inv_fresh: "0 < n \<Longrightarrow> sub_inv n sid (req_limit fs) [] (Some (fresh_eose n fs), False) []"
  by (simp add: stored_inv_def fresh_eose_def tally_fresh)

lemma done_inv_snoc:
  assumes "done_inv n sid lmt inps out" "\<forall>m\<in>set new. \<not> is_eose m"
  shows "done_inv n sid lmt (inps @ [inp]) (out @ new)"
proof -
  obtain pre post where p: "out = pre @ NewServerEOSEMsg sid # post" "\<forall>m\<in>set pre. \<not> is_eose m"
    "\<forall>m\<in>set post. \<not> is_eose m" "distinct (map (ID \<circ> msg_event) pre)"
    "(\<forall>i<n. ended sid i inps) \<or> 0 < lmt \<and> lmt \<le> int (length pre)"
    using assms(1) unfolding done_inv_def by blast
  show ?thesis unfolding done_inv_def
    by (rule exI[of _ pre], rule exI[of _ "post @ new"]) (use p assms(2) in auto)
qed

lemma done_invI:
  assumes "\<forall>m\<in>set pre. \<not> is_eose m" "distinct (map (ID \<circ> msg_event) pre)"
    "(\<forall>i<n. ended sid i inps) \<or> 0 < lmt \<and> lmt \<le> int (length pre)"
  shows "done_inv n sid lmt inps (pre @ [NewServerEOSEMsg sid])"
  unfolding done_inv_def by (rule exI[of _ pre], rule exI[of _ "[]"]) (use assms in auto)

lemma stored_inv_ended_cong:
  "stored_inv n sid lmt inps p out \<Longrightarrow> \<forall>j<n. ended sid j inps' = ended sid j inps \<Longrightarrow>
    stored_inv n sid lmt inps' p out"
  by (simp add: stored_inv_def)

lemma sub_inv_idle:
  assumes "sub_inv n sid lmt inps st out" "\<forall>j. \<not> ends_child sid j inp"
  shows "sub_inv n sid lmt (inps @ [inp]) st out"
  using assms(1)
proof (cases rule: sub_inv_cases)
  case fin
  with done_inv_snoc[OF fin(2), of "[]" inp] show ?thesis by simp
next
  case (pend p)
  with stored_inv_ended_cong[OF pend(2), of "inps @ [inp]"] assms(2) show ?thesis by simp
qed

text \<open>A child reaches the end of its stored events, by its EOSE or by its loss.\<close>

lemma eose_mark_fields:
  "eoseSent (eose_mark i p) = eoseSent p" "eLimit (eose_mark i p) = eLimit p"
  "seenEventIDs (eose_mark i p) = seenEventIDs p" "eventCount (eose_mark i p) = eventCount p"
  by (simp_all add: eose_mark_def)

lemma stored_inv_end:
  assumes "stored_inv n sid lmt inps p out" "i < n" "\<not> handlerEOSESent p ! i"
    "ends_child sid i inp" "\<forall>j. ends_child sid j inp \<longrightarrow> j = i"
  shows "if eReceived (eose_mark i p) \<ge> n then done_inv n sid lmt (inps @ [inp]) (out @ [NewServerEOSEMsg sid])
    else stored_inv n sid lmt (inps @ [inp]) (eose_mark i p) out"
proof -
  have len: "length (handlerEOSESent p) = n" using assms(1) by (simp add: stored_inv_def tally_def)
  have tp: "tally n (handlerEOSESent p) (eReceived p)" using assms(1) by (simp add: stored_inv_def)
  have t: "tally n (handlerEOSESent (eose_mark i p)) (eReceived (eose_mark i p))"
    using tally_mark[OF tp assms(2,3)] by (simp add: eose_mark_def)
  have flags: "\<forall>j<n. handlerEOSESent p ! j \<longleftrightarrow> ended sid j inps" using assms(1) by (simp add: stored_inv_def)
  have e: "handlerEOSESent (eose_mark i p) ! j \<longleftrightarrow> ended sid j (inps @ [inp])" if "j < n" for j
  proof (cases "j = i")
    case True
    with assms(2,4) len show ?thesis by (simp add: eose_mark_def)
  next
    case False
    with assms(5) have "\<not> ends_child sid j inp" by blast
    with False flags that show ?thesis by (simp add: eose_mark_def)
  qed
  show ?thesis
  proof (cases "eReceived (eose_mark i p) \<ge> n")
    case True
    with tally_full[OF t] e have "\<forall>j<n. ended sid j (inps @ [inp])" by blast
    moreover have "\<forall>m\<in>set out. \<not> is_eose m" "distinct (map (ID \<circ> msg_event) out)"
      using assms(1) by (simp_all add: stored_inv_def)
    ultimately show ?thesis using True done_invI[of out n sid "inps @ [inp]" lmt] by simp
  next
    case False
    have "stored_inv n sid lmt (inps @ [inp]) (eose_mark i p) out"
    proof -
      have "\<not> eoseSent p \<and> eLimit p = lmt \<and> (\<forall>m\<in>set out. \<not> is_eose m) \<and> distinct (map (ID \<circ> msg_event) out)
        \<and> seenEventIDs p = set (map (ID \<circ> msg_event) out) \<and> eventCount p \<le> int (length out)"
        using assms(1) unfolding stored_inv_def by blast
      moreover have "eReceived (eose_mark i p) < n" using False by simp
      ultimately show ?thesis unfolding stored_inv_def eose_mark_fields using t e by blast
    qed
    with False show ?thesis by simp
  qed
qed

lemma stored_inv_forward:
  assumes "stored_inv n sid lmt inps p out" "SType m = MsgTypeEvent" "msg_event m = e" "ID e \<notin> seenEventIDs p"
  shows "\<forall>m\<in>set (out @ [m]). \<not> is_eose m" "distinct (map (ID \<circ> msg_event) (out @ [m]))"
    "stored_inv n sid lmt inps (p\<lparr>seenEventIDs := insert (ID e) (seenEventIDs p)\<rparr>) (out @ [m])"
    "stored_inv n sid lmt inps (record_event e p) (out @ [m])"
  using assms by (auto simp: stored_inv_def record_event_def)

lemma event_view_pending:
  assumes "\<not> eoseSent p" "event_view sid i m e (Some p, False) = (st', new)"
  shows "ID e \<in> seenEventIDs p \<and> st' = (Some p, False) \<and> new = []
    \<or> \<not> handlerEOSESent p ! i \<and> \<not> in_order p e \<and> st' = (Some p, False) \<and> new = []
    \<or> ID e \<notin> seenEventIDs p \<and> handlerEOSESent p ! i \<and> new = [m]
        \<and> st' = (Some (p\<lparr>seenEventIDs := insert (ID e) (seenEventIDs p)\<rparr>), False)
    \<or> ID e \<notin> seenEventIDs p \<and> \<not> handlerEOSESent p ! i \<and> in_order p e \<and> eLimit p > 0 \<and> eventCount p + 1 \<ge> eLimit p
        \<and> st' = (None, True) \<and> new = [m, NewServerEOSEMsg sid]
    \<or> ID e \<notin> seenEventIDs p \<and> \<not> handlerEOSESent p ! i \<and> in_order p e \<and> \<not> (eLimit p > 0 \<and> eventCount p + 1 \<ge> eLimit p)
        \<and> st' = (Some (record_event e p), False) \<and> new = [m]"
  using assms by (simp add: event_view_def split: if_splits)

lemma sub_inv_event:
  assumes "sub_inv n sid lmt inps st out" "SType m = MsgTypeEvent" "SEvent m = Some e"
    "event_view sid i m e st = (st', new)"
  shows "sub_inv n sid lmt inps st' (out @ new)"
  using assms(1)
proof (cases rule: sub_inv_cases)
  case fin
  then obtain pre post where p: "out = pre @ NewServerEOSEMsg sid # post" "\<forall>m\<in>set pre. \<not> is_eose m"
    "\<forall>m\<in>set post. \<not> is_eose m" "distinct (map (ID \<circ> msg_event) pre)"
    "(\<forall>i<n. ended sid i inps) \<or> 0 < lmt \<and> lmt \<le> int (length pre)"
    unfolding done_inv_def by blast
  have "done_inv n sid lmt inps (out @ [m])" unfolding done_inv_def
    by (rule exI[of _ pre], rule exI[of _ "post @ [m]"]) (use p assms(2) in auto)
  with fin(1) assms(4) show ?thesis by (auto simp: event_view_def)
next
  case (pend p)
  have ev: "msg_event m = e" using assms(3) by (simp add: msg_event_def)
  have no: "\<not> eoseSent p" and lm: "eLimit p = lmt" and cnt: "eventCount p \<le> int (length out)"
    using pend(2) by (simp_all add: stored_inv_def)
  from event_view_pending[OF no assms(4)[unfolded pend(1)]] show ?thesis
  proof (elim disjE conjE)
    assume "ID e \<notin> seenEventIDs p" "eLimit p > 0" "eventCount p + 1 \<ge> eLimit p" "st' = (None, True)"
      and new: "new = [m, NewServerEOSEMsg sid]"
    then show ?thesis
      using stored_inv_forward(1,2)[OF pend(2) assms(2) ev] lm cnt
        done_invI[of "out @ [m]" n sid inps lmt] by simp
  qed (use stored_inv_forward(3,4)[OF pend(2) assms(2) ev] pend(2) in simp_all)
qed

lemma sub_inv_ended:
  assumes "sub_inv n sid lmt inps st out" "i < n" "ends_child sid i inp" "\<forall>j. ends_child sid j inp \<longrightarrow> j = i"
    "eose_view n sid i st = (st', new) \<or> lost_view n sid i st = (st', new)"
  shows "sub_inv n sid lmt (inps @ [inp]) st' (out @ new)"
  using assms(1)
proof (cases rule: sub_inv_cases)
  case fin
  with assms(5) done_inv_snoc[OF fin(2), of "[]" inp] show ?thesis
    by (auto simp: eose_view_def lost_view_def)
next
  case (pend p)
  have no: "\<not> eoseSent p" and flags: "\<forall>j<n. handlerEOSESent p ! j \<longleftrightarrow> ended sid j inps"
    using pend(2) by (simp_all add: stored_inv_def)
  show ?thesis
  proof (cases "handlerEOSESent p ! i")
    case True
    have "\<forall>j<n. ended sid j (inps @ [inp]) = ended sid j inps"
    proof (intro allI impI)
      fix j assume "j < n"
      show "ended sid j (inps @ [inp]) = ended sid j inps"
      proof (cases "j = i")
        case True
        have "ended sid i inps" using flags assms(2) \<open>handlerEOSESent p ! i\<close> by blast
        with True show ?thesis by simp
      next
        case False
        with assms(4) have "\<not> ends_child sid j inp" by blast
        then show ?thesis by simp
      qed
    qed
    from stored_inv_ended_cong[OF pend(2) this] have "sub_inv n sid lmt (inps @ [inp]) st out" using pend(1) by simp
    moreover have "st' = st \<and> new = []" using assms(5) True no pend(1) by (auto simp: eose_view_def lost_view_def)
    ultimately show ?thesis by simp
  next
    case False
    then have "(st', new) = (if eReceived (eose_mark i p) \<ge> n then ((None, True), [NewServerEOSEMsg sid])
      else ((Some (eose_mark i p), False), []))"
      using assms(5) no pend(1) by (auto simp: eose_view_def lost_view_def eose_settle_def)
    with stored_inv_end[OF pend(2) assms(2) False assms(3,4)] show ?thesis by (auto split: if_splits)
  qed
qed

lemma sub_inv_run:
  assumes "0 < n" "\<forall>inp\<in>set inps. input_index n inp \<and> \<not> is_sub_req sid inp"
    "sub_view_run n sid inps (Some (fresh_eose n fs), False) = (st, out)"
  shows "sub_inv n sid (req_limit fs) inps st out"
  using assms(2,3)
proof (induction inps arbitrary: st out rule: rev_induct)
  case Nil
  with assms(1) sub_inv_fresh show ?case by auto
next
  case (snoc inp inps)
  obtain st1 o1 new where r: "sub_view_run n sid inps (Some (fresh_eose n fs), False) = (st1, o1)"
    "sub_view n sid inp st1 = (st, new)" "out = o1 @ new"
    using snoc.prems(2) by (auto simp: sub_view_run_snoc split: prod.splits)
  have IH: "sub_inv n sid (req_limit fs) inps st1 o1" using snoc.IH[OF _ r(1)] snoc.prems(1) by simp
  note idle = sub_inv_idle[OF IH, of inp]
  show ?case
  proof (cases inp)
    case (FromClient m)
    then have "\<not> is_sub_req sid (FromClient m)" "\<forall>j. \<not> ends_child sid j inp"
      using snoc.prems(1) by (auto simp: ends_child_def)
    with r(2,3) idle FromClient show ?thesis by (simp add: is_sub_req_def split: if_splits)
  next
    case (ChildLost i)
    then have "i < n" using snoc.prems(1) by simp
    moreover have "ends_child sid i inp" "\<forall>j. ends_child sid j inp \<longrightarrow> j = i"
      using ChildLost by (simp_all add: ends_child_def)
    moreover have "lost_view n sid i st1 = (st, new)" using ChildLost r(2) by simp
    ultimately show ?thesis using sub_inv_ended[OF IH] r(3) by blast
  next
    case (FromChild i m)
    then have i: "i < n" using snoc.prems(1) by simp
    consider (eose) "SSubscriptionID m = sid" "SType m = MsgTypeEOSE"
      | (event) e where "SSubscriptionID m = sid" "SType m = MsgTypeEvent" "SEvent m = Some e"
      | (other) "\<not> (SSubscriptionID m = sid \<and> SType m = MsgTypeEOSE)"
        "\<not> (SSubscriptionID m = sid \<and> SType m = MsgTypeEvent \<and> SEvent m \<noteq> None)" by blast
    then show ?thesis
    proof cases
      case eose
      then have "ends_child sid i inp" "\<forall>j. ends_child sid j inp \<longrightarrow> j = i"
        using FromChild by (simp_all add: ends_child_def)
      moreover have "eose_view n sid i st1 = (st, new)" using FromChild r(2) eose by simp
      ultimately show ?thesis using sub_inv_ended[OF IH i] r(3) by blast
    next
      case event
      then have "sub_inv n sid (req_limit fs) inps st out"
        using sub_inv_event[OF IH event(2,3), of i st new] r FromChild by simp
      from sub_inv_idle[OF this] event FromChild show ?thesis by (simp add: ends_child_def)
    next
      case other
      have "\<forall>j. \<not> ends_child sid j inp" using other(1) FromChild by (auto simp: ends_child_def)
      moreover have "st = st1 \<and> new = []" using r(2) other FromChild
        by (simp split: if_splits option.splits)
      ultimately show ?thesis using r(3) idle by simp
    qed
  qed
qed

lemma req_session_run:
  assumes "session_run (FromClient (client_req sid fs) # inps) s = Some (s', out)" "session_keys s"
    "0 < numHandlers s" "\<forall>inp\<in>set inps. input_index (numHandlers s) inp \<and> \<not> is_sub_req sid inp"
  shows "sub_inv (numHandlers s) sid (req_limit fs) inps (sub_state_of sid s') (sub_msgs sid out)"
    "sub_view_run (numHandlers s) sid inps (Some (fresh_eose (numHandlers s) fs), False)
       = (sub_state_of sid s', sub_msgs sid out)"
proof -
  show r: "sub_view_run (numHandlers s) sid inps (Some (fresh_eose (numHandlers s) fs), False)
       = (sub_state_of sid s', sub_msgs sid out)"
    using session_run_views[OF assms(2,1), of _ sid] by (auto split: prod.splits)
  from sub_inv_run[OF assms(3,4) r]
  show "sub_inv (numHandlers s) sid (req_limit fs) inps (sub_state_of sid s') (sub_msgs sid out)" .
qed

section \<open>Order and limit of the stored events\<close>

text \<open>Children that send no further event for the subscription after their EOSE.\<close>

definition stored_event_at :: "string \<Rightarrow> merge_input list \<Rightarrow> nat \<Rightarrow> bool" where
  "stored_event_at sid inps k = (case inps ! k of
     FromChild i m \<Rightarrow> SType m = MsgTypeEvent \<and> SSubscriptionID m = sid \<longrightarrow> \<not> ended sid i (take k inps)
   | _ \<Rightarrow> True)"

definition stored_only :: "string \<Rightarrow> merge_input list \<Rightarrow> bool" where
  "stored_only sid inps = (\<forall>k<length inps. stored_event_at sid inps k)"

lemma stored_only_snoc:
  assumes "stored_only sid (inps @ [inp])"
  shows "stored_only sid inps"
    "inp = FromChild i m \<Longrightarrow> SType m = MsgTypeEvent \<Longrightarrow> SSubscriptionID m = sid \<Longrightarrow> \<not> ended sid i inps"
proof -
  have at: "stored_event_at sid (inps @ [inp]) k = stored_event_at sid inps k" if "k < length inps" for k
    using that by (cases "inps ! k") (simp_all add: stored_event_at_def nth_append)
  show "stored_only sid inps" using assms at by (auto simp: stored_only_def)
  have "stored_event_at sid (inps @ [inp]) (length inps)" using assms by (simp add: stored_only_def)
  then show "inp = FromChild i m \<Longrightarrow> SType m = MsgTypeEvent \<Longrightarrow> SSubscriptionID m = sid \<Longrightarrow> \<not> ended sid i inps"
    by (simp add: stored_event_at_def)
qed

text \<open>The order of stored events: newest first, ties by identifier.\<close>

definition msg_before :: "ServerMsg \<Rightarrow> ServerMsg \<Rightarrow> bool" where
  "msg_before a b \<longleftrightarrow> Unix (CreatedAt (msg_event a)) > Unix (CreatedAt (msg_event b))
     \<or> Unix (CreatedAt (msg_event a)) = Unix (CreatedAt (msg_event b)) \<and> ID (msg_event a) < ID (msg_event b)"

definition order_inv :: "pendingEOSE \<Rightarrow> ServerMsg list \<Rightarrow> bool" where
  "order_inv p out \<longleftrightarrow> sorted_wrt msg_before out \<and> eventCount p = int (length out)
     \<and> (hasSentEvent p \<longleftrightarrow> out \<noteq> [])
     \<and> (out \<noteq> [] \<longrightarrow> lastCreatedAt p = Unix (CreatedAt (msg_event (last out))) \<and> lastID p = ID (msg_event (last out)))
     \<and> (eLimit p > 0 \<longrightarrow> int (length out) < eLimit p)"

definition stored_part :: "ServerMsg list \<Rightarrow> ServerMsg list" where
  "stored_part = takeWhile (\<lambda>m. \<not> is_eose m)"

definition ordered :: "int \<Rightarrow> sub_state \<Rightarrow> ServerMsg list \<Rightarrow> bool" where
  "ordered lmt st out \<longleftrightarrow> sorted_wrt msg_before (stored_part out)
     \<and> (lmt > 0 \<longrightarrow> int (length (stored_part out)) \<le> lmt)
     \<and> (\<forall>p. fst st = Some p \<longrightarrow> order_inv p out)"

lemma stored_part_pending: "\<forall>m\<in>set out. \<not> is_eose m \<Longrightarrow> stored_part out = out"
  by (simp add: stored_part_def takeWhile_eq_all_conv)

lemma stored_part_eose: "\<forall>m\<in>set pre. \<not> is_eose m \<Longrightarrow> stored_part (pre @ NewServerEOSEMsg sid # post) = pre"
  by (simp add: stored_part_def)

lemma msg_before_trans: "msg_before a b \<Longrightarrow> msg_before b c \<Longrightarrow> msg_before a c"
  unfolding msg_before_def by (elim disjE conjE) (auto dest: less_trans)

lemma sorted_msg_snoc:
  assumes "sorted_wrt msg_before out" "out \<noteq> [] \<Longrightarrow> msg_before (last out) m"
  shows "sorted_wrt msg_before (out @ [m])"
proof (cases "out = []")
  case False
  then obtain o1 where o: "out = o1 @ [last out]" by (metis append_butlast_last_id)
  have "msg_before a m" if "a \<in> set out" for a
  proof (cases "a = last out")
    case True
    then show ?thesis using assms(2) False by simp
  next
    case False
    with that o have "a \<in> set o1" by (metis Un_iff empty_iff empty_set insert_iff list.simps(15) set_append)
    with assms(1) o have "msg_before a (last out)" by (metis list.set_intros(1) sorted_wrt_append)
    then show ?thesis using assms(2) \<open>out \<noteq> []\<close> msg_before_trans by blast
  qed
  with assms(1) show ?thesis by (simp add: sorted_wrt_append)
qed simp

lemma in_order_before:
  assumes "order_inv p out" "in_order p (msg_event m)" "out \<noteq> []" "ID (msg_event m) \<notin> set (map (ID \<circ> msg_event) out)"
  shows "msg_before (last out) m"
proof -
  have "ID (msg_event (last out)) \<noteq> ID (msg_event m)"
  proof
    assume "ID (msg_event (last out)) = ID (msg_event m)"
    then have "(ID \<circ> msg_event) (last out) = ID (msg_event m)" by simp
    moreover have "last out \<in> set out" using assms(3) by simp
    ultimately have "ID (msg_event m) \<in> (ID \<circ> msg_event) ` set out" by (rule rev_image_eqI[rotated, OF sym])
    with assms(4) show False by simp
  qed
  moreover have "hasSentEvent p" "lastCreatedAt p = Unix (CreatedAt (msg_event (last out)))"
    "lastID p = ID (msg_event (last out))"
    using assms(1,3) by (simp_all add: order_inv_def)
  ultimately show ?thesis using assms(2) unfolding in_order_def msg_before_def
    using linorder_less_linear[of "Unix (CreatedAt (msg_event (last out)))" "Unix (CreatedAt (msg_event m))"]
      linorder_less_linear[of "ID (msg_event (last out))" "ID (msg_event m)"] by metis
qed

lemma ordered_event:
  assumes inv: "stored_inv n sid lmt inps p out" and o: "order_inv p out" and e: "SType m = MsgTypeEvent" "SEvent m = Some e"
    and v: "event_view sid i m e (Some p, False) = (st', new)" and nend: "\<not> handlerEOSESent p ! i"
  shows "ordered lmt st' (out @ new)"
proof -
  have ev: "msg_event m = e" using e(2) by (simp add: msg_event_def)
  have no: "\<not> eoseSent p" and lm: "eLimit p = lmt" and seen: "seenEventIDs p = set (map (ID \<circ> msg_event) out)"
    and evs: "\<forall>m\<in>set out. \<not> is_eose m"
    using inv by (simp_all add: stored_inv_def)
  have evs': "\<forall>m\<in>set (out @ [m]). \<not> is_eose m" using evs e(1) by auto
  have srt: "sorted_wrt msg_before (out @ [m])" if "ID e \<notin> seenEventIDs p" "in_order p e"
  proof (rule sorted_msg_snoc)
    show "sorted_wrt msg_before out" using o by (simp add: order_inv_def)
    show "msg_before (last out) m" if "out \<noteq> []"
      by (rule in_order_before[OF o _ that])
        (use \<open>ID e \<notin> seenEventIDs p\<close> \<open>in_order p e\<close> in \<open>simp_all only: ev seen not_False_eq_True\<close>)
  qed
  have keep: "ordered lmt (Some p, False) out"
    using o lm stored_part_pending[OF evs] by (auto simp: ordered_def order_inv_def)
  from event_view_pending[OF no v] show ?thesis
  proof (elim disjE conjE)
    assume a: "ID e \<notin> seenEventIDs p" "in_order p e" "eLimit p > 0" "eventCount p + 1 \<ge> eLimit p" "st' = (None, True)"
      "new = [m, NewServerEOSEMsg sid]"
    have sp: "stored_part (out @ new) = out @ [m]" using stored_part_eose[OF evs', of sid "[]"] a(6) by simp
    have "int (length (out @ [m])) \<le> lmt" using o a(3) lm by (auto simp: order_inv_def)
    with srt[OF a(1,2)] a(5) sp show ?thesis by (simp only: ordered_def) simp
  next
    assume a: "ID e \<notin> seenEventIDs p" "in_order p e" "\<not> (eLimit p > 0 \<and> eventCount p + 1 \<ge> eLimit p)"
      "st' = (Some (record_event e p), False)" "new = [m]"
    have "order_inv (record_event e p) (out @ [m])"
      using srt[OF a(1,2)] a(3) o by (auto simp: order_inv_def record_event_def ev)
    with a lm stored_part_pending[OF evs'] show ?thesis by (auto simp: ordered_def order_inv_def record_event_def)
  qed (use keep nend in auto)
qed

lemma stored_part_append:
  "\<exists>m\<in>set out. is_eose m \<Longrightarrow> stored_part (out @ new) = stored_part out"
  by (auto simp: stored_part_def takeWhile_append1)

lemma ordered_end:
  assumes "sub_inv n sid lmt inps st out" "ordered lmt st out"
    "eose_view n sid i st = (st', new) \<or> lost_view n sid i st = (st', new)"
  shows "ordered lmt st' (out @ new)"
  using assms(1)
proof (cases rule: sub_inv_cases)
  case fin
  with assms(2,3) show ?thesis by (auto simp: eose_view_def lost_view_def)
next
  case (pend p)
  then have no: "\<not> eoseSent p" and evs: "\<forall>m\<in>set out. \<not> is_eose m" by (simp_all add: stored_inv_def)
  have o: "order_inv p out" using assms(2) pend(1) by (simp add: ordered_def)
  have eq: "order_inv (eose_mark i p) out = order_inv p out" by (simp add: order_inv_def eose_mark_def)
  have "(st', new) = (st, []) \<or> (st', new) = ((None, True), [NewServerEOSEMsg sid])
    \<or> (st', new) = ((Some (eose_mark i p), False), [])"
    using assms(3) pend(1) no by (auto simp: eose_view_def lost_view_def eose_settle_def split: if_splits)
  with assms(2) o eq stored_part_eose[OF evs, of sid "[]"] stored_part_pending[OF evs] pend(1)
  show ?thesis by (auto simp: ordered_def)
qed

lemma ordered_run:
  assumes "0 < n" "\<forall>inp\<in>set inps. input_index n inp \<and> \<not> is_sub_req sid inp" "stored_only sid inps"
    "sub_view_run n sid inps (Some (fresh_eose n fs), False) = (st, out)"
  shows "ordered (req_limit fs) st out"
  using assms(2-4)
proof (induction inps arbitrary: st out rule: rev_induct)
  case Nil
  then show ?case by (auto simp: ordered_def order_inv_def fresh_eose_def stored_part_def)
next
  case (snoc inp inps)
  obtain st1 o1 new where r: "sub_view_run n sid inps (Some (fresh_eose n fs), False) = (st1, o1)"
    "sub_view n sid inp st1 = (st, new)" "out = o1 @ new"
    using snoc.prems(3) by (auto simp: sub_view_run_snoc split: prod.splits)
  have hyps: "\<forall>inp\<in>set inps. input_index n inp \<and> \<not> is_sub_req sid inp" using snoc.prems(1) by simp
  note inv = sub_inv_run[OF assms(1) hyps r(1)]
  have IH: "ordered (req_limit fs) st1 o1" using snoc.IH[OF hyps stored_only_snoc(1)[OF snoc.prems(2)] r(1)] .
  show ?case
  proof (cases inp)
    case (FromClient m)
    then have "\<not> is_sub_req sid (FromClient m)" using snoc.prems(1) by auto
    with r(2,3) IH FromClient show ?thesis by (simp add: is_sub_req_def split: if_splits)
  next
    case (ChildLost i)
    then have "lost_view n sid i st1 = (st, new)" using r(2) by simp
    with ordered_end[OF inv IH] r(3) show ?thesis by blast
  next
    case (FromChild i m)
    then have i: "i < n" using snoc.prems(1) by simp
    consider (eose) "SSubscriptionID m = sid" "SType m = MsgTypeEOSE"
      | (event) e where "SSubscriptionID m = sid" "SType m = MsgTypeEvent" "SEvent m = Some e"
      | (other) "\<not> (SSubscriptionID m = sid \<and> SType m = MsgTypeEOSE)"
        "\<not> (SSubscriptionID m = sid \<and> SType m = MsgTypeEvent \<and> SEvent m \<noteq> None)" by blast
    then show ?thesis
    proof cases
      case eose
      then have "eose_view n sid i st1 = (st, new)" using FromChild r(2) by simp
      with ordered_end[OF inv IH] r(3) show ?thesis by blast
    next
      case event
      have v: "event_view sid i m e st1 = (st, new)" using FromChild r(2) event by simp
      have ne: "\<not> ended sid i inps" using stored_only_snoc(2)[OF snoc.prems(2) FromChild event(2,1)] .
      show ?thesis
        using inv
      proof (cases rule: sub_inv_cases)
        case fin
        then have "\<exists>m\<in>set o1. is_eose m" by (auto simp: done_inv_def)
        with fin v IH r(3) show ?thesis by (auto simp: event_view_def ordered_def stored_part_append)
      next
        case (pend p)
        then have "\<not> handlerEOSESent p ! i" using ne i by (simp add: stored_inv_def)
        moreover have "order_inv p o1" using IH pend(1) by (simp add: ordered_def)
        ultimately show ?thesis using ordered_event[OF pend(2) _ event(2,3)] v pend(1) r(3) by simp
      qed
    next
      case other
      then have "st = st1 \<and> new = []" using r(2) FromChild by (simp split: if_splits option.splits)
      with IH r(3) show ?thesis by simp
    qed
  qed
qed

section \<open>A pending subscription has not sent its EOSE\<close>

definition no_eose_sent :: "mergeSession \<Rightarrow> bool" where
  "no_eose_sent s \<longleftrightarrow> (\<forall>sid p. fst (sub_state_of sid s) = Some p \<longrightarrow> \<not> eoseSent p)"

lemma sub_view_no_eose_sent:
  assumes "sub_view n sid inp st = (st', new)" "\<forall>p. fst st = Some p \<longrightarrow> \<not> eoseSent p"
  shows "\<forall>p. fst st' = Some p \<longrightarrow> \<not> eoseSent p"
proof (cases inp)
  case (FromClient m)
  with assms show ?thesis by (auto simp: fresh_eose_def split: if_splits)
next
  case (ChildLost i)
  with assms show ?thesis
    by (simp add: lost_view_def eose_mark_def split: option.splits if_splits) auto
next
  case (FromChild i m)
  with assms show ?thesis
    by (simp add: event_view_def eose_view_def eose_settle_def eose_mark_def record_event_def
        split: option.splits if_splits) auto
qed

lemma session_step_no_eose_sent:
  assumes "session_keys s" "session_step inp s = Some (s', out)" "no_eose_sent s"
  shows "no_eose_sent s'"
  unfolding no_eose_sent_def
proof (intro allI)
  fix sid
  have "\<forall>p. fst (sub_state_of sid s) = Some p \<longrightarrow> \<not> eoseSent p" using assms(3) by (simp add: no_eose_sent_def)
  from sub_view_no_eose_sent[OF session_step_sub_view[OF assms(1,2), of sid, symmetric] this]
  show "\<And>p. fst (sub_state_of sid s') = Some p \<longrightarrow> \<not> eoseSent p" by blast
qed

lemma processEvent_no_after_limit:
  assumes "no_eose_sent s" "processEvent m e i s = (s', out)"
  shows "eventDrops s' ''after_limit'' = eventDrops s ''after_limit''"
proof (cases "map_of (pendingEOSEs s) (SSubscriptionID m)")
  case (Some p)
  then have "\<not> eoseSent p" using assms(1) by (auto simp: no_eose_sent_def sub_state_of_def)
  with Some assms(2) show ?thesis
    by (simp add: processEvent_def recordEventDrop_def Let_def split: if_splits) auto
qed (use assms(2) in \<open>auto simp: processEvent_def Let_def split: if_splits\<close>)

lemma session_step_no_after_limit:
  assumes "no_eose_sent s" "session_step inp s = Some (s', out)"
  shows "eventDrops s' ''after_limit'' = eventDrops s ''after_limit''"
proof (cases inp)
  case (FromChild i m)
  with assms processEvent_no_after_limit[OF assms(1), of m _ i s' out] show ?thesis
    by (auto simp: session_step_def processResponse_def processOK_def processEOSE_def processCount_def Let_def
        split: if_splits option.splits)
qed (use assms in \<open>auto simp: session_run_ops session_ops Let_def split: if_splits option.splits prod.splits\<close>)

lemma session_run_no_after_limit:
  assumes "session_keys s" "no_eose_sent s" "session_run inps s = Some (s', out)"
  shows "eventDrops s' ''after_limit'' = eventDrops s ''after_limit''"
  using assms
proof (induction inps arbitrary: s out)
  case (Cons inp inps)
  then obtain t o1 o2 where t: "session_step inp s = Some (t, o1)" "session_run inps t = Some (s', o2)"
    by (auto split: option.splits)
  from Cons.IH[OF session_step_keys[OF Cons.prems(1) t(1)] session_step_no_eose_sent[OF Cons.prems(1) t(1) Cons.prems(2)] t(2)]
    session_step_no_after_limit[OF Cons.prems(2) t(1)]
  show ?case by simp
qed simp

section \<open>Properties\<close>

lemma eose_at_limit:
  assumes "session_run (FromClient (client_req sid fs) # inps) s = Some (s', out)" "session_keys s"
    "0 < numHandlers s" "\<forall>inp\<in>set inps. input_index (numHandlers s) inp \<and> \<not> is_sub_req sid inp"
    "stored_only sid inps" "0 < req_limit fs" "req_limit fs \<le> int (length (stored_part (sub_msgs sid out)))"
  shows "\<exists>post. sub_msgs sid out = stored_part (sub_msgs sid out) @ NewServerEOSEMsg sid # post
    \<and> int (length (stored_part (sub_msgs sid out))) = req_limit fs"
proof -
  have o: "ordered (req_limit fs) (sub_state_of sid s') (sub_msgs sid out)"
    by (rule ordered_run[OF assms(3,4,5) req_session_run(2)[OF assms(1-4)]])
  show ?thesis using req_session_run(1)[OF assms(1-4)]
  proof (cases rule: sub_inv_cases)
    case fin
    then obtain pre post where "sub_msgs sid out = pre @ NewServerEOSEMsg sid # post" "\<forall>m\<in>set pre. \<not> is_eose m"
      unfolding done_inv_def by blast
    with o assms(6,7) show ?thesis by (auto simp: ordered_def stored_part_eose)
  next
    case (pend p)
    then have "stored_part (sub_msgs sid out) = sub_msgs sid out" "eLimit p = req_limit fs"
      by (simp_all add: stored_inv_def stored_part_pending)
    moreover have "order_inv p (sub_msgs sid out)" using o pend(1) by (simp add: ordered_def)
    ultimately show ?thesis using assms(6,7) by (simp add: order_inv_def)
  qed
qed

text \<open>C8. After a REQ the client gets at most one EOSE for the subscription. It gets one once every child
  has sent its EOSE or has been lost. If no child sends further events after its own EOSE, it also
  gets one at once when as many events as the positive limit of the first filter have been sent:
  the EOSE directly follows the last of them. And when it gets one, one of these two things has
  happened before.\<close>

theorem merge_one_eose_per_req:
  assumes "session_run (FromClient (client_req sid fs) # inps) s = Some (s', out)" "session_keys s"
    "0 < numHandlers s" "\<forall>inp\<in>set inps. input_index (numHandlers s) inp \<and> \<not> is_sub_req sid inp"
  shows "length (filter is_eose (sub_msgs sid out)) \<le> 1
    \<and> ((\<forall>i<numHandlers s. ended sid i inps) \<longrightarrow> length (filter is_eose (sub_msgs sid out)) = 1)
    \<and> (stored_only sid inps \<and> 0 < req_limit fs \<and> req_limit fs \<le> int (length (takeWhile (\<lambda>m. \<not> is_eose m) (sub_msgs sid out)))
         \<longrightarrow> (\<exists>pre post. sub_msgs sid out = pre @ NewServerEOSEMsg sid # post \<and> (\<forall>m\<in>set pre. \<not> is_eose m)
                \<and> int (length pre) = req_limit fs))
    \<and> (\<forall>pre m post. sub_msgs sid out = pre @ m # post \<and> is_eose m \<longrightarrow>
         (\<forall>i<numHandlers s. ended sid i inps) \<or> 0 < req_limit fs \<and> req_limit fs \<le> int (length pre))"
proof -
  have limit: "\<exists>pre post. sub_msgs sid out = pre @ NewServerEOSEMsg sid # post \<and> (\<forall>m\<in>set pre. \<not> is_eose m)
      \<and> int (length pre) = req_limit fs"
    if l: "stored_only sid inps" "0 < req_limit fs" "req_limit fs \<le> int (length (stored_part (sub_msgs sid out)))"
  proof -
    have "\<forall>m\<in>set (stored_part (sub_msgs sid out)). \<not> is_eose m" by (auto simp: stored_part_def dest: set_takeWhileD)
    with eose_at_limit[OF assms l] show ?thesis by blast
  qed
  show ?thesis using req_session_run(1)[OF assms]
  proof (cases rule: sub_inv_cases)
    case fin
    then obtain pre post where p: "sub_msgs sid out = pre @ NewServerEOSEMsg sid # post"
      "\<forall>m\<in>set pre. \<not> is_eose m" "\<forall>m\<in>set post. \<not> is_eose m"
      "(\<forall>i<numHandlers s. ended sid i inps) \<or> 0 < req_limit fs \<and> req_limit fs \<le> int (length pre)"
      by (auto simp: done_inv_def)
    have "length pre \<le> length pre'" if "sub_msgs sid out = pre' @ m # post'" "is_eose m" for pre' m post'
    proof -
      have "length pre = length (takeWhile (\<lambda>m. \<not> is_eose m) (sub_msgs sid out))" using p by simp
      also have "\<dots> \<le> length pre'" unfolding that(1) using that(2) by (induction pre') auto
      finally show ?thesis .
    qed
    then have just: "(\<forall>i<numHandlers s. ended sid i inps) \<or> 0 < req_limit fs \<and> req_limit fs \<le> int (length pre')"
      if "sub_msgs sid out = pre' @ m # post'" "is_eose m" for pre' m post'
      using that p(4) by fastforce
    have "length (filter is_eose (sub_msgs sid out)) = 1" using p(2,3) by (simp add: p(1) filter_empty_conv)
    with just limit show ?thesis unfolding stored_part_def by simp
  next
    case (pend p)
    then have none: "\<forall>m\<in>set (sub_msgs sid out). \<not> is_eose m" and t: "tally (numHandlers s) (handlerEOSESent p) (eReceived p)"
      "eReceived p < numHandlers s" "\<forall>i<numHandlers s. handlerEOSESent p ! i = ended sid i inps"
      by (simp_all add: stored_inv_def)
    then have "\<not> (\<forall>i<numHandlers s. ended sid i inps)" using tally_full[OF t(1)] by auto
    moreover have "filter is_eose (sub_msgs sid out) = []" using none by (simp add: filter_empty_conv)
    moreover have "\<not> (sub_msgs sid out = pre @ m # post \<and> is_eose m)" for pre m post using none by auto
    ultimately show ?thesis using limit[unfolded stored_part_def] by (intro conjI) (simp, blast, blast, blast)
  qed
qed

lemma merge_one_eose_per_req_witness:
  "\<exists>s' out. session_run (FromClient (client_req ''s'' [empty_filter\<lparr>Limit := Some 1\<rparr>])
      # [FromChild 0 (NewServerEventMsg ''s'' (mk_event ''a'' ''p'' 5 1 [])), FromChild 0 (NewServerEOSEMsg ''s''), ChildLost 1])
      (newMergeSession 2) = Some (s', out) \<and> length (filter is_eose (sub_msgs ''s'' out)) = 1"
proof -
  let ?inps = "[FromChild 0 (NewServerEventMsg ''s'' (mk_event ''a'' ''p'' 5 1 [])), FromChild 0 (NewServerEOSEMsg ''s''), ChildLost 1]"
  obtain s' out where r: "session_run (FromClient (client_req ''s'' [empty_filter\<lparr>Limit := Some 1\<rparr>]) # ?inps) (newMergeSession 2) = Some (s', out)"
    using session_run_total[of "FromClient (client_req ''s'' [empty_filter\<lparr>Limit := Some 1\<rparr>]) # ?inps" "newMergeSession 2"]
    by (auto simp: well_formed_input_def)
  have "length (filter is_eose (sub_msgs ''s'' out)) = 1"
    using merge_one_eose_per_req[OF r]
    by (simp add: is_sub_req_def ended_def ends_child_def less_2_cases_iff all_conj_distrib)
  with r show ?thesis by blast
qed

text \<open>C9. The events sent before the EOSE have distinct identifiers. If no child sends further events
  after its own EOSE, they are sorted newest first with ties broken by identifier, and there are at
  most as many as the limit of the first filter.\<close>

theorem merge_stored_events_sorted:
  assumes "session_run (FromClient (client_req sid fs) # inps) s = Some (s', out)" "session_keys s"
    "0 < numHandlers s" "\<forall>inp\<in>set inps. input_index (numHandlers s) inp \<and> \<not> is_sub_req sid inp"
  shows "distinct (map (ID \<circ> msg_event) (stored_part (sub_msgs sid out)))
    \<and> (stored_only sid inps \<longrightarrow> sorted_wrt msg_before (stored_part (sub_msgs sid out))
         \<and> (req_limit fs > 0 \<longrightarrow> int (length (stored_part (sub_msgs sid out))) \<le> req_limit fs))"
proof -
  have "distinct (map (ID \<circ> msg_event) (stored_part (sub_msgs sid out)))"
    using req_session_run(1)[OF assms]
  proof (cases rule: sub_inv_cases)
    case fin
    then obtain pre post where "sub_msgs sid out = pre @ NewServerEOSEMsg sid # post" "\<forall>m\<in>set pre. \<not> is_eose m"
      "distinct (map (ID \<circ> msg_event) pre)" by (auto simp: done_inv_def)
    then show ?thesis by (simp add: stored_part_eose)
  next
    case (pend p)
    then have "\<forall>m\<in>set (sub_msgs sid out). \<not> is_eose m" "distinct (map (ID \<circ> msg_event) (sub_msgs sid out))"
      by (simp_all add: stored_inv_def)
    then show ?thesis by (simp add: stored_part_pending)
  qed
  moreover have "ordered (req_limit fs) (sub_state_of sid s') (sub_msgs sid out)" if "stored_only sid inps"
    using ordered_run[OF assms(3,4) that req_session_run(2)[OF assms]] .
  ultimately show ?thesis by (auto simp: ordered_def)
qed

lemma merge_stored_events_sorted_witness:
  "\<exists>s' out. session_run (FromClient (client_req ''s'' [])
      # [FromChild 0 (NewServerEventMsg ''s'' (mk_event ''b'' ''p'' 5 1 [])),
         FromChild 1 (NewServerEventMsg ''s'' (mk_event ''a'' ''p'' 5 1 [])),
         FromChild 1 (NewServerEventMsg ''s'' (mk_event ''a'' ''p'' 4 1 []))])
      (newMergeSession 2) = Some (s', out) \<and> sorted_wrt msg_before (stored_part (sub_msgs ''s'' out))"
proof -
  let ?inps = "[FromChild 0 (NewServerEventMsg ''s'' (mk_event ''b'' ''p'' 5 1 [])),
         FromChild 1 (NewServerEventMsg ''s'' (mk_event ''a'' ''p'' 5 1 [])),
         FromChild 1 (NewServerEventMsg ''s'' (mk_event ''a'' ''p'' 4 1 []))]"
  obtain s' out where r: "session_run (FromClient (client_req ''s'' []) # ?inps) (newMergeSession 2) = Some (s', out)"
    using session_run_total[of "FromClient (client_req ''s'' []) # ?inps" "newMergeSession 2"]
    by (auto simp: well_formed_input_def)
  have "sorted_wrt msg_before (stored_part (sub_msgs ''s'' out))"
    using merge_stored_events_sorted[OF r]
    by (simp add: is_sub_req_def stored_only_def stored_event_at_def ended_def ends_child_def
        less_Suc_eq numeral_3_eq_3 all_conj_distrib)
  with r show ?thesis by blast
qed

text \<open>No event is ever counted as dropped with the reason \<open>after_limit\<close>: the entry of a
  subscription is removed in the step that sends its EOSE, so the test for an entry whose EOSE has
  been sent never succeeds.\<close>

theorem merge_after_limit_never_counted:
  assumes "session_run inps (newMergeSession n) = Some (s', out)"
  shows "eventDrops s' ''after_limit'' = 0"
proof -
  have "no_eose_sent (newMergeSession n)" by (simp add: no_eose_sent_def)
  from session_run_no_after_limit[OF session_keys_new this assms] show ?thesis by (simp add: newMergeSession_def)
qed

lemma merge_after_limit_never_counted_witness:
  "\<exists>s' out. session_run [FromClient (client_req ''s'' [])] (newMergeSession 2) = Some (s', out)
     \<and> eventDrops s' ''after_limit'' = 0"
proof -
  obtain s' out where r: "session_run [FromClient (client_req ''s'' [])] (newMergeSession 2) = Some (s', out)"
    by (simp add: session_run_ops)
  from r merge_after_limit_never_counted[OF r] show ?thesis by blast
qed

text \<open>When the limit is what ends the stored events, a child still sending its own stored events
  is treated as if they were new ones: an event already sent is sent again after the EOSE.\<close>

theorem merge_after_limit_duplicate:
  assumes "req_limit fs = 1"
  shows "map_option snd (session_run
      [FromClient (client_req sid fs), FromChild 0 (NewServerEventMsg sid e), FromChild 1 (NewServerEventMsg sid e)]
      (newMergeSession 2))
    = Some [NewServerEventMsg sid e, NewServerEOSEMsg sid, NewServerEventMsg sid e]"
  using assms
  by (simp add: session_run_ops session_ops newMergeSession_def replicate_2 Let_def req_limit_def[symmetric])

lemma merge_after_limit_duplicate_witness:
  "map_option snd (session_run
      [FromClient (client_req ''s'' [empty_filter\<lparr>Limit := Some 1\<rparr>]),
       FromChild 0 (NewServerEventMsg ''s'' (mk_event ''a'' ''p'' 5 1 [])),
       FromChild 1 (NewServerEventMsg ''s'' (mk_event ''a'' ''p'' 5 1 []))] (newMergeSession 2))
    = Some [NewServerEventMsg ''s'' (mk_event ''a'' ''p'' 5 1 []), NewServerEOSEMsg ''s'',
        NewServerEventMsg ''s'' (mk_event ''a'' ''p'' 5 1 [])]"
  by (rule merge_after_limit_duplicate) (simp add: req_limit_def)

end
