(* ===== verification/Merge_Handler.thy ===== *)
theory Merge_Handler
  imports Merge_Subscriptions "HOL-Library.Sublist"
begin

text \<open>
  The main loop of \<^verbatim>\<open>mergeHandler.ServeNostr\<close>: the bounded receive channels of the children, the
  broadcast of client messages, the retirement of children and the delivery of merged answers.
  The children are the environment: what they send, when they read and when they close are
  choices of the step relation, and so are the outcomes of the selects that race with a timer or
  with the cancellation of the context. A step is labelled with the inputs it gives to the session.
\<close>

section \<open>State\<close>

text \<open>\<open>childRecvs\<close> holds the content of each child's channel, \<open>None\<close> once the child is retired; its
  case of the select is disabled by the same steps.\<close>

datatype merge_exit = ExitContext | ExitRecvClosed

record merge_conn =
  msession :: mergeSession
  childRecvs :: "ClientMsg list option list"
  sentMsgs :: "ServerMsg list"
  stopped :: "merge_exit option"
  recvBufFull :: nat
  broadcastTimeouts :: nat
  lostChildren :: nat

definition defaultChildRecvBuffer :: nat where
  "defaultChildRecvBuffer = 10"

definition merge_start :: "nat \<Rightarrow> merge_conn" where
  "merge_start n = \<lparr>msession = newMergeSession n, childRecvs = replicate n (Some []), sentMsgs = [],
     stopped = None, recvBufFull = 0, broadcastTimeouts = 0, lostChildren = 0\<rparr>"

definition running :: "merge_conn \<Rightarrow> bool" where
  "running c \<longleftrightarrow> stopped c = None"

section \<open>Delivery and broadcast\<close>

text \<open>\<open>sendAll\<close>: all messages, or a prefix when the context is cancelled in between.\<close>

definition sendAll :: "nat option \<Rightarrow> ServerMsg list \<Rightarrow> merge_conn \<Rightarrow> merge_conn" where
  "sendAll brk msgs c = (case brk of
     None \<Rightarrow> c\<lparr>sentMsgs := sentMsgs c @ msgs\<rparr>
   | Some k \<Rightarrow> c\<lparr>sentMsgs := sentMsgs c @ take k msgs, stopped := Some ExitContext\<rparr>)"

fun broadcast_event :: "ClientMsg \<Rightarrow> ClientMsg list option list \<Rightarrow> ClientMsg list option list \<times> nat" where
  "broadcast_event msg [] = ([], 0)"
| "broadcast_event msg (ch # chs) =
     (let (chs', drops) = broadcast_event msg chs in
      case ch of None \<Rightarrow> (None # chs', drops)
      | Some buf \<Rightarrow>
          if length buf < defaultChildRecvBuffer then (Some (buf @ [msg]) # chs', drops)
          else (Some buf # chs', drops + 1))"

text \<open>The slow path: the child reads \<open>Suc k\<close> messages in time, the timer fires, or the context ends.\<close>

datatype slow_path = SlowSent nat | SlowTimeout | SlowCancelled

fun broadcast_control ::
  "(nat \<Rightarrow> slow_path) \<Rightarrow> nat \<Rightarrow> ClientMsg \<Rightarrow> ClientMsg list option list \<Rightarrow> ClientMsg list option list \<times> nat list \<times> bool" where
  "broadcast_control slow i msg [] = ([], [], False)"
| "broadcast_control slow i msg (None # chs) =
     (let (chs', dead, cancelled) = broadcast_control slow (Suc i) msg chs in (None # chs', dead, cancelled))"
| "broadcast_control slow i msg (Some buf # chs) =
     (if length buf < defaultChildRecvBuffer then
        (let (chs', dead, cancelled) = broadcast_control slow (Suc i) msg chs
         in (Some (buf @ [msg]) # chs', dead, cancelled))
      else case slow i of
        SlowSent k \<Rightarrow>
          (let (chs', dead, cancelled) = broadcast_control slow (Suc i) msg chs
           in (Some (drop (Suc k) buf @ [msg]) # chs', dead, cancelled))
      | SlowTimeout \<Rightarrow>
          (let (chs', dead, cancelled) = broadcast_control slow (Suc i) msg chs
           in (Some buf # chs', i # dead, cancelled))
      | SlowCancelled \<Rightarrow> (Some buf # chs, [], True))"

definition broadcastAll :: "(nat \<Rightarrow> slow_path) \<Rightarrow> ClientMsg \<Rightarrow> merge_conn \<Rightarrow> merge_conn \<times> nat list \<times> bool" where
  "broadcastAll slow msg c =
     (if CType msg = MsgTypeEvent then
        (let (chs, drops) = broadcast_event msg (childRecvs c)
         in (c\<lparr>childRecvs := chs, recvBufFull := recvBufFull c + drops\<rparr>, [], False))
      else
        (let (chs, dead, cancelled) = broadcast_control slow 0 msg (childRecvs c)
         in (c\<lparr>childRecvs := chs, broadcastTimeouts := broadcastTimeouts c + length dead\<rparr>, dead, cancelled)))"

section \<open>The cases of the loop\<close>

text \<open>A child is retired: its channel is dropped, the session is told, the results are sent.\<close>

definition retire :: "nat \<Rightarrow> nat option \<Rightarrow> merge_conn \<Rightarrow> merge_conn" where
  "retire i brk c =
     (let (s', results) = handlerClosed i (msession c)
      in sendAll brk results
           (c\<lparr>childRecvs := (childRecvs c)[i := None], lostChildren := lostChildren c + 1, msession := s'\<rparr>))"

fun retire_all :: "nat list \<Rightarrow> (nat \<Rightarrow> nat option) \<Rightarrow> merge_conn \<Rightarrow> nat list \<times> merge_conn" where
  "retire_all [] brks c = ([], c)"
| "retire_all (i # is) brks c =
     (let c' = retire i (brks i) c in
      if stopped c' \<noteq> None then ([i], c')
      else let (js, c'') = retire_all is brks c' in (i # js, c''))"

definition serve_client ::
  "ClientMsg \<Rightarrow> (nat \<Rightarrow> slow_path) \<Rightarrow> (nat \<Rightarrow> nat option) \<Rightarrow> merge_conn \<Rightarrow> (nat list \<times> merge_conn) option" where
  "serve_client msg slow brks c =
     (case track_request msg (msession c) of None \<Rightarrow> None
      | Some s' \<Rightarrow>
          (let (c', dead, cancelled) = broadcastAll slow msg (c\<lparr>msession := s'\<rparr>)
           in if cancelled then Some ([], c'\<lparr>stopped := Some ExitContext\<rparr>)
              else Some (retire_all dead brks c')))"

definition serve_child :: "nat \<Rightarrow> ServerMsg \<Rightarrow> nat option \<Rightarrow> merge_conn \<Rightarrow> merge_conn option" where
  "serve_child i msg brk c =
     (case processResponse msg i (msession c) of None \<Rightarrow> None
      | Some (s', results) \<Rightarrow> Some (sendAll brk results (c\<lparr>msession := s'\<rparr>)))"

definition live_child :: "nat \<Rightarrow> merge_conn \<Rightarrow> bool" where
  "live_child i c \<longleftrightarrow> i < length (childRecvs c) \<and> childRecvs c ! i \<noteq> None"

inductive merge_step :: "merge_conn \<Rightarrow> merge_input list \<Rightarrow> merge_conn \<Rightarrow> bool" where
  step_cancel: "running c \<Longrightarrow> merge_step c [] (c\<lparr>stopped := Some ExitContext\<rparr>)"
| step_recv_closed: "running c \<Longrightarrow> merge_step c [] (c\<lparr>stopped := Some ExitRecvClosed\<rparr>)"
| step_client: "running c \<Longrightarrow> serve_client msg slow brks c = Some (lost, c') \<Longrightarrow>
    merge_step c (FromClient msg # map ChildLost lost) c'"
| step_child: "running c \<Longrightarrow> live_child i c \<Longrightarrow> serve_child i msg brk c = Some c' \<Longrightarrow>
    merge_step c [FromChild i msg] c'"
| step_child_closed: "running c \<Longrightarrow> live_child i c \<Longrightarrow> merge_step c [ChildLost i] (retire i brk c)"
| step_child_reads: "i < length (childRecvs c) \<Longrightarrow> childRecvs c ! i = Some (m # buf) \<Longrightarrow>
    merge_step c [] (c\<lparr>childRecvs := (childRecvs c)[i := Some buf]\<rparr>)"

inductive merge_run :: "merge_conn \<Rightarrow> merge_input list \<Rightarrow> merge_conn \<Rightarrow> bool" where
  run_refl: "merge_run c [] c"
| run_step: "merge_run c tr c' \<Longrightarrow> merge_step c' lbl c'' \<Longrightarrow> merge_run c (tr @ lbl) c''"

inductive_cases merge_stepE: "merge_step c lbl c'"

section \<open>Steps against the session\<close>

lemma sendAll_fields [simp]:
  "msession (sendAll brk msgs c) = msession c" "childRecvs (sendAll brk msgs c) = childRecvs c"
  "lostChildren (sendAll brk msgs c) = lostChildren c"
  by (simp_all add: sendAll_def split: option.splits)

text \<open>\<open>delivers c outs c'\<close>: between the two connections the client is sent a prefix of \<open>outs\<close>, all of
  it unless the loop has stopped.\<close>

definition delivers :: "merge_conn \<Rightarrow> ServerMsg list \<Rightarrow> merge_conn \<Rightarrow> bool" where
  "delivers c outs c' \<longleftrightarrow> (\<exists>part. sentMsgs c' = sentMsgs c @ part \<and> prefix part outs \<and> (running c' \<longrightarrow> part = outs))"

lemma delivers_sendAll:
  "running c \<Longrightarrow> delivers c msgs (sendAll brk msgs c)"
  by (auto simp: delivers_def sendAll_def running_def take_is_prefix split: option.splits)

lemma delivers_trans:
  assumes "delivers c xs c'" "running c'" "delivers c' ys c''"
  shows "delivers c (xs @ ys) c''"
  using assms by (auto simp: delivers_def)

lemma delivers_stopped: "delivers c xs c' \<Longrightarrow> \<not> running c' \<Longrightarrow> delivers c (xs @ ys) c'"
  by (auto simp: delivers_def)

lemma delivers_cong:
  "delivers c0 xs c' \<Longrightarrow> sentMsgs c0 = sentMsgs c \<Longrightarrow> delivers c xs c'"
  by (simp add: delivers_def)

lemma broadcastAll_fields:
  assumes "broadcastAll slow msg c = (c', dead, cancelled)"
  shows "msession c' = msession c" "sentMsgs c' = sentMsgs c" "stopped c' = stopped c"
  using assms by (auto simp: broadcastAll_def split: prod.splits if_splits)

lemma retire_step:
  assumes "running c"
  shows "\<exists>outs. session_step (ChildLost i) (msession c) = Some (msession (retire i brk c), outs)
    \<and> delivers c outs (retire i brk c)"
proof -
  obtain s' outs where h: "handlerClosed i (msession c) = (s', outs)" by fastforce
  let ?c = "c\<lparr>childRecvs := (childRecvs c)[i := None], lostChildren := lostChildren c + 1, msession := s'\<rparr>"
  have "delivers ?c outs (sendAll brk outs ?c)" using assms by (intro delivers_sendAll) (simp add: running_def)
  then have "delivers c outs (sendAll brk outs ?c)" by (rule delivers_cong) simp
  with h show ?thesis by (simp add: retire_def session_step_def)
qed

lemma session_run_append:
  "session_run (xs @ ys) s =
    (case session_run xs s of None \<Rightarrow> None
     | Some (s', o1) \<Rightarrow> (case session_run ys s' of None \<Rightarrow> None | Some (s'', o2) \<Rightarrow> Some (s'', o1 @ o2)))"
  by (induction xs arbitrary: s) (auto split: option.splits)

lemma retire_all_steps:
  assumes "running c" "retire_all is brks c = (js, c')"
  shows "\<exists>outs. session_run (map ChildLost js) (msession c) = Some (msession c', outs) \<and> delivers c outs c'"
  using assms
proof (induction "is" arbitrary: c js)
  case Nil
  then show ?case by (auto simp: delivers_def)
next
  case (Cons i "is")
  let ?c = "retire i (brks i) c"
  obtain o1 where o1: "session_step (ChildLost i) (msession c) = Some (msession ?c, o1)" "delivers c o1 ?c"
    using retire_step[OF Cons.prems(1)] by blast
  show ?case
  proof (cases "running ?c")
    case False
    then have "js = [i]" "c' = ?c" using Cons.prems(2) by (auto simp: running_def)
    with o1 show ?thesis by auto
  next
    case True
    then obtain ks where ks: "retire_all is brks ?c = (ks, c')" "js = i # ks"
      using Cons.prems(2) by (auto simp: running_def Let_def split: prod.splits)
    obtain o2 where "session_run (map ChildLost ks) (msession ?c) = Some (msession c', o2)" "delivers ?c o2 c'"
      using Cons.IH[OF True ks(1)] by blast
    with o1 ks(2) True delivers_trans[OF o1(2) True] show ?thesis by auto
  qed
qed

lemma serve_client_steps:
  assumes "running c" "serve_client msg slow brks c = Some (lost, c')"
  shows "\<exists>outs. session_run (FromClient msg # map ChildLost lost) (msession c) = Some (msession c', outs)
    \<and> delivers c outs c'"
proof -
  obtain s' where s': "track_request msg (msession c) = Some s'"
    using assms(2) by (auto simp: serve_client_def split: option.splits)
  obtain c1 dead cancelled where b: "broadcastAll slow msg (c\<lparr>msession := s'\<rparr>) = (c1, dead, cancelled)"
    by (metis prod_cases3)
  have f: "msession c1 = s'" "sentMsgs c1 = sentMsgs c" "running c1"
    using broadcastAll_fields[OF b] assms(1) by (simp_all add: running_def)
  have st: "session_step (FromClient msg) (msession c) = Some (s', [])" using s' by (simp add: session_step_def)
  show ?thesis
  proof (cases cancelled)
    case True
    then have "lost = []" "c' = c1\<lparr>stopped := Some ExitContext\<rparr>" using assms(2) s' b by (auto simp: serve_client_def)
    with st f show ?thesis by (simp add: delivers_def)
  next
    case False
    then have r: "retire_all dead brks c1 = (lost, c')" using assms(2) s' b by (auto simp: serve_client_def)
    obtain outs where "session_run (map ChildLost lost) s' = Some (msession c', outs)" "delivers c1 outs c'"
      using retire_all_steps[OF f(3) r] f(1) by auto
    with st delivers_cong[OF _ f(2)] show ?thesis by auto
  qed
qed

text \<open>A step of the loop is a run of the session on its label.\<close>

lemma merge_step_session:
  assumes "merge_step c lbl c'"
  shows "\<exists>outs. session_run lbl (msession c) = Some (msession c', outs)
    \<and> (if running c then delivers c outs c' else outs = [] \<and> sentMsgs c' = sentMsgs c \<and> \<not> running c')"
  using assms
proof cases
  case (step_child i msg brk)
  then obtain s' outs where p: "processResponse msg i (msession c) = Some (s', outs)"
    "c' = sendAll brk outs (c\<lparr>msession := s'\<rparr>)" by (auto simp: serve_child_def split: option.splits)
  have "delivers (c\<lparr>msession := s'\<rparr>) outs c'"
    unfolding p(2) using step_child(2) by (intro delivers_sendAll) (simp add: running_def)
  then have "delivers c outs c'" by (rule delivers_cong) simp
  with p step_child(1,2) show ?thesis by (simp add: session_step_def)
next
  case (step_client msg slow brks lost)
  with serve_client_steps[of c msg slow brks lost c'] show ?thesis by simp
next
  case (step_child_closed i brk)
  with retire_step[of c i brk] show ?thesis by auto
qed (auto simp: delivers_def running_def)

section \<open>The channels of the children\<close>

definition chan_step :: "ClientMsg list option \<Rightarrow> ClientMsg list option \<Rightarrow> bool" where
  "chan_step ch ch' \<longleftrightarrow> (ch' = None \<longleftrightarrow> ch = None)
     \<and> (\<forall>b b'. ch = Some b \<longrightarrow> ch' = Some b' \<longrightarrow> length b \<le> defaultChildRecvBuffer \<longrightarrow> length b' \<le> defaultChildRecvBuffer)"

lemma chan_step_simps [simp]:
  "chan_step None None" "chan_step (Some b) (Some b)"
  "length b < defaultChildRecvBuffer \<Longrightarrow> chan_step (Some b) (Some (b @ [m]))"
  "chan_step (Some b) (Some (drop (Suc k) b @ [m]))"
  by (auto simp: chan_step_def defaultChildRecvBuffer_def)

lemma chan_step_refl: "chan_step ch ch"
  by (cases ch) auto

lemma broadcast_event_chans: "list_all2 chan_step chs (fst (broadcast_event msg chs))"
  by (induction msg chs rule: broadcast_event.induct) (auto simp: Let_def split_beta split: option.splits)

lemma broadcast_control_chans: "list_all2 chan_step chs (fst (broadcast_control slow k msg chs))"
  by (induction slow k msg chs rule: broadcast_control.induct)
    (auto simp: Let_def split_beta chan_step_refl list_all2_refl split: slow_path.splits)

lemma broadcast_control_dead:
  "i \<in> set (fst (snd (broadcast_control slow k msg chs))) \<Longrightarrow> k \<le> i \<and> i < k + length chs \<and> chs ! (i - k) \<noteq> None"
proof (induction slow k msg chs rule: broadcast_control.induct)
  case (2 slow k msg chs)
  then show ?case by (auto simp: Let_def split_beta nth_Cons' Suc_le_eq)
next
  case (3 slow k msg buf chs)
  show ?case
  proof (cases "i = k")
    case False
    with 3 show ?thesis
      by (cases "slow k") (auto simp: Let_def split_beta nth_Cons' Suc_le_eq split: if_splits)
  qed simp
qed simp

text \<open>A control message reaches every live child, or the child is reported as dead.\<close>

lemma broadcast_control_reaches:
  assumes "\<not> snd (snd (broadcast_control slow k msg chs))" "j < length chs" "chs ! j = Some b"
  shows "k + j \<in> set (fst (snd (broadcast_control slow k msg chs)))
    \<or> (\<exists>b'. fst (broadcast_control slow k msg chs) ! j = Some (b' @ [msg]))"
  using assms
proof (induction slow k msg chs arbitrary: j rule: broadcast_control.induct)
  case (2 slow k msg chs)
  then show ?case by (cases j) (auto simp: Let_def split_beta)
next
  case (3 slow k msg buf chs)
  note IH = 3(1-3)
  show ?case
  proof (cases j)
    case 0
    with 3(4-) show ?thesis by (cases "slow k") (auto simp: Let_def split_beta split: if_splits)
  next
    case (Suc j')
    with 3(4-) IH(1)[of j'] IH(2)[of _ j'] IH(3)[of j'] show ?thesis
      by (cases "slow k") (auto simp: Let_def split_beta split: if_splits)
  qed
qed simp

text \<open>What a step of the loop does to the channels.\<close>

definition chans_step :: "merge_conn \<Rightarrow> merge_conn \<Rightarrow> bool" where
  "chans_step c c' \<longleftrightarrow> length (childRecvs c') = length (childRecvs c)
     \<and> (\<forall>i<length (childRecvs c). (childRecvs c ! i = None \<longrightarrow> childRecvs c' ! i = None)
          \<and> (\<forall>b b'. childRecvs c ! i = Some b \<longrightarrow> childRecvs c' ! i = Some b' \<longrightarrow>
                length b \<le> defaultChildRecvBuffer \<longrightarrow> length b' \<le> defaultChildRecvBuffer))"

lemma chans_step_refl: "childRecvs c' = childRecvs c \<Longrightarrow> chans_step c c'"
  by (auto simp: chans_step_def)

lemma chans_step_trans:
  assumes "chans_step a b" "chans_step b c"
  shows "chans_step a c"
proof -
  have len: "length (childRecvs c) = length (childRecvs a)" "length (childRecvs b) = length (childRecvs a)"
    using assms by (simp_all add: chans_step_def)
  have none: "childRecvs c ! i = None" if "i < length (childRecvs a)" "childRecvs a ! i = None" for i
    using assms that by (simp add: chans_step_def)
  have "length y \<le> defaultChildRecvBuffer"
    if i: "i < length (childRecvs a)" and x: "childRecvs a ! i = Some x" "childRecvs c ! i = Some y"
      "length x \<le> defaultChildRecvBuffer" for i x y
  proof -
    obtain z where z: "childRecvs b ! i = Some z"
    proof (cases "childRecvs b ! i")
      case None
      then have "childRecvs c ! i = None" using assms(2) i len by (simp add: chans_step_def)
      with x show ?thesis by simp
    qed
    have "length z \<le> defaultChildRecvBuffer" using assms(1) i x z unfolding chans_step_def by blast
    then show ?thesis using assms(2) i len x z unfolding chans_step_def by (metis (no_types))
  qed
  with len none show ?thesis by (simp add: chans_step_def)
qed

lemma broadcastAll_chans:
  assumes "broadcastAll slow msg c = (c', dead, cancelled)"
  shows "chans_step c c'" "i \<in> set dead \<Longrightarrow> live_child i c"
proof -
  have "list_all2 chan_step (childRecvs c) (childRecvs c')"
    using assms broadcast_event_chans[of "childRecvs c" msg] broadcast_control_chans[of "childRecvs c" slow 0 msg]
    by (auto simp: broadcastAll_def split: prod.splits if_splits)
  then show "chans_step c c'" by (auto simp: chans_step_def list_all2_conv_all_nth chan_step_def)
  show "i \<in> set dead \<Longrightarrow> live_child i c"
    using assms broadcast_control_dead[of i slow 0 msg "childRecvs c"]
    by (auto simp: broadcastAll_def live_child_def split: prod.splits if_splits)
qed

lemma retire_chans: "chans_step c (retire i brk c)"
  by (cases "i < length (childRecvs c)")
    (auto simp: retire_def chans_step_def nth_list_update list_update_beyond split_beta split: if_splits)

lemma retire_all_chans:
  "retire_all is brks c = (js, c') \<Longrightarrow> chans_step c c' \<and> set js \<subseteq> set is"
proof (induction "is" arbitrary: c js)
  case (Cons i "is")
  then show ?case
    using retire_chans[of c i "brks i"] by (fastforce simp: Let_def split: if_splits prod.splits intro: chans_step_trans)
qed (simp add: chans_step_refl)

lemma serve_client_chans:
  assumes "serve_client msg slow brks c = Some (lost, c')"
  shows "chans_step c c'" "i \<in> set lost \<Longrightarrow> live_child i c"
proof -
  obtain s' where s': "track_request msg (msession c) = Some s'"
    using assms by (auto simp: serve_client_def split: option.splits)
  obtain c1 dead cancelled where b: "broadcastAll slow msg (c\<lparr>msession := s'\<rparr>) = (c1, dead, cancelled)"
    by (metis prod_cases3)
  have c1: "chans_step c c1" using broadcastAll_chans(1)[OF b] by (simp add: chans_step_def)
  have d: "i \<in> set dead \<Longrightarrow> live_child i c" using broadcastAll_chans(2)[OF b, of i] by (simp add: live_child_def)
  have "chans_step c c' \<and> (i \<in> set lost \<longrightarrow> live_child i c)"
  proof (cases cancelled)
    case True
    with assms s' b c1 show ?thesis by (auto simp: serve_client_def chans_step_def)
  next
    case False
    then have "retire_all dead brks c1 = (lost, c')" using assms s' b by (auto simp: serve_client_def)
    from retire_all_chans[OF this] c1 d show ?thesis using chans_step_trans by blast
  qed
  then show "chans_step c c'" "i \<in> set lost \<Longrightarrow> live_child i c" by auto
qed

text \<open>Only live children give inputs to the session, and a retired child stays retired.\<close>

definition input_child :: "merge_input \<Rightarrow> nat option" where
  "input_child inp = (case inp of FromClient m \<Rightarrow> None | FromChild i m \<Rightarrow> Some i | ChildLost i \<Rightarrow> Some i)"

lemma merge_step_chans:
  assumes "merge_step c lbl c'"
  shows "chans_step c c' \<and> (\<forall>inp\<in>set lbl. \<forall>i. input_child inp = Some i \<longrightarrow> live_child i c)"
  using assms
proof cases
  case (step_client msg slow brks lost)
  with serve_client_chans[OF step_client(3)] show ?thesis by (auto simp: input_child_def)
next
  case (step_child i msg brk)
  then show ?thesis
    by (auto simp: serve_child_def input_child_def intro!: chans_step_refl split: option.splits)
next
  case (step_child_closed i brk)
  then show ?thesis using retire_chans by (auto simp: input_child_def)
next
  case (step_child_reads i m buf)
  then show ?thesis by (auto simp: chans_step_def nth_list_update)
qed (auto intro: chans_step_refl)

lemma merge_run_chans:
  assumes "merge_run c tr c'"
  shows "chans_step c c' \<and> (\<forall>inp\<in>set tr. \<forall>i. input_child inp = Some i \<longrightarrow> live_child i c)"
  using assms
proof (induction rule: merge_run.induct)
  case (run_step c tr c' lbl c'')
  have "live_child i c" if "live_child i c'" for i
    using that run_step.IH by (auto simp: live_child_def chans_step_def)
  with run_step merge_step_chans[OF run_step(2)] show ?case by (auto intro: chans_step_trans)
qed (simp add: chans_step_refl)

lemma merge_run_session:
  assumes "merge_run c tr c'" "running c"
  shows "\<exists>outs. session_run tr (msession c) = Some (msession c', outs) \<and> delivers c outs c'"
  using assms
proof (induction rule: merge_run.induct)
  case (run_step c tr c' lbl c'')
  then obtain o1 where o1: "session_run tr (msession c) = Some (msession c', o1)" "delivers c o1 c'" by blast
  obtain o2 where o2: "session_run lbl (msession c') = Some (msession c'', o2)"
    "if running c' then delivers c' o2 c'' else o2 = [] \<and> sentMsgs c'' = sentMsgs c' \<and> \<not> running c''"
    using merge_step_session[OF run_step(2)] by blast
  have "delivers c (o1 @ o2) c''"
  proof (cases "running c'")
    case True
    with o1 o2 show ?thesis using delivers_trans by simp
  next
    case False
    with o1 o2 show ?thesis by (auto simp: delivers_def)
  qed
  with o1(1) o2(1) show ?case by (auto simp: session_run_append)
qed (simp add: delivers_def)

lemma live_child_start [simp]: "live_child i (merge_start n) \<longleftrightarrow> i < n"
  by (auto simp: live_child_def merge_start_def)

lemma running_start [simp]: "running (merge_start n)" "msession (merge_start n) = newMergeSession n" "sentMsgs (merge_start n) = []"
  "childRecvs (merge_start n) = replicate n (Some [])"
  by (simp_all add: merge_start_def running_def)

section \<open>Properties\<close>

text \<open>C10. Whatever the children and the scheduler do, what the client has been sent is what the merge
  session answers to the requests, child messages and losses of the run, in their order: all of it
  while the loop runs, a prefix once it has stopped. So every property of session runs holds for
  the handler.\<close>

theorem merge_handler_refines_session:
  assumes "merge_run (merge_start n) tr c"
  shows "\<exists>outs. session_run tr (newMergeSession n) = Some (msession c, outs)
    \<and> prefix (sentMsgs c) outs \<and> (running c \<longrightarrow> sentMsgs c = outs)
    \<and> (\<forall>inp\<in>set tr. input_index n inp)"
proof -
  have "input_index n inp" if "inp \<in> set tr" for inp
    using merge_run_chans[OF assms] that by (cases inp) (auto simp: input_child_def)
  with merge_run_session[OF assms] show ?thesis by (auto simp: delivers_def)
qed

lemma merge_run_stepI: "merge_run c tr c' \<Longrightarrow> merge_step c' lbl c'' \<Longrightarrow> tr' = tr @ lbl \<Longrightarrow> merge_run c tr' c''"
  using run_step by blast

lemma merge_handler_refines_session_witness:
  "\<exists>c outs. merge_run (merge_start 2) [FromClient (client_count ''s'' []), ChildLost 1, FromChild 0 (NewServerCountMsg ''s'' 7 None)] c
     \<and> session_run [FromClient (client_count ''s'' []), ChildLost 1, FromChild 0 (NewServerCountMsg ''s'' 7 None)]
         (newMergeSession 2) = Some (msession c, outs) \<and> sentMsgs c = outs"
proof -
  let ?m = "client_count ''s'' []" and ?a = "NewServerCountMsg ''s'' 7 None"
  obtain c1 where c1: "serve_client ?m (\<lambda>_. SlowTimeout) (\<lambda>_. None) (merge_start 2) = Some ([], c1)"
    and f1: "running c1" "live_child 1 c1" "live_child 0 c1"
    by (simp add: serve_client_def track_request_def broadcastAll_def startCountResponse_def merge_start_def
        replicate_2 defaultChildRecvBuffer_def running_def live_child_def)
  let ?c2 = "retire 1 None c1"
  have f2: "running ?c2" "live_child 0 ?c2"
    using f1 by (auto simp: retire_def running_def live_child_def sendAll_def split: prod.splits)
  obtain c3 where c3: "serve_child 0 ?a None ?c2 = Some c3"
    by (cases "processResponse ?a 0 (msession ?c2)") (auto simp: serve_child_def processResponse_def split: prod.splits)
  have r3: "running c3" using c3 f2(1) by (auto simp: serve_child_def running_def sendAll_def split: option.splits)
  have "merge_run (merge_start 2) [FromClient ?m, ChildLost 1, FromChild 0 ?a] c3"
    by (rule merge_run_stepI[OF merge_run_stepI[OF merge_run_stepI[OF run_refl step_client[OF _ c1]]
          step_child_closed[OF f1(1,2)]] step_child[OF f2 c3]]) simp_all
  with merge_handler_refines_session[OF this] r3 show ?thesis by blast
qed

text \<open>C11. Once a child has been lost, no EVENT submitted afterwards is ever answered, although every
  other child may answer: the new entry waits for the lost child, and nothing tells the session
  again that it is gone.\<close>

theorem merge_lost_child_blocks_ok:
  assumes "merge_run (merge_start n) tr c" "running c" "i < n" "childRecvs c ! i = None"
    and "merge_run c (FromClient (client_event e) # tr') c'" "\<forall>inp\<in>set tr'. \<not> is_event_req (ID e) inp"
  shows "\<exists>part. sentMsgs c' = sentMsgs c @ part \<and> ok_msgs (ID e) part = []"
proof -
  obtain o1 where s: "session_run tr (newMergeSession n) = Some (msession c, o1)"
    using merge_handler_refines_session[OF assms(1)] by blast
  have keys: "session_keys (msession c)" and num: "numHandlers (msession c) = n"
    using session_run_views[OF session_keys_new s] by auto
  have len: "length (childRecvs c) = n" using merge_run_chans[OF assms(1)] by (simp add: chans_step_def)
  obtain outs where outs: "session_run (FromClient (client_event e) # tr') (msession c) = Some (msession c', outs)"
    "delivers c outs c'" using merge_run_session[OF assms(5,2)] by blast
  have live: "live_child j c" if "inp \<in> set tr'" "input_child inp = Some j" for inp j
    using merge_run_chans[OF assms(5)] that by auto
  have "input_index n inp" if tr: "inp \<in> set tr'" for inp
    using live[OF tr] len by (cases inp) (simp_all add: input_child_def live_child_def)
  then have idx: "\<forall>inp\<in>set tr'. input_index (numHandlers (msession c)) inp \<and> \<not> is_event_req (ID e) inp"
    using assms(6) num by simp
  have "input_child inp \<noteq> Some i" if "inp \<in> set tr'" for inp
    using live[OF that, of i] assms(4) by (auto simp: live_child_def)
  then have "ok_of_child (ID e) i tr' = None"
  proof (induction tr')
    case (Cons inp tr')
    then have "ok_of_child (ID e) i tr' = None" "input_child inp \<noteq> Some i" by auto
    then show ?case by (cases inp) (auto simp: ok_of_child_def ok_answers_def input_child_def)
  qed (simp add: ok_of_child_def ok_answers_def)
  then have none: "ok_msgs (ID e) outs = []"
    using event_request_run[OF outs(1) keys _ idx] assms(3) num by auto
  obtain part where part: "sentMsgs c' = sentMsgs c @ part" "prefix part outs"
    using outs(2) by (auto simp: delivers_def)
  then obtain rest where "outs = part @ rest" by (auto elim: prefixE)
  with none part show ?thesis by auto
qed

lemma merge_lost_child_blocks_ok_witness:
  "\<exists>c c' part. merge_run (merge_start 2) [ChildLost 1] c
     \<and> merge_run c [FromClient (client_event (mk_event ''a'' ''p'' 1 1 [])), FromChild 0 (NewServerOKMsg ''a'' True '''')] c'
     \<and> sentMsgs c' = sentMsgs c @ part \<and> ok_msgs ''a'' part = []"
proof -
  let ?e = "mk_event ''a'' ''p'' 1 1 []" and ?ok = "NewServerOKMsg ''a'' True ''''"
  let ?m = "client_event ?e" and ?c = "retire 1 None (merge_start 2)"
  have c: "running ?c" "live_child 0 ?c" "childRecvs ?c ! 1 = None"
    by (auto simp: retire_def running_def live_child_def sendAll_def merge_start_def split: prod.splits)
  have r1: "merge_run (merge_start 2) [ChildLost 1] ?c"
    by (rule merge_run_stepI[OF run_refl step_child_closed]) simp_all
  obtain lost c1 where c1: "serve_client ?m (\<lambda>_. SlowTimeout) (\<lambda>_. None) ?c = Some (lost, c1)"
    by (simp add: serve_client_def track_request_def broadcastAll_def split_beta)
  have lost: "lost = []" using c1 by (simp add: serve_client_def track_request_def broadcastAll_def split_beta)
  have f1: "running c1" "live_child 0 c1"
    using c1 c(1) by (auto simp: serve_client_def track_request_def broadcastAll_def running_def live_child_def
        retire_def merge_start_def replicate_2 defaultChildRecvBuffer_def split: prod.splits)
  obtain c2 where c2: "serve_child 0 ?ok None c1 = Some c2"
    by (cases "processResponse ?ok 0 (msession c1)") (auto simp: serve_child_def processResponse_def split: prod.splits)
  have r2: "merge_run ?c (FromClient ?m # [FromChild 0 ?ok]) c2"
    by (rule merge_run_stepI[OF merge_run_stepI[OF run_refl step_client[OF c(1) c1]] step_child[OF f1 c2]])
      (simp_all add: lost)
  obtain part where "sentMsgs c2 = sentMsgs ?c @ part \<and> ok_msgs (ID ?e) part = []"
    using merge_lost_child_blocks_ok[OF r1 c(1) _ c(3) r2] by (auto simp: is_event_req_def)
  with r1 r2 show ?thesis by (intro exI[of _ ?c] exI[of _ c2] exI[of _ part]) (simp add: mk_event_def)
qed

text \<open>A control message (REQ, COUNT, CLOSE) is never dropped silently: unless the context is
  cancelled, every live child has it as the last message of its channel or is reported as dead.\<close>

theorem merge_control_reaches_or_dead:
  assumes "broadcastAll slow msg c = (c', dead, False)" "CType msg \<noteq> MsgTypeEvent" "live_child i c"
  shows "i \<in> set dead \<or> (\<exists>buf. childRecvs c' ! i = Some (buf @ [msg]))"
  using assms broadcast_control_reaches[of slow 0 msg "childRecvs c" i]
  by (auto simp: broadcastAll_def live_child_def split: prod.splits)

lemma merge_control_reaches_or_dead_witness:
  "\<exists>c' dead. broadcastAll (\<lambda>_. SlowTimeout) (client_close ''s'') (merge_start 1) = (c', dead, False)
     \<and> (0 \<in> set dead \<or> (\<exists>buf. childRecvs c' ! 0 = Some (buf @ [client_close ''s''])))"
proof -
  obtain c' dead where b: "broadcastAll (\<lambda>_. SlowTimeout) (client_close ''s'') (merge_start 1) = (c', dead, False)"
    by (simp add: broadcastAll_def merge_start_def defaultChildRecvBuffer_def)
  from b merge_control_reaches_or_dead[OF b, of 0] show ?thesis by simp
qed

text \<open>An EVENT that finds a child's channel full is not queued and the child is not reported as
  dead: nothing reaches the session, so no rejection tells the client of the loss.\<close>

theorem merge_full_channel_drops_event:
  assumes "CType msg = MsgTypeEvent" "i < length (childRecvs c)" "childRecvs c ! i = Some buf"
    "length buf \<ge> defaultChildRecvBuffer"
  shows "\<exists>c'. broadcastAll slow msg c = (c', [], False) \<and> childRecvs c' ! i = Some buf
    \<and> msession c' = msession c \<and> sentMsgs c' = sentMsgs c \<and> recvBufFull c' > recvBufFull c"
proof -
  have "fst (broadcast_event msg chs) ! i = Some buf \<and> snd (broadcast_event msg chs) > 0"
    if "i < length chs" "chs ! i = Some buf" for chs
    using that assms(4)
  proof (induction chs arbitrary: i)
    case (Cons ch chs)
    then show ?case by (cases i) (auto simp: Let_def split_beta split: option.splits)
  qed simp
  with assms(1-3) show ?thesis by (fastforce simp: broadcastAll_def split: prod.splits)
qed

lemma merge_full_channel_drops_event_witness:
  "\<exists>c'. broadcastAll (\<lambda>_. SlowTimeout) (client_event (mk_event ''a'' ''p'' 1 1 []))
      ((merge_start 1)\<lparr>childRecvs := [Some (replicate 10 (client_close ''s''))]\<rparr>) = (c', [], False)
    \<and> recvBufFull c' > 0"
  using merge_full_channel_drops_event[of "client_event (mk_event ''a'' ''p'' 1 1 [])" 0
      "(merge_start 1)\<lparr>childRecvs := [Some (replicate 10 (client_close ''s''))]\<rparr>" "replicate 10 (client_close ''s'')"]
  by (auto simp: defaultChildRecvBuffer_def merge_start_def)

text \<open>The channel of a child never holds more than its capacity.\<close>

theorem merge_channels_bounded:
  assumes "merge_run (merge_start n) tr c" "i < n" "childRecvs c ! i = Some buf"
  shows "length buf \<le> defaultChildRecvBuffer"
proof -
  have "chans_step (merge_start n) c" using merge_run_chans[OF assms(1)] by blast
  then show ?thesis using assms(2,3) unfolding chans_step_def by (auto simp: defaultChildRecvBuffer_def)
qed

lemma merge_channels_bounded_witness: "length ([] :: ClientMsg list) \<le> defaultChildRecvBuffer"
  by (rule merge_channels_bounded[OF run_refl, of 0 1]) simp_all

end
