(* ===== verification/Answering.thy ===== *)
theory Answering
  imports Message
begin

text \<open>
  The contract of a handler that answers requests itself: for every well-formed EVENT, REQ or COUNT
  it sends exactly one terminal answer that names the request, preceded only by the stored events
  of a REQ, and nothing for a CLOSE. The merge handler waits for these answers. The contract is a
  locale; the nop, router and storage handlers are its interpretations.
\<close>

definition expects_answer :: "ClientMsg \<Rightarrow> bool" where
  "expects_answer c \<longleftrightarrow> CType c = MsgTypeEvent \<and> CEvent c \<noteq> None
     \<or> (CType c = MsgTypeReq \<or> CType c = MsgTypeCount) \<and> CSubscriptionID c \<noteq> ''''"

definition terminal_answer :: "ClientMsg \<Rightarrow> ServerMsg \<Rightarrow> bool" where
  "terminal_answer c m =
     (if CType c = MsgTypeEvent then SType m = MsgTypeOK \<and> map_option ID (CEvent c) = Some (SEventID m)
      else if CType c = MsgTypeReq then (SType m = MsgTypeEOSE \<or> SType m = MsgTypeClosed) \<and> SSubscriptionID m = CSubscriptionID c
      else if CType c = MsgTypeCount then (SType m = MsgTypeCount \<or> SType m = MsgTypeClosed) \<and> SSubscriptionID m = CSubscriptionID c
      else False)"

definition stored_event_of :: "ClientMsg \<Rightarrow> ServerMsg \<Rightarrow> bool" where
  "stored_event_of c m \<longleftrightarrow> CType c = MsgTypeReq \<and> SType m = MsgTypeEvent \<and> SSubscriptionID m = CSubscriptionID c"

fun serve_all :: "('s \<Rightarrow> ClientMsg \<Rightarrow> 's \<times> ServerMsg list) \<Rightarrow> 's \<Rightarrow> ClientMsg list \<Rightarrow> 's \<times> ServerMsg list" where
  "serve_all serve s [] = (s, [])"
| "serve_all serve s (c # cs) =
     (case serve s c of (s', out) \<Rightarrow> (case serve_all serve s' cs of (s'', outs) \<Rightarrow> (s'', out @ outs)))"

definition is_terminal :: "ServerMsg \<Rightarrow> bool" where
  "is_terminal m \<longleftrightarrow> SType m = MsgTypeOK \<or> SType m = MsgTypeEOSE \<or> SType m = MsgTypeClosed \<or> SType m = MsgTypeCount"

lemma terminal_answer_terminal: "terminal_answer c m \<Longrightarrow> is_terminal m"
  by (auto simp: terminal_answer_def is_terminal_def split: if_splits)

lemma stored_event_not_terminal: "stored_event_of c m \<Longrightarrow> \<not> is_terminal m"
  by (auto simp: stored_event_of_def is_terminal_def)

locale answering =
  fixes serve :: "'s \<Rightarrow> ClientMsg \<Rightarrow> 's \<times> ServerMsg list" and ok :: "'s \<Rightarrow> bool"
  assumes serve_ok: "ok s \<Longrightarrow> ok (fst (serve s c))"
    and answers: "ok s \<Longrightarrow> expects_answer c \<Longrightarrow>
      \<exists>evs m. snd (serve s c) = evs @ [m] \<and> terminal_answer c m \<and> (\<forall>x\<in>set evs. stored_event_of c x)"
    and close_silent: "ok s \<Longrightarrow> CType c = MsgTypeClose \<Longrightarrow> snd (serve s c) = []"
begin

lemma one_terminal:
  assumes "ok s" "expects_answer c \<or> CType c = MsgTypeClose"
  shows "length (filter is_terminal (snd (serve s c))) = (if expects_answer c then 1 else 0)"
proof (cases "expects_answer c")
  case True
  then obtain evs m where "snd (serve s c) = evs @ [m]" "terminal_answer c m" "\<forall>x\<in>set evs. stored_event_of c x"
    using answers[OF assms(1)] by blast
  then show ?thesis using True stored_event_not_terminal terminal_answer_terminal
    by (auto simp: filter_empty_conv)
next
  case False
  with assms close_silent show ?thesis by simp
qed

theorem one_terminal_per_request:
  assumes "ok s" "\<forall>c\<in>set cs. expects_answer c \<or> CType c = MsgTypeClose"
  shows "length (filter is_terminal (snd (serve_all serve s cs))) = length (filter expects_answer cs)"
  using assms
proof (induction cs arbitrary: s)
  case (Cons c cs)
  have "ok (fst (serve s c))" using Cons.prems(1) by (rule serve_ok)
  with Cons.IH[of "fst (serve s c)"] Cons.prems one_terminal[of s c] show ?case by (simp add: split_beta)
qed simp

end

section \<open>The nop handler\<close>

text \<open>What \<^verbatim>\<open>nopHandler.ServeNostr\<close> sends for one message, the context being live.\<close>

definition nop_reply :: "ClientMsg \<Rightarrow> ServerMsg list" where
  "nop_reply msg =
     (if CType msg = MsgTypeEvent then
        (case CEvent msg of None \<Rightarrow> [] | Some e \<Rightarrow> [NewServerOKMsg (ID e) True ''''])
      else if CType msg = MsgTypeReq then [NewServerEOSEMsg (CSubscriptionID msg)]
      else if CType msg = MsgTypeClose then []
      else if CType msg = MsgTypeCount then [NewServerCountMsg (CSubscriptionID msg) 0 None]
      else [])"

definition nop_serve :: "unit \<Rightarrow> ClientMsg \<Rightarrow> unit \<times> ServerMsg list" where
  "nop_serve u msg = (u, nop_reply msg)"

interpretation nop: answering nop_serve "\<lambda>_. True"
  by unfold_locales
    (auto simp: nop_serve_def nop_reply_def expects_answer_def terminal_answer_def split: option.splits)

text \<open>The nop handler answers every well-formed request of a connection with exactly one terminal
  message (OK, EOSE, COUNT or CLOSED) and answers nothing else.\<close>

theorem nop_one_terminal_per_request:
  assumes "\<forall>c\<in>set cs. expects_answer c \<or> CType c = MsgTypeClose"
  shows "length (filter is_terminal (snd (serve_all nop_serve () cs))) = length (filter expects_answer cs)"
  using nop.one_terminal_per_request assms by blast

end
