(* ===== verification/Router.thy ===== *)
theory Router
  imports Req_Filter Answering
begin

text \<open>
  The \<^verbatim>\<open>Router\<close> of \<^verbatim>\<open>router.go\<close> and the handler of \<^verbatim>\<open>router_handler.go\<close>: connections with their
  subscriptions, and the best-effort broadcast of an event to every matching subscription.

  Go maps are association lists here, the list being the iteration order of the broadcast. A send
  channel is a number; \<open>room ch\<close> is how many messages channel \<open>ch\<close> takes without blocking during
  one broadcast (free buffer slots and waiting receivers), a choice of the environment.
  \<open>SubscriptionsCurrent\<close> and \<open>MessagesDropped\<close> are the two metrics of the router.
\<close>

section \<open>Connection identifiers\<close>

function uitoa_digits :: "64 word \<Rightarrow> string \<Rightarrow> string" where
  "uitoa_digits val buf =
     (if val = 0 then buf else uitoa_digits (val div 10) (digit (unat (val mod 10)) # buf))"
  by auto
termination
proof (relation "measure (\<lambda>(val, buf). unat val)")
  fix val :: "64 word" assume "val \<noteq> 0"
  then have "0 < unat val" by (simp add: unat_gt_0)
  moreover have "unat (val div 10) = unat val div 10" by (simp add: unat_div)
  ultimately show "((val div 10, digit (unat (val mod 10)) # buf), val, buf) \<in> measure (\<lambda>(val, buf). unat val)" for buf
    by simp
qed simp

declare uitoa_digits.simps [simp del]

definition uitoa :: "64 word \<Rightarrow> string" where
  "uitoa val = (if val = 0 then ''0'' else uitoa_digits val '''')"

definition formatConnID :: "64 word \<Rightarrow> string" where
  "formatConnID i = ''conn-'' @ uitoa i"

section \<open>State\<close>

record routerConnection =
  sendCh :: nat
  subscriptions :: "(string \<times> ReqFilter list) list"

record Router =
  nextConnID :: "64 word"
  connections :: "(string \<times> routerConnection) list"
  SubscriptionsCurrent :: int
  MessagesDropped :: nat

definition NewRouter :: Router where
  "NewRouter = \<lparr>nextConnID = 0, connections = [], SubscriptionsCurrent = 0, MessagesDropped = 0\<rparr>"

section \<open>Operations\<close>

definition Register :: "nat \<Rightarrow> Router \<Rightarrow> Router \<times> string" where
  "Register ch r =
     (let n = nextConnID r + 1; connID = formatConnID n
      in (r\<lparr>nextConnID := n,
            connections := AList.update connID \<lparr>sendCh = ch, subscriptions = []\<rparr> (connections r)\<rparr>, connID))"

definition Unregister :: "string \<Rightarrow> Router \<Rightarrow> Router" where
  "Unregister connID r =
     (case map_of (connections r) connID of
        None \<Rightarrow> r
      | Some conn \<Rightarrow>
          r\<lparr>SubscriptionsCurrent :=
              (if length (subscriptions conn) > 0 then SubscriptionsCurrent r - int (length (subscriptions conn))
               else SubscriptionsCurrent r),
            connections := AList.delete connID (connections r)\<rparr>)"

definition Subscribe :: "string \<Rightarrow> string \<Rightarrow> ReqFilter list \<Rightarrow> Router \<Rightarrow> Router" where
  "Subscribe connID subID filters r =
     (case map_of (connections r) connID of
        None \<Rightarrow> r
      | Some conn \<Rightarrow>
          let existed = (map_of (subscriptions conn) subID \<noteq> None);
              conn' = conn\<lparr>subscriptions := AList.update subID filters (subscriptions conn)\<rparr>
          in r\<lparr>connections := AList.update connID conn' (connections r),
               SubscriptionsCurrent := (if \<not> existed then SubscriptionsCurrent r + 1 else SubscriptionsCurrent r)\<rparr>)"

definition Unsubscribe :: "string \<Rightarrow> string \<Rightarrow> Router \<Rightarrow> Router" where
  "Unsubscribe connID subID r =
     (case map_of (connections r) connID of
        None \<Rightarrow> r
      | Some conn \<Rightarrow>
          if map_of (subscriptions conn) subID \<noteq> None then
            r\<lparr>connections := AList.update connID
                 (conn\<lparr>subscriptions := AList.delete subID (subscriptions conn)\<rparr>) (connections r),
              SubscriptionsCurrent := SubscriptionsCurrent r - 1\<rparr>
          else r)"

text \<open>The loops of \<^verbatim>\<open>Broadcast\<close>: the deliveries, the number of drops and the room left.\<close>

type_synonym delivery = "nat \<times> ServerMsg"

fun broadcast_subs ::
  "Event \<Rightarrow> nat \<Rightarrow> (string \<times> ReqFilter list) list \<Rightarrow> (nat \<Rightarrow> nat) \<Rightarrow> delivery list \<times> nat \<times> (nat \<Rightarrow> nat)" where
  "broadcast_subs event ch [] room = ([], 0, room)"
| "broadcast_subs event ch ((subID, filters) # subs) room =
     (if matchesAny filters event then
        (if room ch > 0 then
           (let (out, drops, room') = broadcast_subs event ch subs (room(ch := room ch - 1))
            in ((ch, NewServerEventMsg subID event) # out, drops, room'))
         else
           (let (out, drops, room') = broadcast_subs event ch subs room in (out, drops + 1, room')))
      else broadcast_subs event ch subs room)"

fun broadcast_conns ::
  "Event \<Rightarrow> (string \<times> routerConnection) list \<Rightarrow> (nat \<Rightarrow> nat) \<Rightarrow> delivery list \<times> nat \<times> (nat \<Rightarrow> nat)" where
  "broadcast_conns event [] room = ([], 0, room)"
| "broadcast_conns event ((connID, conn) # conns) room =
     (let (out1, d1, room1) = broadcast_subs event (sendCh conn) (subscriptions conn) room;
          (out2, d2, room2) = broadcast_conns event conns room1
      in (out1 @ out2, d1 + d2, room2))"

definition Broadcast :: "(nat \<Rightarrow> nat) \<Rightarrow> Event \<Rightarrow> Router \<Rightarrow> Router \<times> delivery list" where
  "Broadcast room event r =
     (let (out, drops, room') = broadcast_conns event (connections r) room
      in (r\<lparr>MessagesDropped := MessagesDropped r + drops\<rparr>, out))"

section \<open>The subscription table\<close>

definition subs_of :: "Router \<Rightarrow> string \<Rightarrow> string \<Rightarrow> ReqFilter list option" where
  "subs_of r connID subID = Option.bind (map_of (connections r) connID) (\<lambda>conn. map_of (subscriptions conn) subID)"

definition registered :: "Router \<Rightarrow> string \<Rightarrow> bool" where
  "registered r connID \<longleftrightarrow> map_of (connections r) connID \<noteq> None"

text \<open>What the handlers rely on, whatever the representation of the table.\<close>

locale subscription_table =
  fixes subscribe :: "string \<Rightarrow> string \<Rightarrow> ReqFilter list \<Rightarrow> 'r \<Rightarrow> 'r"
    and unsubscribe :: "string \<Rightarrow> string \<Rightarrow> 'r \<Rightarrow> 'r"
    and unregister :: "string \<Rightarrow> 'r \<Rightarrow> 'r"
    and lookup :: "'r \<Rightarrow> string \<Rightarrow> string \<Rightarrow> ReqFilter list option"
    and known :: "'r \<Rightarrow> string \<Rightarrow> bool"
  assumes known_subscribe: "known (subscribe c s fs r) c' = known r c'"
    and known_unsubscribe: "known (unsubscribe c s r) c' = known r c'"
    and lookup_subscribe: "lookup (subscribe c s fs r) c' s' =
      (if known r c \<and> c' = c \<and> s' = s then Some fs else lookup r c' s')"
    and lookup_unsubscribe: "lookup (unsubscribe c s r) c' s' = (if c' = c \<and> s' = s then None else lookup r c' s')"
    and known_unregister: "known (unregister c r) c' \<longleftrightarrow> c' \<noteq> c \<and> known r c'"
    and lookup_unregister: "lookup (unregister c r) c' s' = (if c' = c then None else lookup r c' s')"
    and lookup_known: "lookup r c s \<noteq> None \<Longrightarrow> known r c"
begin

lemma subscribe_twice: "lookup (subscribe c s fs' (subscribe c s fs r)) = lookup (subscribe c s fs' r)"
  by (intro ext) (simp add: lookup_subscribe known_subscribe)

lemma subscribe_unsubscribe: "lookup r c s = None \<Longrightarrow> lookup (unsubscribe c s (subscribe c s fs r)) = lookup r"
  by (intro ext) (auto simp: lookup_subscribe lookup_unsubscribe)

lemma subscribe_commute:
  "(c, s) \<noteq> (c', s') \<Longrightarrow>
    lookup (subscribe c s fs (subscribe c' s' fs' r)) = lookup (subscribe c' s' fs' (subscribe c s fs r))"
  by (intro ext) (auto simp: lookup_subscribe known_subscribe)

lemma unregister_clears: "lookup (subscribe c s fs (unregister c r)) c s' = None"
  by (simp add: lookup_subscribe known_unregister lookup_unregister)

end

section \<open>The router is a subscription table\<close>

definition router_keys :: "Router \<Rightarrow> bool" where
  "router_keys r \<longleftrightarrow> distinct (map fst (connections r))
     \<and> (\<forall>(k, conn) \<in> set (connections r). distinct (map fst (subscriptions conn)))"

lemmas router_ops = Unregister_def Subscribe_def Unsubscribe_def Let_def

lemma subs_of_Subscribe:
  "subs_of (Subscribe c s fs r) c' s' = (if registered r c \<and> c' = c \<and> s' = s then Some fs else subs_of r c' s')"
  by (auto simp: subs_of_def registered_def router_ops update_conv' split: option.splits)

lemma subs_of_Unsubscribe:
  "subs_of (Unsubscribe c s r) c' s' = (if c' = c \<and> s' = s then None else subs_of r c' s')"
  by (auto simp: subs_of_def router_ops update_conv' delete_conv' split: option.splits)

lemma subs_of_Unregister: "subs_of (Unregister c r) c' s' = (if c' = c then None else subs_of r c' s')"
  by (auto simp: subs_of_def router_ops delete_conv' split: option.splits)

lemma registered_simps [simp]:
  "registered (Subscribe c s fs r) c' = registered r c'"
  "registered (Unsubscribe c s r) c' = registered r c'"
  "registered (Unregister c r) c' \<longleftrightarrow> c' \<noteq> c \<and> registered r c'"
  by (auto simp: registered_def router_ops update_conv' delete_conv' split: option.splits)

interpretation table: subscription_table Subscribe Unsubscribe Unregister subs_of registered
proof unfold_locales
  show "subs_of r c s \<noteq> None \<Longrightarrow> registered r c" for r c s
    by (auto simp: subs_of_def registered_def bind_eq_Some_conv)
qed (simp_all add: subs_of_Subscribe subs_of_Unsubscribe subs_of_Unregister)

section \<open>Connection identifiers are decimal\<close>

lemma uitoa_digits_nat: "val \<noteq> 0 \<Longrightarrow> uitoa_digits val buf = nat_digits (unat val) @ buf"
proof (induction val buf rule: uitoa_digits.induct)
  case (1 val buf)
  have m: "unat (val mod 10) = unat val mod 10" and d: "unat (val div 10) = unat val div 10"
    by (simp_all add: unat_mod unat_div)
  show ?case
  proof (cases "val div 10 = 0")
    case True
    then have "unat val div 10 = 0" using d by simp
    then have "unat val < 10" by simp
    with 1(2) True m show ?thesis
      by (simp add: uitoa_digits.simps[of val buf] uitoa_digits.simps[of 0] nat_digits.simps[of "unat val"])
  next
    case False
    then have "unat val div 10 \<noteq> 0" using d by (metis unat_eq_zero)
    then have "\<not> unat val < 10" by auto
    with 1 False m d show ?thesis
      by (simp add: uitoa_digits.simps[of val buf] nat_digits.simps[of "unat val"])
  qed
qed

lemma uitoa_FormatInt: "uitoa val = FormatInt (uint val)"
proof (cases "val = 0")
  case True
  then show ?thesis by (simp add: uitoa_def FormatInt_def nat_digits.simps)
next
  case False
  then show ?thesis by (simp add: uitoa_def uitoa_digits_nat FormatInt_def)
qed

lemma formatConnID_inject [simp]: "formatConnID i = formatConnID j \<longleftrightarrow> i = j"
  by (simp add: formatConnID_def uitoa_FormatInt FormatInt_inject word_uint_eq_iff)

section \<open>The invariant\<close>

definition subscription_count :: "Router \<Rightarrow> nat" where
  "subscription_count r = (\<Sum>(k, conn)\<leftarrow>connections r. length (subscriptions conn))"

text \<open>Keys are unique, the gauge counts the subscriptions, and identifiers in use were given out.\<close>

definition router_ok :: "Router \<Rightarrow> bool" where
  "router_ok r \<longleftrightarrow> router_keys r \<and> SubscriptionsCurrent r = int (subscription_count r)
     \<and> (\<forall>c. registered r c \<longrightarrow> (\<exists>i\<le>nextConnID r. c = formatConnID i))"

lemma sum_list_update:
  "distinct (map fst xs) \<Longrightarrow>
    (\<Sum>(k, v)\<leftarrow>AList.update a b xs. (f v :: nat)) + (case map_of xs a of None \<Rightarrow> 0 | Some v \<Rightarrow> f v)
      = (\<Sum>(k, v)\<leftarrow>xs. f v) + f b"
  by (induction xs) (auto split: option.splits simp: map_of_eq_None_iff rev_image_eqI)

lemma sum_list_delete:
  "distinct (map fst xs) \<Longrightarrow>
    (\<Sum>(k, v)\<leftarrow>AList.delete a xs. (f v :: nat)) + (case map_of xs a of None \<Rightarrow> 0 | Some v \<Rightarrow> f v)
      = (\<Sum>(k, v)\<leftarrow>xs. f v)"
proof (induction xs)
  case (Cons x xs)
  show ?case
  proof (cases "fst x = a")
    case True
    then have "a \<notin> fst ` set xs" using Cons.prems by auto
    then have "AList.delete a (x # xs) = xs" using True by (simp add: delete_id)
    with True show ?thesis by (cases x) simp
  qed (use Cons in \<open>cases x; auto split: option.splits\<close>)
qed simp

lemma sum_ones: "(\<Sum>(k, v)\<leftarrow>xs. Suc 0) = length xs"
  by (induction xs) auto

lemma length_delete: "distinct (map fst xs) \<Longrightarrow> map_of xs a \<noteq> None \<Longrightarrow> Suc (length (AList.delete a xs)) = length xs"
  using sum_list_delete[of xs "\<lambda>_. 1" a] by (auto simp: sum_ones split: option.splits)

lemma length_update: "distinct (map fst xs) \<Longrightarrow>
    length (AList.update a b xs) = (if map_of xs a = None then Suc (length xs) else length xs)"
  using sum_list_update[of xs "\<lambda>_. 1" a b] by (auto simp: sum_ones split: option.splits)

lemma router_keysD:
  "router_keys r \<Longrightarrow> map_of (connections r) c = Some conn \<Longrightarrow> distinct (map fst (subscriptions conn))"
  by (auto simp: router_keys_def dest!: map_of_SomeD)

lemma set_update_subset: "set (AList.update k v xs) \<subseteq> insert (k, v) (set xs)"
  by (induction xs) auto

lemma router_keys_update:
  assumes "router_keys r" "distinct (map fst (subscriptions conn))"
  shows "router_keys (r\<lparr>connections := AList.update c conn (connections r)\<rparr>)"
  using assms set_update_subset[of c conn "connections r"] by (auto simp: router_keys_def distinct_update)

lemma router_ok_Subscribe:
  assumes "router_ok r" shows "router_ok (Subscribe c s fs r)"
proof (cases "map_of (connections r) c")
  case (Some conn)
  let ?conn = "conn\<lparr>subscriptions := AList.update s fs (subscriptions conn)\<rparr>"
  have keys: "router_keys r" using assms by (simp add: router_ok_def)
  note d = router_keysD[OF keys Some]
  have "subscription_count (r\<lparr>connections := AList.update c ?conn (connections r)\<rparr>) + length (subscriptions conn)
      = subscription_count r + length (subscriptions ?conn)"
    using sum_list_update[of "connections r" "\<lambda>conn. length (subscriptions conn)" c ?conn] keys Some
    by (simp add: subscription_count_def router_keys_def)
  moreover have "router_keys (r\<lparr>connections := AList.update c ?conn (connections r)\<rparr>)"
    using router_keys_update[OF keys, of ?conn] d by (simp add: distinct_update)
  moreover have "registered (Subscribe c s fs r) c' = registered r c'" for c' by simp
  ultimately show ?thesis
    using assms Some length_update[OF d, of s fs]
    unfolding router_ok_def by (auto simp: Subscribe_def Let_def router_keys_def subscription_count_def)
qed (use assms in \<open>simp add: Subscribe_def\<close>)

lemma router_ok_Unsubscribe:
  assumes "router_ok r" shows "router_ok (Unsubscribe c s r)"
proof (cases "map_of (connections r) c")
  case (Some conn)
  let ?conn = "conn\<lparr>subscriptions := AList.delete s (subscriptions conn)\<rparr>"
  have keys: "router_keys r" using assms by (simp add: router_ok_def)
  note d = router_keysD[OF keys Some]
  have "subscription_count (r\<lparr>connections := AList.update c ?conn (connections r)\<rparr>) + length (subscriptions conn)
      = subscription_count r + length (subscriptions ?conn)"
    using sum_list_update[of "connections r" "\<lambda>conn. length (subscriptions conn)" c ?conn] keys Some
    by (simp add: subscription_count_def router_keys_def)
  moreover have "router_keys (r\<lparr>connections := AList.update c ?conn (connections r)\<rparr>)"
    using router_keys_update[OF keys, of ?conn] d by (simp add: distinct_delete)
  moreover have "registered (Unsubscribe c s r) c' = registered r c'" for c' by simp
  ultimately show ?thesis
    using assms Some length_delete[OF d, of s]
    unfolding router_ok_def by (auto simp: Unsubscribe_def Let_def router_keys_def subscription_count_def)
qed (use assms in \<open>simp add: Unsubscribe_def\<close>)

lemma set_delete_sub: "set (AList.delete k xs) \<subseteq> set xs"
  by (simp add: AList.delete_eq)

lemma router_ok_Unregister:
  assumes "router_ok r" shows "router_ok (Unregister c r)"
proof (cases "map_of (connections r) c")
  case (Some conn)
  have keys: "router_keys r" using assms by (simp add: router_ok_def)
  have "subscription_count (r\<lparr>connections := AList.delete c (connections r)\<rparr>) + length (subscriptions conn)
      = subscription_count r"
    using sum_list_delete[of "connections r" "\<lambda>conn. length (subscriptions conn)" c] keys Some
    by (simp add: subscription_count_def router_keys_def)
  moreover have "router_keys (r\<lparr>connections := AList.delete c (connections r)\<rparr>)"
    using keys set_delete_sub[of c "connections r"] by (auto simp: router_keys_def distinct_delete)
  moreover have "registered (Unregister c r) c' \<Longrightarrow> registered r c'" for c' by simp
  ultimately show ?thesis
    using assms Some
    unfolding router_ok_def by (auto simp: Unregister_def Let_def router_keys_def subscription_count_def)
qed (use assms in \<open>simp add: Unregister_def\<close>)

lemma word_less_succ:
  fixes x :: "64 word" assumes "x \<noteq> - 1" shows "x < x + 1"
proof -
  have "uint x \<noteq> 2 ^ 64 - 1"
  proof
    assume "uint x = 2 ^ 64 - 1"
    then have "x = word_of_int (2 ^ 64 - 1)" by (metis word_of_int_uint)
    with assms show False by simp
  qed
  moreover have "uint x < 2 ^ 64" using uint_bounded[of x] by simp
  ultimately have "uint x + 1 < 2 ^ 64" by simp
  then show ?thesis by (simp add: word_less_def uint_plus_if')
qed

lemma Register_fresh:
  assumes "router_ok r" "nextConnID r \<noteq> - 1"
  shows "\<not> registered r (snd (Register ch r))"
proof
  assume "registered r (snd (Register ch r))"
  then obtain i where "i \<le> nextConnID r" "nextConnID r + 1 = i"
    using assms(1) by (auto simp: router_ok_def Register_def Let_def)
  with word_less_succ[OF assms(2)] show False by simp
qed

lemma router_ok_Register:
  assumes "router_ok r" "nextConnID r \<noteq> - 1"
  shows "router_ok (fst (Register ch r))"
proof -
  let ?c = "formatConnID (nextConnID r + 1)" and ?conn = "\<lparr>sendCh = ch, subscriptions = []\<rparr>"
  have none: "map_of (connections r) ?c = None"
    using Register_fresh[OF assms, of ch] by (simp add: registered_def Register_def Let_def)
  have keys: "router_keys r" using assms by (simp add: router_ok_def)
  have "subscription_count (r\<lparr>connections := AList.update ?c ?conn (connections r)\<rparr>) = subscription_count r"
    using sum_list_update[of "connections r" "\<lambda>conn. length (subscriptions conn)" ?c ?conn] keys none
    by (simp add: subscription_count_def router_keys_def)
  moreover have "router_keys (r\<lparr>connections := AList.update ?c ?conn (connections r)\<rparr>)"
    using router_keys_update[OF keys, of ?conn] by simp
  moreover have "\<exists>i\<le>nextConnID r + 1. c = formatConnID i" if "registered (fst (Register ch r)) c" for c
  proof (cases "c = ?c")
    case False
    then have "registered r c" using that by (simp add: registered_def Register_def Let_def update_conv')
    then obtain i where "i \<le> nextConnID r" "c = formatConnID i" using assms(1) by (auto simp: router_ok_def)
    moreover have "nextConnID r \<le> nextConnID r + 1" using word_less_succ[OF assms(2)] by simp
    ultimately show ?thesis by (auto intro: order_trans)
  qed auto
  ultimately show ?thesis using assms
    unfolding router_ok_def by (auto simp: Register_def Let_def router_keys_def subscription_count_def)
qed

lemma router_ok_Broadcast: "router_ok r \<Longrightarrow> router_ok (fst (Broadcast room event r))"
  by (auto simp: router_ok_def Broadcast_def router_keys_def subscription_count_def registered_def split_beta)

section \<open>Broadcast\<close>

definition sub_candidates :: "Event \<Rightarrow> nat \<Rightarrow> (string \<times> ReqFilter list) list \<Rightarrow> delivery list" where
  "sub_candidates event ch subs =
     map (\<lambda>(subID, fs). (ch, NewServerEventMsg subID event)) (filter (\<lambda>(subID, fs). matchesAny fs event) subs)"

text \<open>One message per matching subscription, in iteration order.\<close>

definition candidates :: "Event \<Rightarrow> (string \<times> routerConnection) list \<Rightarrow> delivery list" where
  "candidates event conns = concat (map (\<lambda>(connID, conn). sub_candidates event (sendCh conn) (subscriptions conn)) conns)"

definition on_chan :: "nat \<Rightarrow> delivery list \<Rightarrow> delivery list" where
  "on_chan ch = filter (\<lambda>d. fst d = ch)"

lemma on_chan_simps [simp]:
  "on_chan ch [] = []" "on_chan ch ((c, m) # ds) = (if c = ch then (c, m) # on_chan ch ds else on_chan ch ds)"
  "on_chan ch (xs @ ys) = on_chan ch xs @ on_chan ch ys"
  by (simp_all add: on_chan_def)

lemma sub_candidates_simps [simp]:
  "sub_candidates event ch [] = []"
  "sub_candidates event ch ((s, fs) # subs) =
     (if matchesAny fs event then (ch, NewServerEventMsg s event) # sub_candidates event ch subs
      else sub_candidates event ch subs)"
  by (simp_all add: sub_candidates_def)



section \<open>Sequences of operations\<close>

datatype router_op =
    OpRegister nat | OpUnregister string | OpSubscribe string string "ReqFilter list"
  | OpUnsubscribe string string | OpBroadcast "nat \<Rightarrow> nat" Event

fun router_apply :: "Router \<Rightarrow> router_op \<Rightarrow> Router" where
  "router_apply r (OpRegister ch) = fst (Register ch r)"
| "router_apply r (OpUnregister c) = Unregister c r"
| "router_apply r (OpSubscribe c s fs) = Subscribe c s fs r"
| "router_apply r (OpUnsubscribe c s) = Unsubscribe c s r"
| "router_apply r (OpBroadcast room e) = fst (Broadcast room e r)"

definition is_register :: "router_op \<Rightarrow> bool" where
  "is_register op = (case op of OpRegister ch \<Rightarrow> True | _ \<Rightarrow> False)"

lemma nextConnID_simps [simp]:
  "nextConnID (Subscribe c s fs r) = nextConnID r" "nextConnID (Unsubscribe c s r) = nextConnID r"
  "nextConnID (Unregister c r) = nextConnID r" "nextConnID (fst (Register ch r)) = nextConnID r + 1"
  "nextConnID (fst (Broadcast room e r)) = nextConnID r"
  by (simp_all add: router_ops Register_def Broadcast_def split_beta split: option.splits)

lemma unat_succ: "x \<noteq> - 1 \<Longrightarrow> unat (x + 1 :: 64 word) = Suc (unat x)"
  using word_less_succ[of x] by (metis Suc_eq_plus1 add.commute unat_1 unat_plus_simple less_imp_le)

lemma unat_not_max: "unat (x :: 64 word) < 2 ^ 64 - 1 \<Longrightarrow> x \<noteq> - 1"
proof
  assume "unat x < 2 ^ 64 - 1" "x = - 1"
  moreover have "unat (- 1 :: 64 word) = 2 ^ 64 - 1" by (simp add: unsigned_minus_1_eq_mask mask_eq_exp_minus_1)
  ultimately show False by simp
qed

lemma router_ok_ops:
  assumes "router_ok r" "unat (nextConnID r) + length (filter is_register ops) < 2 ^ 64"
  shows "router_ok (foldl router_apply r ops)
    \<and> unat (nextConnID (foldl router_apply r ops)) = unat (nextConnID r) + length (filter is_register ops)"
  using assms
proof (induction ops arbitrary: r)
  case (Cons op ops)
  show ?case
  proof (cases "is_register op")
    case True
    then obtain ch where op: "op = OpRegister ch" by (cases op) (auto simp: is_register_def)
    have nz: "nextConnID r \<noteq> - 1" using Cons.prems(2) True by (intro unat_not_max) simp
    from Cons.IH[OF router_ok_Register[OF Cons.prems(1) nz, of ch]] Cons.prems(2) True op unat_succ[OF nz]
    show ?thesis by simp
  next
    case False
    then have "router_ok (router_apply r op)" "nextConnID (router_apply r op) = nextConnID r"
      using Cons.prems(1) router_ok_Subscribe router_ok_Unsubscribe router_ok_Unregister router_ok_Broadcast
      by (cases op; simp add: is_register_def)+
    with Cons.IH[of "router_apply r op"] Cons.prems(2) False show ?thesis by simp
  qed
qed simp

lemma router_ok_new [simp]: "router_ok NewRouter" "nextConnID NewRouter = 0"
  by (simp_all add: NewRouter_def router_ok_def router_keys_def subscription_count_def registered_def)

section \<open>Properties\<close>

text \<open>C12. Through any sequence of operations with fewer than 2^64 registrations, the gauge
  \<open>SubscriptionsCurrent\<close> is the number of subscriptions of all connections, and the next
  registration gets an identifier that no present connection has.\<close>

theorem router_gauge_and_fresh_ids:
  assumes "length (filter is_register ops) < 2 ^ 64 - 1"
  shows "SubscriptionsCurrent (foldl router_apply NewRouter ops) = int (subscription_count (foldl router_apply NewRouter ops))
    \<and> \<not> registered (foldl router_apply NewRouter ops) (snd (Register ch (foldl router_apply NewRouter ops)))"
proof -
  let ?r = "foldl router_apply NewRouter ops"
  have "router_ok ?r \<and> unat (nextConnID ?r) = length (filter is_register ops)"
    using router_ok_ops[of NewRouter ops] assms by simp
  with assms Register_fresh[OF _ unat_not_max, of ?r ch] show ?thesis by (simp add: router_ok_def)
qed

lemma router_gauge_and_fresh_ids_witness:
  "SubscriptionsCurrent (foldl router_apply NewRouter
      [OpRegister 7, OpSubscribe ''conn-1'' ''s'' [], OpSubscribe ''conn-1'' ''s'' [empty_filter], OpUnregister ''conn-1'']) = 0"
proof -
  let ?ops = "[OpRegister 7, OpSubscribe ''conn-1'' ''s'' [], OpSubscribe ''conn-1'' ''s'' [empty_filter], OpUnregister ''conn-1'']"
  have id: "formatConnID 1 = ''conn-1''" by (simp add: formatConnID_def uitoa_FormatInt FormatInt_def nat_digits.simps)
  have "SubscriptionsCurrent (foldl router_apply NewRouter ?ops) = int (subscription_count (foldl router_apply NewRouter ?ops))"
    using router_gauge_and_fresh_ids[of ?ops] by (simp add: is_register_def)
  also have "subscription_count (foldl router_apply NewRouter ?ops) = 0"
    by (simp add: Register_def NewRouter_def router_ops id subscription_count_def)
  finally show ?thesis by simp
qed


text \<open>A subscription matches, and so gets the event while its channel has room, exactly when the
  table of the router has it with a matching filter; after CLOSE or the end of the connection it
  gets nothing more.\<close>

theorem candidates_subscriptions:
  assumes "router_ok r"
  shows "(ch, NewServerEventMsg s event) \<in> set (candidates event (connections r)) \<longleftrightarrow>
    (\<exists>c conn fs. map_of (connections r) c = Some conn \<and> sendCh conn = ch \<and> subs_of r c s = Some fs \<and> matchesAny fs event)"
proof -
  have keys: "distinct (map fst (connections r))" "\<And>c conn. map_of (connections r) c = Some conn \<Longrightarrow> distinct (map fst (subscriptions conn))"
    using assms router_keysD by (auto simp: router_ok_def router_keys_def)
  have "(ch, NewServerEventMsg s event) \<in> set (candidates event (connections r)) \<longleftrightarrow>
    (\<exists>c conn fs. (c, conn) \<in> set (connections r) \<and> sendCh conn = ch \<and> (s, fs) \<in> set (subscriptions conn) \<and> matchesAny fs event)"
    by (force simp: candidates_def sub_candidates_def msg_defs)
  also have "\<dots> \<longleftrightarrow> (\<exists>c conn fs. map_of (connections r) c = Some conn \<and> sendCh conn = ch \<and> subs_of r c s = Some fs \<and> matchesAny fs event)"
    using keys map_of_eq_Some_iff by (fastforce simp: subs_of_def)
  finally show ?thesis .
qed

lemma candidates_subscriptions_witness:
  "(7, NewServerEventMsg ''s'' (mk_event ''a'' ''p'' 1 1 [])) \<in>
     set (candidates (mk_event ''a'' ''p'' 1 1 []) (connections (Subscribe ''conn-1'' ''s'' [empty_filter] (fst (Register 7 NewRouter)))))"
proof -
  let ?r = "Subscribe ''conn-1'' ''s'' [empty_filter] (fst (Register 7 NewRouter))"
  have ok: "router_ok ?r" by (intro router_ok_Subscribe router_ok_Register) simp_all
  have id: "formatConnID 1 = ''conn-1''" by (simp add: formatConnID_def uitoa_FormatInt FormatInt_def nat_digits.simps)
  show ?thesis
    by (rule candidates_subscriptions[OF ok, THEN iffD2])
      (simp add: subs_of_def Register_def NewRouter_def router_ops id empty_filter_def Match_def)
qed

section \<open>The router handler\<close>

text \<open>
  One message of \<^verbatim>\<open>routerHandler.ServeNostr\<close>. \<open>live\<close> says whether the reply is sent before the
  context ends; if not, the handler returns. The results are the router, the replies sent, the
  deliveries of the broadcast and whether the handler goes on.
\<close>

definition routerHandler_msg ::
  "string \<Rightarrow> (nat \<Rightarrow> nat) \<Rightarrow> bool \<Rightarrow> ClientMsg \<Rightarrow> Router \<Rightarrow> Router \<times> ServerMsg list \<times> delivery list \<times> bool" where
  "routerHandler_msg connID room live msg r =
     (if CType msg = MsgTypeEvent then
        (case CEvent msg of None \<Rightarrow> (r, [], [], True)
         | Some e \<Rightarrow>
             if \<not> live then (r, [], [], False)
             else (let (r', out) = Broadcast room e r in (r', [NewServerOKMsg (ID e) True ''''], out, True)))
      else if CType msg = MsgTypeReq then
        (let r' = Subscribe connID (CSubscriptionID msg) (CFilters msg) r
         in if \<not> live then (r', [], [], False) else (r', [NewServerEOSEMsg (CSubscriptionID msg)], [], True))
      else if CType msg = MsgTypeClose then (Unsubscribe connID (CSubscriptionID msg) r, [], [], True)
      else if CType msg = MsgTypeCount then
        (if \<not> live then (r, [], [], False) else (r, [NewServerCountMsg (CSubscriptionID msg) 0 None], [], True))
      else (r, [], [], True))"

definition routerHandler_serve :: "string \<Rightarrow> (nat \<Rightarrow> nat) \<Rightarrow> Router \<Rightarrow> ClientMsg \<Rightarrow> Router \<times> ServerMsg list" where
  "routerHandler_serve connID room r msg =
     (case routerHandler_msg connID room True msg r of (r', replies, out, goes) \<Rightarrow> (r', replies))"

text \<open>A whole connection: register, serve the messages until the context ends, unregister.\<close>

fun routerHandler_loop :: "string \<Rightarrow> ((nat \<Rightarrow> nat) \<times> bool \<times> ClientMsg) list \<Rightarrow> Router \<Rightarrow> Router" where
  "routerHandler_loop connID [] r = r"
| "routerHandler_loop connID ((room, live, msg) # msgs) r =
     (case routerHandler_msg connID room live msg r of (r', replies, out, goes) \<Rightarrow>
        if goes then routerHandler_loop connID msgs r' else r')"

definition routerHandler_ServeNostr :: "nat \<Rightarrow> ((nat \<Rightarrow> nat) \<times> bool \<times> ClientMsg) list \<Rightarrow> Router \<Rightarrow> Router" where
  "routerHandler_ServeNostr send msgs r =
     (let (r', connID) = Register send r in Unregister connID (routerHandler_loop connID msgs r'))"

interpretation router_handler: answering "routerHandler_serve connID room" router_ok for connID room
proof unfold_locales
  fix r c assume ok: "router_ok r"
  show "router_ok (fst (routerHandler_serve connID room r c))"
    using ok router_ok_Subscribe router_ok_Unsubscribe router_ok_Broadcast[OF ok]
    by (auto simp: routerHandler_serve_def routerHandler_msg_def Let_def split_beta split: option.splits)
qed (auto simp: routerHandler_serve_def routerHandler_msg_def expects_answer_def terminal_answer_def Let_def split_beta
      split: option.splits)

lemma subs_of_Broadcast [simp]: "subs_of (fst (Broadcast room e r)) = subs_of r" "registered (fst (Broadcast room e r)) = registered r"
  by (auto simp: subs_of_def registered_def Broadcast_def split_beta fun_eq_iff)

lemma routerHandler_loop_others:
  "c \<noteq> connID \<Longrightarrow> subs_of (routerHandler_loop connID msgs r) c = subs_of r c
     \<and> registered (routerHandler_loop connID msgs r) c = registered r c"
proof (induction connID msgs r rule: routerHandler_loop.induct)
  case (2 connID room live msg msgs r)
  obtain r' replies out goes where m: "routerHandler_msg connID room live msg r = (r', replies, out, goes)" by (metis prod_cases4)
  have "subs_of r' c = subs_of r c \<and> registered r' c = registered r c"
    using m 2(2) by (auto simp: routerHandler_msg_def Let_def split_beta subs_of_Subscribe subs_of_Unsubscribe
        fun_eq_iff split: if_splits option.splits)
  with 2 m show ?case by auto
qed simp

text \<open>C14. When a connection of the router handler ends, however it ends, the router has the
  subscriptions of every other connection as before and none of the connection: its identifier is
  not registered any more.\<close>

theorem router_handler_cleans_up:
  assumes "router_ok r" "nextConnID r \<noteq> - 1"
  shows "subs_of (routerHandler_ServeNostr send msgs r) c = subs_of r c
    \<and> (registered (routerHandler_ServeNostr send msgs r) c \<longleftrightarrow> registered r c)"
proof -
  obtain r' connID where reg: "Register send r = (r', connID)" by fastforce
  have fresh: "\<not> registered r connID" using Register_fresh[OF assms, of send] reg by simp
  have r': "subs_of r' c = subs_of r c" "registered r' c = registered r c" if "c \<noteq> connID" for c
    using reg that by (auto simp: Register_def Let_def subs_of_def registered_def update_conv')
  have none: "subs_of r connID = (\<lambda>s. None)"
    using fresh by (auto simp: subs_of_def registered_def)
  show ?thesis
  proof (cases "c = connID")
    case True
    with none fresh reg show ?thesis
      by (auto simp: routerHandler_ServeNostr_def subs_of_Unregister fun_eq_iff)
  next
    case False
    with r'[OF False] routerHandler_loop_others[OF False, of msgs r'] reg show ?thesis
      by (auto simp: routerHandler_ServeNostr_def subs_of_Unregister fun_eq_iff)
  qed
qed

lemma router_handler_cleans_up_witness:
  "\<not> registered (routerHandler_ServeNostr 7 [(\<lambda>_. 0, True, client_req ''s'' [])] NewRouter) ''conn-1''"
proof -
  have "nextConnID NewRouter \<noteq> - 1" "\<not> registered NewRouter ''conn-1''" by (simp, simp add: registered_def NewRouter_def)
  with router_handler_cleans_up[of NewRouter 7 "[(\<lambda>_. 0, True, client_req ''s'' [])]" "''conn-1''"] show ?thesis by simp
qed

end
