(* ===== verification/Rate_Limit.thy ===== *)
theory Rate_Limit
  imports Prelude
begin

text \<open>
  The token bucket of \<^verbatim>\<open>rate_limit.go\<close> and the stall loop of the relay's reader. The bucket's
  \<^verbatim>\<open>float64\<close> fields are rational numbers here, so rounding is not modelled: the results are those
  of exact arithmetic. Durations and instants are integers in nanoseconds, and the difference of
  two instants saturates as \<^verbatim>\<open>time.Time.Sub\<close> does.
\<close>

section \<open>The bucket\<close>

record tokenBucket =
  rate :: rat
  burst :: rat
  tokens :: rat
  lastUpdate :: time

definition newTokenBucket :: "rat \<Rightarrow> int \<Rightarrow> time \<Rightarrow> tokenBucket" where
  "newTokenBucket r b now = \<lparr>rate = r, burst = of_int b, tokens = of_int b, lastUpdate = now\<rparr>"

definition time_Sub :: "time \<Rightarrow> time \<Rightarrow> int" where
  "time_Sub t u = max (- (2 ^ 63)) (min (2 ^ 63 - 1) (t - u))"

definition Seconds :: "int \<Rightarrow> rat" where
  "Seconds d = of_int d / of_int nsPerSec"

definition allow :: "time \<Rightarrow> tokenBucket \<Rightarrow> tokenBucket \<times> bool" where
  "allow now tb =
     (let elapsed = Seconds (time_Sub now (lastUpdate tb));
          tb1 = (if elapsed > 0
                 then tb\<lparr>tokens := min (burst tb) (tokens tb + elapsed * rate tb), lastUpdate := now\<rparr> else tb)
      in if tokens tb1 \<ge> 1 then (tb1\<lparr>tokens := tokens tb1 - 1\<rparr>, True) else (tb1, False))"

definition waitDuration :: "time \<Rightarrow> tokenBucket \<Rightarrow> int" where
  "waitDuration now tb =
     (let elapsed = Seconds (time_Sub now (lastUpdate tb));
          ts = (if elapsed > 0 then min (burst tb) (tokens tb + elapsed * rate tb) else tokens tb)
      in if ts \<ge> 1 then 0 else \<lfloor>(1 - ts) / rate tb * of_int nsPerSec\<rfloor>)"

text \<open>The decisions for the calls of \<^verbatim>\<open>allow\<close> at the given instants.\<close>

fun allow_run :: "time list \<Rightarrow> tokenBucket \<Rightarrow> tokenBucket \<times> bool list" where
  "allow_run [] tb = (tb, [])"
| "allow_run (now # nows) tb =
     (case allow now tb of (tb', ok) \<Rightarrow> (case allow_run nows tb' of (tb'', oks) \<Rightarrow> (tb'', ok # oks)))"

section \<open>The invariant\<close>

definition bucket_ok :: "tokenBucket \<Rightarrow> bool" where
  "bucket_ok tb \<longleftrightarrow> 0 < rate tb \<and> 1 \<le> burst tb \<and> 0 \<le> tokens tb \<and> tokens tb \<le> burst tb"

lemma bucket_ok_new: "0 < r \<Longrightarrow> 1 \<le> b \<Longrightarrow> bucket_ok (newTokenBucket r b now)"
  by (simp add: bucket_ok_def newTokenBucket_def)

lemma Seconds_pos [simp]: "0 < Seconds d \<longleftrightarrow> 0 < d"
  by (simp add: Seconds_def)

lemma time_Sub_pos [simp]: "0 < time_Sub t u \<longleftrightarrow> u < t"
  by (auto simp: time_Sub_def)

lemma time_Sub_le: "u < t \<Longrightarrow> time_Sub t u \<le> t - u"
  by (simp add: time_Sub_def)

lemma Seconds_mono: "d \<le> e \<Longrightarrow> Seconds d \<le> Seconds e"
  by (simp add: Seconds_def divide_right_mono)

lemma Seconds_diff: "Seconds (a - b) = Seconds a - Seconds b"
  by (simp add: Seconds_def diff_divide_distrib)

lemma allow_ok:
  assumes "bucket_ok tb" "allow now tb = (tb', ok)"
  shows "bucket_ok tb' \<and> rate tb' = rate tb \<and> burst tb' = burst tb \<and> lastUpdate tb' = max (lastUpdate tb) now"
proof -
  have "0 \<le> Seconds (time_Sub now (lastUpdate tb)) * rate tb" if "lastUpdate tb < now"
    using that assms(1) by (intro mult_nonneg_nonneg less_imp_le) (simp_all add: bucket_ok_def)
  then show ?thesis using assms by (auto simp: allow_def bucket_ok_def Let_def max_def split: if_splits)
qed

text \<open>The potential: a permitted call is paid by a token, and tokens come from elapsed time only.\<close>

lemma allow_potential:
  assumes "bucket_ok tb" "allow now tb = (tb', ok)"
  shows "tokens tb' + (if ok then 1 else 0) \<le> tokens tb + rate tb * Seconds (lastUpdate tb' - lastUpdate tb)"
proof (cases "lastUpdate tb < now")
  case True
  have "Seconds (time_Sub now (lastUpdate tb)) \<le> Seconds (now - lastUpdate tb)"
    using time_Sub_le[OF True] by (rule Seconds_mono)
  moreover have "0 < rate tb" using assms(1) by (simp add: bucket_ok_def)
  ultimately have "Seconds (time_Sub now (lastUpdate tb)) * rate tb \<le> rate tb * Seconds (now - lastUpdate tb)"
    by (simp add: mult.commute mult_left_mono)
  with True assms(2) show ?thesis by (auto simp: allow_def Let_def split: if_splits)
next
  case False
  with assms(2) show ?thesis by (auto simp: allow_def Let_def Seconds_def split: if_splits)
qed

lemma allow_run_potential:
  assumes "bucket_ok tb" "allow_run nows tb = (tb', oks)"
  shows "bucket_ok tb' \<and> rate tb' = rate tb \<and> burst tb' = burst tb
    \<and> lastUpdate tb' = foldl max (lastUpdate tb) nows
    \<and> tokens tb' + of_nat (length (filter (\<lambda>ok. ok) oks)) \<le> tokens tb + rate tb * Seconds (lastUpdate tb' - lastUpdate tb)"
  using assms
proof (induction nows arbitrary: tb oks)
  case Nil
  then show ?case by (simp add: Seconds_def)
next
  case (Cons now nows)
  obtain t ok oks' where r: "allow now tb = (t, ok)" "allow_run nows t = (tb', oks')" "oks = ok # oks'"
    using Cons.prems(2) by (auto split: prod.splits)
  note a = allow_ok[OF Cons.prems(1) r(1)] allow_potential[OF Cons.prems(1) r(1)]
  have IH: "bucket_ok tb'" "rate tb' = rate t" "burst tb' = burst t" "lastUpdate tb' = foldl max (lastUpdate t) nows"
    "tokens tb' + of_nat (length (filter (\<lambda>ok. ok) oks')) \<le> tokens t + rate t * Seconds (lastUpdate tb' - lastUpdate t)"
    using Cons.IH[OF _ r(2)] a by auto
  have "tokens tb' + of_nat (length (filter (\<lambda>ok. ok) oks))
      \<le> tokens tb + rate tb * (Seconds (lastUpdate tb' - lastUpdate t) + Seconds (lastUpdate t - lastUpdate tb))"
    using IH(5) a r(3) by (auto simp: algebra_simps)
  also have "Seconds (lastUpdate tb' - lastUpdate t) + Seconds (lastUpdate t - lastUpdate tb) = Seconds (lastUpdate tb' - lastUpdate tb)"
    by (simp add: Seconds_diff)
  finally show ?case using IH a by (simp add: max.commute)
qed

section \<open>When the next call is permitted\<close>

text \<open>The instant, a rational number of nanoseconds, from which a call is permitted.\<close>

definition ready_at :: "tokenBucket \<Rightarrow> rat" where
  "ready_at tb = of_int (lastUpdate tb) + (1 - tokens tb) / rate tb * of_int nsPerSec"

text \<open>An instant at or after the last update, close enough for the difference not to saturate.\<close>

definition sane :: "time \<Rightarrow> tokenBucket \<Rightarrow> bool" where
  "sane now tb \<longleftrightarrow> lastUpdate tb \<le> now \<and> now - lastUpdate tb < 2 ^ 63"

lemma time_Sub_sane: "sane now tb \<Longrightarrow> time_Sub now (lastUpdate tb) = now - lastUpdate tb"
  by (simp add: sane_def time_Sub_def)

definition refilled :: "time \<Rightarrow> tokenBucket \<Rightarrow> rat" where
  "refilled now tb = tokens tb + Seconds (now - lastUpdate tb) * rate tb"

lemma ready_at_refilled:
  assumes "0 < rate tb"
  shows "ready_at tb = of_int now + (1 - refilled now tb) / rate tb * of_int nsPerSec"
  using assms by (simp add: ready_at_def refilled_def Seconds_def field_simps)

lemma refilled_ready:
  assumes "0 < rate tb" shows "1 \<le> refilled now tb \<longleftrightarrow> ready_at tb \<le> of_int now"
proof -
  have "ready_at tb \<le> of_int now \<longleftrightarrow> (1 - refilled now tb) / rate tb * of_int nsPerSec \<le> 0"
    unfolding ready_at_refilled[OF assms, of now] by simp
  also have "\<dots> \<longleftrightarrow> 1 \<le> refilled now tb"
    using assms by (simp add: mult_le_0_iff divide_le_0_iff)
  finally show ?thesis by simp
qed

lemma min_burst: "bucket_ok tb \<Longrightarrow> 1 \<le> min (burst tb) x \<longleftrightarrow> 1 \<le> x"
  by (simp add: bucket_ok_def)

lemma allow_ready:
  assumes "bucket_ok tb" "sane now tb"
  shows "snd (allow now tb) \<longleftrightarrow> ready_at tb \<le> of_int now"
proof -
  have r: "0 < rate tb" using assms(1) by (simp add: bucket_ok_def)
  have "snd (allow now tb) \<longleftrightarrow> 1 \<le> refilled now tb"
  proof (cases "lastUpdate tb < now")
    case True
    then show ?thesis using min_burst[OF assms(1)]
      by (simp add: allow_def Let_def time_Sub_sane[OF assms(2)] refilled_def)
  next
    case False
    then have "now = lastUpdate tb" using assms(2) by (simp add: sane_def)
    then show ?thesis by (simp add: allow_def Let_def time_Sub_sane[OF assms(2)] refilled_def Seconds_def)
  qed
  with refilled_ready[OF r] show ?thesis by simp
qed

text \<open>A denied call moves tokens and the last update together: the instant stays.\<close>

lemma denied_ready:
  assumes "bucket_ok tb" "sane now tb" "\<not> snd (allow now tb)"
  shows "ready_at (fst (allow now tb)) = ready_at tb \<and> lastUpdate (fst (allow now tb)) = now"
proof -
  have r: "0 < rate tb" using assms(1) by (simp add: bucket_ok_def)
  have small: "refilled now tb < 1" using allow_ready[OF assms(1,2)] refilled_ready[OF r] assms(3) by force
  then have "min (burst tb) (refilled now tb) = refilled now tb" using assms(1) by (simp add: bucket_ok_def)
  then have "fst (allow now tb) = (if lastUpdate tb < now then tb\<lparr>tokens := refilled now tb, lastUpdate := now\<rparr> else tb)"
    using small assms(2,3) by (auto simp: allow_def Let_def time_Sub_sane[OF assms(2)] refilled_def[symmetric] split: if_splits)
  with assms(2) ready_at_refilled[OF r, of now] show ?thesis
    by (auto simp: sane_def ready_at_def refilled_def)
qed

lemma waitDuration_ready:
  assumes "bucket_ok tb" "sane now tb"
  shows "waitDuration now tb = (if ready_at tb \<le> of_int now then 0 else \<lfloor>ready_at tb - of_int now\<rfloor>)"
proof -
  have r: "0 < rate tb" using assms(1) by (simp add: bucket_ok_def)
  have w: "waitDuration now tb = (if 1 \<le> refilled now tb then 0 else \<lfloor>(1 - refilled now tb) / rate tb * of_int nsPerSec\<rfloor>)"
  proof (cases "lastUpdate tb < now")
    case True
    have "min (burst tb) (refilled now tb) = refilled now tb" if "\<not> 1 \<le> refilled now tb"
      using that assms(1) by (simp add: bucket_ok_def)
    with True min_burst[OF assms(1), of "refilled now tb"] show ?thesis
      by (auto simp: waitDuration_def Let_def time_Sub_sane[OF assms(2)] refilled_def[symmetric])
  next
    case False
    then have "now = lastUpdate tb" using assms(2) by (simp add: sane_def)
    then show ?thesis by (simp add: waitDuration_def Let_def time_Sub_sane[OF assms(2)] refilled_def Seconds_def)
  qed
  have "ready_at tb - of_int now = (1 - refilled now tb) / rate tb * of_int nsPerSec"
    by (simp add: ready_at_refilled[OF r, of now])
  with w refilled_ready[OF r, of now] show ?thesis by simp
qed

section \<open>The stall of the reader\<close>

text \<open>
  One round of the loop of \<^verbatim>\<open>readStall\<close>: the instant at which the wait is computed and how the wait
  ends, by the timer at an instant or by the cancellation of the context. \<open>None\<close>: the given
  rounds do not suffice.
\<close>

datatype wake = Woke time | Cancelled

definition stall_sleep :: "time \<Rightarrow> tokenBucket \<Rightarrow> int" where
  "stall_sleep now tb = (let d = waitDuration now tb in if d \<le> 0 then 1000000 else d)"

fun readStall_loop :: "(time \<times> wake) list \<Rightarrow> tokenBucket \<Rightarrow> (tokenBucket \<times> bool) option" where
  "readStall_loop [] tb = None"
| "readStall_loop ((t, Cancelled) # rounds) tb = Some (tb, False)"
| "readStall_loop ((t, Woke u) # rounds) tb =
     (case allow u tb of (tb', ok) \<Rightarrow> if ok then Some (tb', True) else readStall_loop rounds tb')"

text \<open>\<open>onStall\<close> is the number of calls of the callback; the last component is the absence of an error.\<close>

definition readStall ::
  "bool \<Rightarrow> time \<Rightarrow> (time \<times> wake) list \<Rightarrow> tokenBucket option \<Rightarrow> (tokenBucket option \<times> nat \<times> bool) option" where
  "readStall cancelled now rounds bucket =
     (case bucket of None \<Rightarrow> Some (None, 0, True)
      | Some tb \<Rightarrow>
          if cancelled then Some (Some tb, 0, False)
          else (case allow now tb of (tb', ok) \<Rightarrow>
             if ok then Some (Some tb', 0, True)
             else (case readStall_loop rounds tb' of None \<Rightarrow> None
               | Some (tb'', done_ok) \<Rightarrow> Some (Some tb'', 1, done_ok))))"

section \<open>Properties\<close>

text \<open>Over any calls of a fresh bucket, whatever the instants and even if the clock steps back, the
  number of permitted calls is at most the burst plus the rate times the time that has passed.\<close>

theorem rate_limit_bound:
  assumes "0 < r" "1 \<le> b" "allow_run nows (newTokenBucket r b t0) = (tb', oks)"
  shows "of_nat (length (filter (\<lambda>ok. ok) oks)) \<le> of_int b + r * Seconds (foldl max t0 nows - t0)"
proof -
  have new: "tokens (newTokenBucket r b t0) = of_int b" "rate (newTokenBucket r b t0) = r" "lastUpdate (newTokenBucket r b t0) = t0"
    by (simp_all add: newTokenBucket_def)
  note p = allow_run_potential[OF bucket_ok_new[OF assms(1,2)] assms(3), unfolded new]
  from p have l: "lastUpdate tb' = foldl max t0 nows" by blast
  from p have "bucket_ok tb'" "tokens tb' + of_nat (length (filter (\<lambda>ok. ok) oks))
      \<le> of_int b + r * Seconds (foldl max t0 nows - t0)"
    unfolding l by blast+
  then show ?thesis by (simp add: bucket_ok_def)
qed

lemma rate_limit_bound_witness:
  "\<exists>tb'. allow_run [0, 1, 2] (newTokenBucket 1 2 0) = (tb', [True, True, False])
     \<and> (of_nat (length (filter (\<lambda>ok. ok) [True, True, False])) :: rat) \<le> 2 + 1 * Seconds 2"
proof -
  obtain tb' where r: "allow_run [0, 1, 2] (newTokenBucket 1 2 0) = (tb', [True, True, False])"
    by (simp add: allow_def newTokenBucket_def Let_def time_Sub_def Seconds_def)
  from r rate_limit_bound[OF _ _ r] show ?thesis by simp
qed

text \<open>\<open>waitDuration\<close> is exact to the nanosecond: a call strictly before the reported wait is over is
  denied, and a call strictly after it is permitted.\<close>

theorem waitDuration_exact:
  assumes "bucket_ok tb" "sane now tb" "now \<le> t" "sane t tb"
  shows "(t < now + waitDuration now tb \<longrightarrow> \<not> snd (allow t tb)) \<and> (now + waitDuration now tb < t \<longrightarrow> snd (allow t tb))"
proof (intro conjI impI)
  assume "t < now + waitDuration now tb"
  then have "t - now < \<lfloor>ready_at tb - of_int now\<rfloor>" using waitDuration_ready[OF assms(1,2)] assms(3) by (simp split: if_splits)
  then have "of_int (t - now) < ready_at tb - of_int now" by (simp add: less_floor_iff)
  then show "\<not> snd (allow t tb)" using allow_ready[OF assms(1,4)] by simp
next
  assume a: "now + waitDuration now tb < t"
  show "snd (allow t tb)"
  proof (cases "ready_at tb \<le> of_int now")
    case True
    moreover have "(of_int now :: rat) \<le> of_int t" using assms(3) by simp
    ultimately show ?thesis using allow_ready[OF assms(1,4)] order_trans by blast
  next
    case False
    with a waitDuration_ready[OF assms(1,2)] have "\<lfloor>ready_at tb - of_int now\<rfloor> < t - now" by simp
    then have "ready_at tb - of_int now < of_int (t - now)" by (simp add: floor_less_iff)
    then show ?thesis using allow_ready[OF assms(1,4)] by simp
  qed
qed

lemma waitDuration_exact_witness:
  "\<not> snd (allow 2999999999 \<lparr>rate = 1/3, burst = 1, tokens = 0, lastUpdate = 0\<rparr>)
   \<and> snd (allow 3000000001 \<lparr>rate = 1/3, burst = 1, tokens = 0, lastUpdate = 0\<rparr>)"
proof -
  let ?tb = "\<lparr>rate = 1/3 :: rat, burst = 1, tokens = 0, lastUpdate = 0\<rparr>"
  have w: "waitDuration 0 ?tb = 3000000000" by (simp add: waitDuration_def time_Sub_def Seconds_def)
  have ok: "bucket_ok ?tb" "sane 0 ?tb" "sane 2999999999 ?tb" "sane 3000000001 ?tb" by (simp_all add: bucket_ok_def sane_def)
  from waitDuration_exact[OF ok(1,2) _ ok(3)] waitDuration_exact[OF ok(1,2) _ ok(4)] w show ?thesis by simp
qed

text \<open>A timer that does not fire early.\<close>

definition honest_wake :: "time \<Rightarrow> time \<Rightarrow> tokenBucket \<Rightarrow> bool" where
  "honest_wake t u tb \<longleftrightarrow> sane t tb \<and> t + stall_sleep t tb \<le> u \<and> sane u tb"

text \<open>The stall ends: when the timers do not fire early and the context lives, the loop of
  \<open>readStall\<close> claims a token after at most two sleeps, the second because the reported wait is rounded
  down. This is a statement about exact arithmetic: with the rounding of \<^verbatim>\<open>float64\<close> the refill can
  fall short again at very small rates, and the code sleeps once more.\<close>

lemma readStall_two_sleeps:
  assumes "bucket_ok tb" "honest_wake t1 u1 tb" "honest_wake t2 u2 (fst (allow u1 tb))" "u1 \<le> t2"
  shows "\<exists>tb'. readStall_loop [(t1, Woke u1), (t2, Woke u2)] tb = Some (tb', True)"
proof (cases "snd (allow u1 tb)")
  case True
  then show ?thesis by (simp add: split_beta)
next
  case False
  let ?tb = "fst (allow u1 tb)"
  have h1: "sane t1 tb" "t1 + stall_sleep t1 tb \<le> u1" "sane u1 tb" using assms(2) by (simp_all add: honest_wake_def)
  have h2: "sane t2 ?tb" "t2 + stall_sleep t2 ?tb \<le> u2" "sane u2 ?tb" using assms(3) by (simp_all add: honest_wake_def)
  have ok: "bucket_ok ?tb" using allow_ok[OF assms(1), of u1 ?tb "snd (allow u1 tb)"] by simp
  have ready: "ready_at ?tb = ready_at tb" using denied_ready[OF assms(1) h1(3) False] by simp
  have w1: "waitDuration t1 tb \<le> stall_sleep t1 tb" by (simp add: stall_sleep_def Let_def)
  have "stall_sleep t1 tb > 0" by (simp add: stall_sleep_def Let_def)
  with h1(2) have "t1 \<le> u1" by simp
  with waitDuration_exact[OF assms(1) h1(1) _ h1(3)] False w1 h1(2) have "u1 = t1 + waitDuration t1 tb" by auto
  with False allow_ready[OF assms(1) h1(3)] waitDuration_ready[OF assms(1) h1(1)]
  have "ready_at tb < of_int u1 + 1" by (auto split: if_splits) linarith
  moreover have "(of_int u1 :: rat) \<le> of_int t2" using assms(4) by simp
  ultimately have "ready_at ?tb < of_int t2 + 1" using ready by linarith
  then have "waitDuration t2 ?tb \<le> 0"
    unfolding waitDuration_ready[OF ok h2(1)] by (auto simp: floor_le_iff)
  then have "t2 + 1 \<le> u2" using h2(2) by (simp add: stall_sleep_def Let_def)
  then have "of_int t2 + 1 \<le> (of_int u2 :: rat)" by (metis of_int_1 of_int_add of_int_le_iff)
  with \<open>ready_at ?tb < of_int t2 + 1\<close> have "snd (allow u2 ?tb)" using allow_ready[OF ok h2(3)] by linarith
  with False show ?thesis by (simp add: split_beta)
qed

lemma readStall_two_sleeps_instance:
  "\<exists>tb'. readStall_loop [(0, Woke 3333333333), (3333333333, Woke 3334333333)]
     \<lparr>rate = 3/10, burst = 1, tokens = 0, lastUpdate = 0\<rparr> = Some (tb', True)"
proof -
  let ?tb = "\<lparr>rate = 3/10 :: rat, burst = 1, tokens = 0, lastUpdate = 0\<rparr>"
  have f: "fst (allow 3333333333 ?tb) = ?tb\<lparr>tokens := 9999999999 / 10000000000, lastUpdate := 3333333333\<rparr>"
    by (simp add: allow_def time_Sub_def Seconds_def Let_def)
  show ?thesis
    by (rule readStall_two_sleeps)
      (simp_all add: f bucket_ok_def honest_wake_def sane_def stall_sleep_def waitDuration_def time_Sub_def Seconds_def Let_def)
qed

end
