(* ===== verification/Middleware.thy ===== *)
theory Middleware
  imports Answering Rate_Limit
begin

text \<open>
  Middlewares (\<^verbatim>\<open>middleware.go\<close>): the interface \<^verbatim>\<open>SimpleMiddlewareBase\<close>, the pipeline that composes
  several bases in one goroutine, and the lifecycle of \<^verbatim>\<open>NewSimpleMiddleware\<close>.

  The connection's \<^verbatim>\<open>context.Context\<close> is the record \<open>conn_ctx\<close> with one optional field per context key
  of the built-in middlewares; a second base of the same kind finds the field of the first
  overwritten, as in the code. A handler's panic (nil dereference, failed type assertion) is the
  error \<open>MwPanic\<close>. \<open>time\<close> arguments are the readings of \<^verbatim>\<open>time.Now()\<close>.
\<close>

section \<open>The connection context\<close>

record authState =
  challenge :: string
  authedPubkeys :: "string set"
  authenticated :: bool

record conn_ctx =
  authSt :: "authState option"
  subsSt :: "string set option"
  eventTB :: "tokenBucket option"
  reqTB :: "tokenBucket option"
  countTB :: "tokenBucket option"
  authTB :: "tokenBucket option"
  authMetrics :: bool
  authGauge :: int
  authTotal :: "string \<Rightarrow> nat"

definition new_ctx :: "bool \<Rightarrow> conn_ctx" where
  "new_ctx with_metrics = \<lparr>authSt = None, subsSt = None, eventTB = None, reqTB = None, countTB = None, authTB = None,
     authMetrics = with_metrics, authGauge = 0, authTotal = (\<lambda>_. 0)\<rparr>"

text \<open>Keys are only added to a context.\<close>

definition ctx_le :: "conn_ctx \<Rightarrow> conn_ctx \<Rightarrow> bool" where
  "ctx_le c c' \<longleftrightarrow> (authSt c \<noteq> None \<longrightarrow> authSt c' \<noteq> None) \<and> (subsSt c \<noteq> None \<longrightarrow> subsSt c' \<noteq> None)
     \<and> (eventTB c \<noteq> None \<longrightarrow> eventTB c' \<noteq> None) \<and> (reqTB c \<noteq> None \<longrightarrow> reqTB c' \<noteq> None)
     \<and> (countTB c \<noteq> None \<longrightarrow> countTB c' \<noteq> None) \<and> (authTB c \<noteq> None \<longrightarrow> authTB c' \<noteq> None)"

lemma ctx_le_refl [simp]: "ctx_le c c"
  by (simp add: ctx_le_def)

lemma ctx_le_trans: "ctx_le a b \<Longrightarrow> ctx_le b c \<Longrightarrow> ctx_le a c"
  by (simp add: ctx_le_def)

section \<open>Bases\<close>

datatype mw_error = MwPanic | MwErr string

record mw_base =
  OnStart :: "time \<Rightarrow> conn_ctx \<Rightarrow> conn_ctx \<times> ServerMsg option \<times> mw_error option"
  OnEnd :: "conn_ctx \<Rightarrow> conn_ctx \<times> ServerMsg option \<times> mw_error option"
  HandleClientMsg :: "time \<Rightarrow> ClientMsg \<Rightarrow> conn_ctx \<Rightarrow> mw_error + conn_ctx \<times> ClientMsg option \<times> ServerMsg option"
  HandleServerMsg :: "time \<Rightarrow> ServerMsg \<Rightarrow> conn_ctx \<Rightarrow> mw_error + conn_ctx \<times> ServerMsg option"

text \<open>The methods most built-in bases share.\<close>

definition start_same :: "time \<Rightarrow> conn_ctx \<Rightarrow> conn_ctx \<times> ServerMsg option \<times> mw_error option" where
  [mw_defs]: "start_same now c = (c, None, None)"

definition end_same :: "conn_ctx \<Rightarrow> conn_ctx \<times> ServerMsg option \<times> mw_error option" where
  [mw_defs]: "end_same c = (c, None, None)"

definition server_same :: "time \<Rightarrow> ServerMsg \<Rightarrow> conn_ctx \<Rightarrow> mw_error + conn_ctx \<times> ServerMsg option" where
  [mw_defs]: "server_same now msg c = Inr (c, Some msg)"

definition pass_on :: "conn_ctx \<Rightarrow> ClientMsg \<Rightarrow> mw_error + conn_ctx \<times> ClientMsg option \<times> ServerMsg option" where
  [mw_defs]: "pass_on c msg = Inr (c, Some msg, None)"

definition respond :: "conn_ctx \<Rightarrow> ServerMsg \<Rightarrow> mw_error + conn_ctx \<times> ClientMsg option \<times> ServerMsg option" where
  [mw_defs]: "respond c resp = Inr (c, None, Some resp)"

section \<open>The pipeline\<close>

text \<open>\<open>HandleServerMsg\<close> through a list of bases, nearest first.\<close>

fun server_chain :: "mw_base list \<Rightarrow> time \<Rightarrow> ServerMsg \<Rightarrow> conn_ctx \<Rightarrow> mw_error + conn_ctx \<times> ServerMsg option" where
  "server_chain [] now msg c = Inr (c, Some msg)"
| "server_chain (b # bs) now msg c =
     (case HandleServerMsg b now msg c of Inl err \<Rightarrow> Inl err
      | Inr (c', None) \<Rightarrow> Inr (c', None)
      | Inr (c', Some msg') \<Rightarrow> server_chain bs now msg' c')"

text \<open>
  \<open>HandleClientMsg\<close> from the outermost base inwards. \<open>outer\<close> are the bases already passed, nearest
  first: a response of the current base goes back through them. The results are the message for
  downstream and the responses for the client.
\<close>

fun client_chain ::
  "mw_base list \<Rightarrow> mw_base list \<Rightarrow> time \<Rightarrow> ClientMsg \<Rightarrow> conn_ctx \<Rightarrow> mw_error + conn_ctx \<times> ClientMsg option \<times> ServerMsg list" where
  "client_chain outer [] now msg c = Inr (c, Some msg, [])"
| "client_chain outer (b # bs) now msg c =
     (case HandleClientMsg b now msg c of Inl err \<Rightarrow> Inl err
      | Inr (c1, out, resp) \<Rightarrow>
          (case (case resp of None \<Rightarrow> Inr (c1, None) | Some r \<Rightarrow> server_chain outer now r c1) of
             Inl err \<Rightarrow> Inl err
           | Inr (c2, resp') \<Rightarrow>
               (let rs = (case resp' of None \<Rightarrow> [] | Some r \<Rightarrow> [r]) in
                case out of None \<Rightarrow> Inr (c2, None, rs)
                | Some msg' \<Rightarrow>
                    (case client_chain (b # outer) bs now msg' c2 of Inl err \<Rightarrow> Inl err
                     | Inr (c3, out', rs') \<Rightarrow> Inr (c3, out', rs @ rs')))))"

definition pipe_client :: "mw_base list \<Rightarrow> time \<Rightarrow> ClientMsg \<Rightarrow> conn_ctx \<Rightarrow> mw_error + conn_ctx \<times> ClientMsg option \<times> ServerMsg list" where
  "pipe_client bases = client_chain [] bases"

definition pipe_server :: "mw_base list \<Rightarrow> time \<Rightarrow> ServerMsg \<Rightarrow> conn_ctx \<Rightarrow> mw_error + conn_ctx \<times> ServerMsg option" where
  "pipe_server bases = server_chain (rev bases)"

section \<open>The loop of the pipeline\<close>

datatype pipe_input = ClientIn time ClientMsg | ServerIn time ServerMsg

text \<open>What the bases make of a sequence of inputs: messages for downstream and for the client.\<close>

fun pipe_process :: "mw_base list \<Rightarrow> pipe_input list \<Rightarrow> conn_ctx \<Rightarrow> mw_error + conn_ctx \<times> ClientMsg list \<times> ServerMsg list" where
  "pipe_process bases [] c = Inr (c, [], [])"
| "pipe_process bases (ClientIn now msg # inps) c =
     (case pipe_client bases now msg c of Inl err \<Rightarrow> Inl err
      | Inr (c', out, rs) \<Rightarrow>
          (case pipe_process bases inps c' of Inl err \<Rightarrow> Inl err
           | Inr (c'', downs, clients) \<Rightarrow> Inr (c'', (case out of None \<Rightarrow> [] | Some m \<Rightarrow> [m]) @ downs, rs @ clients)))"
| "pipe_process bases (ServerIn now msg # inps) c =
     (case pipe_server bases now msg c of Inl err \<Rightarrow> Inl err
      | Inr (c', out) \<Rightarrow>
          (case pipe_process bases inps c' of Inl err \<Rightarrow> Inl err
           | Inr (c'', downs, clients) \<Rightarrow> Inr (c'', downs, (case out of None \<Rightarrow> [] | Some m \<Rightarrow> [m]) @ clients)))"

datatype pipe_exit = PipeDone | PipeDownstreamClosed | PipeCancelled | PipeError mw_error

record pipe_state =
  pctx :: conn_ctx
  recvOpen :: bool
  pendingToDownstream :: "ClientMsg list"
  pendingToClient :: "ServerMsg list"
  toDownstream :: "ClientMsg list"
  toClient :: "ServerMsg list"
  pipeExit :: "pipe_exit option"

definition pipe_start :: "conn_ctx \<Rightarrow> pipe_state" where
  "pipe_start c = \<lparr>pctx = c, recvOpen = True, pendingToDownstream = [], pendingToClient = [],
     toDownstream = [], toClient = [], pipeExit = None\<rparr>"

text \<open>The test at the head of the loop.\<close>

definition pipe_drained :: "pipe_state \<Rightarrow> bool" where
  "pipe_drained p \<longleftrightarrow> \<not> recvOpen p \<and> length (pendingToDownstream p) = 0 \<and> length (pendingToClient p) = 0"

definition pipe_busy :: "pipe_state \<Rightarrow> bool" where
  "pipe_busy p \<longleftrightarrow> pipeExit p = None \<and> \<not> pipe_drained p"

text \<open>One turn of the loop; the label is the input it consumes.\<close>

inductive pipe_step :: "mw_base list \<Rightarrow> pipe_state \<Rightarrow> pipe_input list \<Rightarrow> pipe_state \<Rightarrow> bool" for bases where
  pipe_done: "pipeExit p = None \<Longrightarrow> pipe_drained p \<Longrightarrow> pipe_step bases p [] (p\<lparr>pipeExit := Some PipeDone\<rparr>)"
| pipe_cancelled: "pipe_busy p \<Longrightarrow> pipe_step bases p [] (p\<lparr>pipeExit := Some PipeCancelled\<rparr>)"
| pipe_recv_closed: "pipe_busy p \<Longrightarrow> recvOpen p \<Longrightarrow> pipe_step bases p [] (p\<lparr>recvOpen := False\<rparr>)"
| pipe_recv: "pipe_busy p \<Longrightarrow> recvOpen p \<Longrightarrow> pipe_client bases now msg (pctx p) = Inr (c', out, rs) \<Longrightarrow>
    pipe_step bases p [ClientIn now msg]
      (p\<lparr>pctx := c', pendingToClient := pendingToClient p @ rs,
         pendingToDownstream := pendingToDownstream p @ (case out of None \<Rightarrow> [] | Some m \<Rightarrow> [m])\<rparr>)"
| pipe_recv_error: "pipe_busy p \<Longrightarrow> recvOpen p \<Longrightarrow> pipe_client bases now msg (pctx p) = Inl err \<Longrightarrow>
    pipe_step bases p [] (p\<lparr>pipeExit := Some (PipeError err)\<rparr>)"
| pipe_server_closed: "pipe_busy p \<Longrightarrow> pipe_step bases p [] (p\<lparr>pipeExit := Some PipeDownstreamClosed\<rparr>)"
| pipe_from_server: "pipe_busy p \<Longrightarrow> pipe_server bases now msg (pctx p) = Inr (c', out) \<Longrightarrow>
    pipe_step bases p [ServerIn now msg]
      (p\<lparr>pctx := c', pendingToClient := pendingToClient p @ (case out of None \<Rightarrow> [] | Some m \<Rightarrow> [m])\<rparr>)"
| pipe_server_error: "pipe_busy p \<Longrightarrow> pipe_server bases now msg (pctx p) = Inl err \<Longrightarrow>
    pipe_step bases p [] (p\<lparr>pipeExit := Some (PipeError err)\<rparr>)"
| pipe_send_down: "pipe_busy p \<Longrightarrow> pendingToDownstream p = m # ms \<Longrightarrow>
    pipe_step bases p [] (p\<lparr>pendingToDownstream := ms, toDownstream := toDownstream p @ [m]\<rparr>)"
| pipe_send_client: "pipe_busy p \<Longrightarrow> pendingToClient p = m # ms \<Longrightarrow>
    pipe_step bases p [] (p\<lparr>pendingToClient := ms, toClient := toClient p @ [m]\<rparr>)"

inductive pipe_run :: "mw_base list \<Rightarrow> pipe_state \<Rightarrow> pipe_input list \<Rightarrow> pipe_state \<Rightarrow> bool" for bases where
  pipe_run_refl: "pipe_run bases p [] p"
| pipe_run_step: "pipe_run bases p tr p' \<Longrightarrow> pipe_step bases p' lbl p'' \<Longrightarrow> pipe_run bases p (tr @ lbl) p''"

section \<open>Runs of the loop\<close>

lemma pipe_process_append:
  "pipe_process bases (xs @ ys) c =
    (case pipe_process bases xs c of Inl err \<Rightarrow> Inl err
     | Inr (c', d1, s1) \<Rightarrow>
         (case pipe_process bases ys c' of Inl err \<Rightarrow> Inl err | Inr (c'', d2, s2) \<Rightarrow> Inr (c'', d1 @ d2, s1 @ s2)))"
proof (induction xs arbitrary: c)
  case Nil
  then show ?case by (auto split: sum.splits prod.splits)
next
  case (Cons x xs)
  then show ?case by (cases x) (auto split: sum.splits prod.splits)
qed

text \<open>What has been sent and what is pending is what the bases made of the inputs, in order.\<close>

lemma pipe_step_process:
  assumes "pipe_step bases p lbl p'"
  shows "\<exists>downs clients. pipe_process bases lbl (pctx p) = Inr (pctx p', downs, clients)
    \<and> toDownstream p' @ pendingToDownstream p' = toDownstream p @ pendingToDownstream p @ downs
    \<and> toClient p' @ pendingToClient p' = toClient p @ pendingToClient p @ clients"
  using assms by cases auto

lemma pipe_run_process:
  assumes "pipe_run bases p tr p'"
  shows "\<exists>downs clients. pipe_process bases tr (pctx p) = Inr (pctx p', downs, clients)
    \<and> toDownstream p' @ pendingToDownstream p' = toDownstream p @ pendingToDownstream p @ downs
    \<and> toClient p' @ pendingToClient p' = toClient p @ pendingToClient p @ clients"
  using assms
proof (induction rule: pipe_run.induct)
  case (pipe_run_step p tr p' lbl p'')
  then obtain d1 s1 where 1: "pipe_process bases tr (pctx p) = Inr (pctx p', d1, s1)"
    "toDownstream p' @ pendingToDownstream p' = toDownstream p @ pendingToDownstream p @ d1"
    "toClient p' @ pendingToClient p' = toClient p @ pendingToClient p @ s1" by blast
  obtain d2 s2 where 2: "pipe_process bases lbl (pctx p') = Inr (pctx p'', d2, s2)"
    "toDownstream p'' @ pendingToDownstream p'' = toDownstream p' @ pendingToDownstream p' @ d2"
    "toClient p'' @ pendingToClient p'' = toClient p' @ pendingToClient p' @ s2"
    using pipe_step_process[OF pipe_run_step(2)] by blast
  from 1 2 show ?case by (simp add: pipe_process_append)
qed simp

lemma pipe_step_exit:
  assumes "pipe_step bases p lbl p'" "pipeExit p' = Some PipeDone"
  shows "pipe_drained p'"
  using assms by cases (auto simp: pipe_drained_def pipe_busy_def)

lemma pipe_run_exit:
  "pipe_run bases p tr p' \<Longrightarrow> pipeExit p = None \<Longrightarrow> pipeExit p' = Some PipeDone \<Longrightarrow> pipe_drained p'"
  by (induction rule: pipe_run.induct) (auto dest: pipe_step_exit)

section \<open>The lifecycle\<close>

datatype mw_call = Started nat | Ended nat

text \<open>\<open>OnEnd\<close> of a list of bases, with their indices: the calls, the messages and the errors.\<close>

fun end_all :: "(nat \<times> mw_base) list \<Rightarrow> conn_ctx \<Rightarrow> conn_ctx \<times> mw_call list \<times> ServerMsg list \<times> mw_error list" where
  "end_all [] c = (c, [], [], [])"
| "end_all ((i, b) # bs) c =
     (case OnEnd b c of (c', m, err) \<Rightarrow>
        (case end_all bs c' of (c'', calls, ms, errs) \<Rightarrow>
           (c'', Ended i # calls, (case m of None \<Rightarrow> ms | Some x \<Rightarrow> x # ms), (case err of None \<Rightarrow> errs | Some x \<Rightarrow> x # errs))))"

text \<open>
  The start of the bases, outermost first. \<open>delivered i\<close> says whether the start message of base \<open>i\<close>
  is sent before the context ends. \<open>up\<close> are the bases started so far, last first. The flag of the
  result says whether all have started; otherwise those that had are ended.
\<close>

fun start_all :: "time \<Rightarrow> (nat \<Rightarrow> bool) \<Rightarrow> nat \<Rightarrow> mw_base list \<Rightarrow> (nat \<times> mw_base) list \<Rightarrow> conn_ctx \<Rightarrow>
    conn_ctx \<times> mw_call list \<times> ServerMsg list \<times> bool" where
  "start_all now delivered i [] up c = (c, [], [], True)"
| "start_all now delivered i (b # bs) up c =
     (case OnStart b now c of
        (c', m, Some err) \<Rightarrow> (case end_all up c' of (c'', calls, ms, errs) \<Rightarrow> (c'', calls, [], False))
      | (c', None, None) \<Rightarrow>
          (case start_all now delivered (Suc i) bs ((i, b) # up) c' of
             (c'', calls, ms, ok) \<Rightarrow> (c'', Started i # calls, ms, ok))
      | (c', Some m, None) \<Rightarrow>
          if delivered i then
            (case start_all now delivered (Suc i) bs ((i, b) # up) c' of
               (c'', calls, ms, ok) \<Rightarrow> (c'', Started i # calls, m # ms, ok))
          else (case end_all ((i, b) # up) c' of (c'', calls, ms, errs) \<Rightarrow> (c'', Started i # calls, [], False)))"

text \<open>The whole handler: \<open>serve\<close> is what the connection does to the context between start and end.\<close>

definition mw_lifecycle :: "time \<Rightarrow> (nat \<Rightarrow> bool) \<Rightarrow> (conn_ctx \<Rightarrow> conn_ctx) \<Rightarrow> mw_base list \<Rightarrow> conn_ctx \<Rightarrow> conn_ctx \<times> mw_call list" where
  "mw_lifecycle now delivered serve bases c =
     (case start_all now delivered 0 bases [] c of (c', calls, ms, ok) \<Rightarrow>
        if \<not> ok then (c', calls)
        else (case end_all (rev (zip [0..<length bases] bases)) (serve c') of (c'', calls', ms', errs) \<Rightarrow> (c'', calls @ calls')))"

lemma end_all_calls: "fst (snd (end_all bs c)) = map (Ended \<circ> fst) bs"
  by (induction bs c rule: end_all.induct) (auto split: prod.splits)

definition started_of :: "mw_call list \<Rightarrow> nat list" where
  "started_of calls = List.map_filter (\<lambda>x. case x of Started i \<Rightarrow> Some i | Ended i \<Rightarrow> None) calls"

definition ended_of :: "mw_call list \<Rightarrow> nat list" where
  "ended_of calls = List.map_filter (\<lambda>x. case x of Started i \<Rightarrow> None | Ended i \<Rightarrow> Some i) calls"

lemma calls_of_simps [simp]:
  "started_of [] = []" "started_of (Started i # cs) = i # started_of cs" "started_of (Ended i # cs) = started_of cs"
  "ended_of [] = []" "ended_of (Ended i # cs) = i # ended_of cs" "ended_of (Started i # cs) = ended_of cs"
  "started_of (xs @ ys) = started_of xs @ started_of ys" "ended_of (xs @ ys) = ended_of xs @ ended_of ys"
  "started_of (map (Ended \<circ> fst) bs) = []" "ended_of (map (Ended \<circ> fst) bs) = map fst bs"
  by (simp_all add: started_of_def ended_of_def map_filter_def)

lemma start_all_calls:
  assumes "start_all now delivered i bs up c = (c', calls, ms, ok)"
  shows "if ok then started_of calls = [i..<i + length bs] \<and> ended_of calls = []
    else ended_of calls = rev (started_of calls) @ map fst up"
  using assms
proof (induction now delivered i bs up c arbitrary: c' calls ms ok rule: start_all.induct)
  case (2 now delivered i b bs up c)
  obtain c1 m err where s: "OnStart b now c = (c1, m, err)" by (metis prod_cases3)
  obtain c2 calls2 ms2 ok2 where r: "start_all now delivered (Suc i) bs ((i, b) # up) c1 = (c2, calls2, ms2, ok2)"
    by (metis prod_cases4)
  have ups: "[i..<i + length (b # bs)] = i # [Suc i..<Suc i + length bs]" by (simp add: upt_conv_Cons del: upt_Suc)
  show ?case
  proof (cases err)
    case (Some e)
    with 2(3) s show ?thesis using end_all_calls[of up c1] by (cases m) (auto split: prod.splits)
  next
    case None
    show ?thesis
    proof (cases "m = None \<or> delivered i")
      case True
      then have "calls = Started i # calls2 \<and> ok = ok2" using 2(3) s None r by (auto split: option.splits)
      moreover have "if ok2 then started_of calls2 = [Suc i..<Suc i + length bs] \<and> ended_of calls2 = []
          else ended_of calls2 = rev (started_of calls2) @ map fst ((i, b) # up)"
      proof (cases m)
        case None
        with 2(1)[OF s[symmetric] refl] r \<open>err = None\<close> show ?thesis by blast
      next
        case (Some x)
        with 2(2)[OF s[symmetric] refl] r \<open>err = None\<close> True show ?thesis by blast
      qed
      ultimately show ?thesis using ups by auto
    next
      case False
      then obtain x where "m = Some x" "\<not> delivered i" by auto
      with 2(3) s None show ?thesis using end_all_calls[of "(i, b) # up" c1] by (auto split: prod.splits)
    qed
  qed
qed simp

section \<open>The contract of a base\<close>

text \<open>A request, and the message that answers it in place of the handler.\<close>

definition well_formed :: "ClientMsg \<Rightarrow> bool" where
  "well_formed m \<longleftrightarrow> (CType m = MsgTypeEvent \<or> CType m = MsgTypeAuth \<longrightarrow> CEvent m \<noteq> None)"

definition same_request :: "ClientMsg \<Rightarrow> ClientMsg \<Rightarrow> bool" where
  "same_request m m' \<longleftrightarrow> CType m' = CType m \<and> CEvent m' = CEvent m \<and> CSubscriptionID m' = CSubscriptionID m"

definition refuses :: "ClientMsg \<Rightarrow> ServerMsg \<Rightarrow> bool" where
  "refuses m r =
     (if CType m = MsgTypeEvent then SType r = MsgTypeOK \<and> \<not> SAccepted r \<and> map_option ID (CEvent m) = Some (SEventID r)
      else if CType m = MsgTypeAuth then SType r = MsgTypeOK \<and> map_option ID (CEvent m) = Some (SEventID r)
      else SType r = MsgTypeClosed \<and> SSubscriptionID r = CSubscriptionID m)"

definition one_of :: "ClientMsg \<Rightarrow> ClientMsg option \<Rightarrow> ServerMsg option \<Rightarrow> bool" where
  "one_of m out resp \<longleftrightarrow> (\<exists>m'. out = Some m' \<and> resp = None \<and> same_request m m') \<or> (\<exists>r. out = None \<and> resp = Some r \<and> refuses m r)"

text \<open>
  What the pipeline needs of a base: once its keys are in the context (\<open>ready\<close>), it does not fail, it
  either passes a request on under the same identifiers or answers it, it leaves answers alone
  (it may drop or pass EVENT messages only), and it removes no keys.
\<close>

locale middleware =
  fixes b :: mw_base and ready :: "conn_ctx \<Rightarrow> bool"
  assumes start: "OnStart b now c = (c', greeting, None) \<Longrightarrow> ready c' \<and> ctx_le c c'"
    and client: "ready c \<Longrightarrow> well_formed m \<Longrightarrow>
      \<exists>c' out resp. HandleClientMsg b now m c = Inr (c', out, resp) \<and> ctx_le c c' \<and> one_of m out resp"
    and server: "ready c \<Longrightarrow> \<exists>c' out. HandleServerMsg b now r c = Inr (c', out) \<and> ctx_le c c'
      \<and> (out = Some r \<or> out = None \<and> SType r = MsgTypeEvent)"
    and ready_le: "ready c \<Longrightarrow> ctx_le c c' \<Longrightarrow> ready c'"
begin

lemma server_answer:
  "ready c \<Longrightarrow> SType r \<noteq> MsgTypeEvent \<Longrightarrow> \<exists>c'. HandleServerMsg b now r c = Inr (c', Some r) \<and> ctx_le c c'"
  using server by blast

end

lemma one_of_intros:
  "one_of m (Some m) None"
  "CType m = MsgTypeEvent \<Longrightarrow> CEvent m = Some e \<Longrightarrow> one_of m None (Some (NewServerOKMsg (ID e) False s))"
  "CType m = MsgTypeAuth \<Longrightarrow> CEvent m = Some e \<Longrightarrow> one_of m None (Some (NewServerOKMsg (ID e) a s))"
  "CType m \<noteq> MsgTypeEvent \<Longrightarrow> CType m \<noteq> MsgTypeAuth \<Longrightarrow> one_of m None (Some (NewServerClosedMsg (CSubscriptionID m) s))"
  by (simp_all add: one_of_def same_request_def refuses_def msg_defs)

text \<open>The methods most bases share keep the contract.\<close>

lemma plain_methods:
  "start_same now c = (c', greeting, None) \<Longrightarrow> ctx_le c c'"
  "\<exists>c' out. server_same now r c = Inr (c', out) \<and> ctx_le c c' \<and> (out = Some r \<or> out = None \<and> SType r = MsgTypeEvent)"
  by (simp_all add: start_same_def server_same_def)

text \<open>A conversation: the messages a base handles one after the other, and those it passes on.\<close>

fun mw_talk :: "(time \<Rightarrow> ClientMsg \<Rightarrow> conn_ctx \<Rightarrow> mw_error + conn_ctx \<times> ClientMsg option \<times> ServerMsg option) \<Rightarrow>
    (time \<times> ClientMsg) list \<Rightarrow> conn_ctx \<Rightarrow> mw_error + conn_ctx \<times> ClientMsg list" where
  "mw_talk h [] c = Inr (c, [])"
| "mw_talk h ((now, msg) # msgs) c =
     (case h now msg c of Inl err \<Rightarrow> Inl err
      | Inr (c', out, resp) \<Rightarrow>
          (case mw_talk h msgs c' of Inl err \<Rightarrow> Inl err
           | Inr (c'', outs) \<Rightarrow> Inr (c'', (case out of None \<Rightarrow> outs | Some x \<Rightarrow> x # outs))))"

text \<open>A base with its contract, in a context where it is ready.\<close>

definition mw_ready :: "conn_ctx \<Rightarrow> mw_base \<Rightarrow> bool" where
  "mw_ready c b \<longleftrightarrow> (\<exists>ready. middleware b ready \<and> ready c)"

lemma mw_ready_le: "mw_ready c b \<Longrightarrow> ctx_le c c' \<Longrightarrow> mw_ready c' b"
  unfolding mw_ready_def using middleware.ready_le by blast

lemma mw_ready_client:
  "mw_ready c b \<Longrightarrow> well_formed m \<Longrightarrow>
    \<exists>c' out resp. HandleClientMsg b now m c = Inr (c', out, resp) \<and> ctx_le c c' \<and> one_of m out resp"
  unfolding mw_ready_def using middleware.client by blast

lemma server_chain_answer:
  assumes "\<forall>b\<in>set bs. mw_ready c b" "SType r \<noteq> MsgTypeEvent"
  shows "\<exists>c'. server_chain bs now r c = Inr (c', Some r) \<and> ctx_le c c'"
  using assms
proof (induction bs arbitrary: c)
  case (Cons b bs)
  then obtain c1 where c1: "HandleServerMsg b now r c = Inr (c1, Some r)" "ctx_le c c1"
    unfolding mw_ready_def using middleware.server_answer by (metis list.set_intros(1))
  have "\<forall>b\<in>set bs. mw_ready c1 b" using Cons.prems(1) mw_ready_le[OF _ c1(2)] by simp
  from Cons.IH[OF this Cons.prems(2)] obtain c2 where "server_chain bs now r c1 = Inr (c2, Some r)" "ctx_le c1 c2" by blast
  with c1 ctx_le_trans[OF c1(2)] show ?case by (intro exI[of _ c2]) simp
qed simp

lemma refuses_not_event: "well_formed m \<Longrightarrow> refuses m r \<Longrightarrow> SType r \<noteq> MsgTypeEvent"
  by (auto simp: refuses_def split: if_splits)

lemma same_request_facts:
  "same_request m m" "same_request m m' \<Longrightarrow> same_request m' m'' \<Longrightarrow> same_request m m''"
  "same_request m m' \<Longrightarrow> well_formed m \<Longrightarrow> well_formed m'"
  "same_request m m' \<Longrightarrow> refuses m' r \<Longrightarrow> refuses m r"
  by (auto simp: same_request_def well_formed_def refuses_def)

lemma client_chain_one:
  assumes "\<forall>b\<in>set outer \<union> set bs. mw_ready c b" "well_formed m"
  shows "\<exists>c' out rs. client_chain outer bs now m c = Inr (c', out, rs) \<and> ctx_le c c'
    \<and> ((\<exists>m'. out = Some m' \<and> rs = [] \<and> same_request m m') \<or> (\<exists>r. out = None \<and> rs = [r] \<and> refuses m r))"
  using assms
proof (induction bs arbitrary: outer m c)
  case Nil
  then show ?case by (simp add: same_request_facts)
next
  case (Cons b bs)
  obtain c1 out resp where h: "HandleClientMsg b now m c = Inr (c1, out, resp)" "ctx_le c c1" "one_of m out resp"
    using mw_ready_client[of c b m now] Cons.prems by auto
  have r1: "\<forall>x\<in>set outer \<union> set (b # bs). mw_ready c1 x" using Cons.prems(1) mw_ready_le[OF _ h(2)] by blast
  from h(3) consider (pass) m' where "out = Some m'" "resp = None" "same_request m m'"
    | (refuse) r where "out = None" "resp = Some r" "refuses m r" by (auto simp: one_of_def)
  then show ?case
  proof cases
    case pass
    have "well_formed m'" using same_request_facts(3)[OF pass(3) Cons.prems(2)] .
    moreover have "\<forall>x\<in>set (b # outer) \<union> set bs. mw_ready c1 x" using r1 by auto
    ultimately obtain c2 out2 rs where c2: "client_chain (b # outer) bs now m' c1 = Inr (c2, out2, rs)" "ctx_le c1 c2"
      "(\<exists>m''. out2 = Some m'' \<and> rs = [] \<and> same_request m' m'') \<or> (\<exists>r. out2 = None \<and> rs = [r] \<and> refuses m' r)"
      using Cons.IH[of "b # outer" c1 m'] by auto
    then have "client_chain outer (b # bs) now m c = Inr (c2, out2, rs)" using h(1) pass by simp
    moreover have "ctx_le c c2" using h(2) c2(2) ctx_le_trans by blast
    ultimately show ?thesis using c2(3) pass(3) same_request_facts(2,4) by blast
  next
    case refuse
    have "\<forall>x\<in>set outer. mw_ready c1 x" using r1 by blast
    then obtain c2 where "server_chain outer now r c1 = Inr (c2, Some r)" "ctx_le c1 c2"
      using server_chain_answer refuses_not_event[OF Cons.prems(2) refuse(3)] by blast
    then have "client_chain outer (b # bs) now m c = Inr (c2, None, [r])" "ctx_le c c2"
      using h(1) refuse ctx_le_trans[OF h(2)] by simp_all
    then show ?thesis using refuse(3) by blast
  qed
qed

lemma pipe_client_one:
  assumes "\<forall>b\<in>set bases. mw_ready c b" "well_formed m"
  shows "\<exists>c' out rs. pipe_client bases now m c = Inr (c', out, rs) \<and> ctx_le c c'
    \<and> ((\<exists>m'. out = Some m' \<and> rs = [] \<and> same_request m m') \<or> (\<exists>r. out = None \<and> rs = [r] \<and> refuses m r))"
  unfolding pipe_client_def using client_chain_one[of "[]" bases c m now] assms by simp

lemma server_chain_ready:
  assumes "\<forall>b\<in>set bs. mw_ready c b"
  shows "\<exists>c' out. server_chain bs now r c = Inr (c', out) \<and> ctx_le c c'"
  using assms
proof (induction bs arbitrary: c)
  case (Cons b bs)
  then obtain c1 out where c1: "HandleServerMsg b now r c = Inr (c1, out)" "ctx_le c c1" "out = Some r \<or> out = None"
    unfolding mw_ready_def using middleware.server by (metis list.set_intros(1))
  have "\<forall>b\<in>set bs. mw_ready c1 b" using Cons.prems mw_ready_le[OF _ c1(2)] by simp
  with Cons.IH[of c1] c1 ctx_le_trans[OF c1(2)] show ?case by auto
qed simp

lemma mw_ready_all_le: "\<forall>b\<in>set bases. mw_ready c b \<Longrightarrow> ctx_le c c' \<Longrightarrow> \<forall>b\<in>set bases. mw_ready c' b"
  using mw_ready_le by blast

fun input_ok :: "pipe_input \<Rightarrow> bool" where
  "input_ok (ClientIn now m) = well_formed m"
| "input_ok (ServerIn now r) = True"

text \<open>No base fails on well-formed input.\<close>

lemma pipe_process_ready:
  assumes "\<forall>b\<in>set bases. mw_ready c b" "\<forall>inp\<in>set inps. input_ok inp"
  shows "\<exists>c' downs clients. pipe_process bases inps c = Inr (c', downs, clients) \<and> ctx_le c c'"
  using assms
proof (induction inps arbitrary: c)
  case (Cons inp inps)
  obtain c1 downs1 clients1 where 1: "pipe_process bases [inp] c = Inr (c1, downs1, clients1)" "ctx_le c c1"
  proof (cases inp)
    case (ClientIn now m)
    then have "well_formed m" using Cons.prems(2) by simp
    from pipe_client_one[OF Cons.prems(1) this, of now] ClientIn that show ?thesis by (fastforce split: option.splits)
  next
    case (ServerIn now r)
    have "\<forall>b\<in>set (rev bases). mw_ready c b" using Cons.prems(1) by simp
    from server_chain_ready[OF this, of now r] ServerIn that show ?thesis by (fastforce simp: pipe_server_def)
  qed
  obtain c2 downs2 clients2 where 2: "pipe_process bases inps c1 = Inr (c2, downs2, clients2)" "ctx_le c1 c2"
    using Cons.IH[OF mw_ready_all_le[OF Cons.prems(1) 1(2)]] Cons.prems(2) by auto
  then have "pipe_process bases ([inp] @ inps) c = Inr (c2, downs1 @ downs2, clients1 @ clients2)"
    unfolding pipe_process_append using 1 by simp
  then show ?case using ctx_le_trans[OF 1(2) 2(2)] by auto
qed simp

lemma start_all_ready:
  assumes "start_all now delivered i bs up c = (c', calls, ms, True)" "\<forall>b\<in>set bs. \<exists>ready. middleware b ready"
  shows "ctx_le c c' \<and> (\<forall>b\<in>set bs. mw_ready c' b)"
  using assms
proof (induction bs arbitrary: i up c calls ms)
  case (Cons b bs)
  obtain c1 greeting err where s: "OnStart b now c = (c1, greeting, err)" by (metis prod_cases3)
  have "err = None" using Cons.prems(1) s by (cases err; cases greeting) (auto split: prod.splits)
  then obtain calls2 ms2 where r: "start_all now delivered (Suc i) bs ((i, b) # up) c1 = (c', calls2, ms2, True)"
    using Cons.prems(1) s by (cases greeting) (auto split: prod.splits if_splits)
  obtain ready where m: "middleware b ready" using Cons.prems(2) by auto
  have 1: "ready c1" "ctx_le c c1" using middleware.start[OF m] s \<open>err = None\<close> by blast+
  have 2: "ctx_le c1 c'" "\<forall>b\<in>set bs. mw_ready c' b" using Cons.IH[OF r] Cons.prems(2) by auto
  have "mw_ready c' b" using 1(1) 2(1) m mw_ready_le unfolding mw_ready_def by blast
  with 2 ctx_le_trans[OF 1(2)] show ?case by simp
qed simp

section \<open>Properties\<close>

text \<open>C26. The loop of the pipeline reorders and loses nothing: what it has handed to the handler and to
  the client, followed by what is pending, is what the bases made of the inputs in the order they
  came; and when it ends because the client has gone, nothing is pending.\<close>

theorem pipeline_loop_fifo:
  assumes "pipe_run bases (pipe_start c) tr p"
  shows "\<exists>downs clients. pipe_process bases tr c = Inr (pctx p, downs, clients)
    \<and> toDownstream p @ pendingToDownstream p = downs \<and> toClient p @ pendingToClient p = clients
    \<and> (pipeExit p = Some PipeDone \<longrightarrow> toDownstream p = downs \<and> toClient p = clients)"
proof -
  have "pipeExit p = Some PipeDone \<longrightarrow> pendingToDownstream p = [] \<and> pendingToClient p = []"
    using pipe_run_exit[OF assms] by (auto simp: pipe_start_def pipe_drained_def)
  with pipe_run_process[OF assms] show ?thesis by (auto simp: pipe_start_def)
qed

text \<open>C27. The lifecycle is well bracketed: whether all bases start, one fails to start, or the context
  ends while a start message is being sent, every base that has started is ended exactly once, in
  the reverse order.\<close>

theorem lifecycle_brackets:
  "ended_of (snd (mw_lifecycle now delivered serve bases c)) = rev (started_of (snd (mw_lifecycle now delivered serve bases c)))"
proof -
  obtain c' calls ms ok where s: "start_all now delivered 0 bases [] c = (c', calls, ms, ok)" by (metis prod_cases4)
  note sc = start_all_calls[OF s]
  show ?thesis
  proof (cases ok)
    case True
    define up where "up = rev (zip [0..<length bases] bases)"
    have "map fst up = rev [0..<length bases]" by (simp add: up_def rev_map[symmetric])
    moreover have "started_of calls = [0..<length bases]" "ended_of calls = []" using True sc by simp_all
    moreover have "snd (mw_lifecycle now delivered serve bases c) = calls @ map (Ended \<circ> fst) up"
      using s True end_all_calls[of up "serve c'"] by (simp add: mw_lifecycle_def up_def split_beta)
    ultimately show ?thesis by simp
  next
    case False
    with sc s show ?thesis by (simp add: mw_lifecycle_def)
  qed
qed

section \<open>A concrete run\<close>

lemma pipeline_loop_fifo_witness:
  "\<exists>p. pipe_run [] (pipe_start (new_ctx False)) [ClientIn 0 (client_close ''a'')] p
    \<and> pipeExit p = Some PipeDone \<and> toDownstream p = [client_close ''a'']"
proof -
  let ?m = "client_close ''a''" and ?p0 = "pipe_start (new_ctx False)"
  let ?p1 = "?p0\<lparr>pendingToDownstream := [?m]\<rparr>"
  let ?p2 = "?p1\<lparr>pendingToDownstream := [], toDownstream := [?m]\<rparr>"
  let ?p3 = "?p2\<lparr>recvOpen := False\<rparr>"
  let ?p4 = "?p3\<lparr>pipeExit := Some PipeDone\<rparr>"
  note simps = pipe_start_def pipe_busy_def pipe_drained_def pipe_client_def
  have 1: "pipe_step [] ?p0 [ClientIn 0 ?m] ?p1" using pipe_recv[of ?p0 "[]" 0 ?m "pctx ?p0" "Some ?m" "[]"] by (simp add: simps)
  have 2: "pipe_step [] ?p1 [] ?p2" using pipe_send_down[of ?p1 ?m "[]" "[]"] by (simp add: simps)
  have 3: "pipe_step [] ?p2 [] ?p3" using pipe_recv_closed[of ?p2 "[]"] by (simp add: simps)
  have 4: "pipe_step [] ?p3 [] ?p4" using pipe_done[of ?p3 "[]"] by (simp add: simps)
  have "pipe_run [] ?p0 (((([] @ [ClientIn 0 ?m]) @ []) @ []) @ []) ?p4"
    by (intro pipe_run_step[OF _ 4] pipe_run_step[OF _ 3] pipe_run_step[OF _ 2] pipe_run_step[OF pipe_run_refl 1])
  then have r: "pipe_run [] ?p0 [ClientIn 0 ?m] ?p4" by simp
  from pipeline_loop_fifo[OF r] have "toDownstream ?p4 = [?m]" by (simp add: pipe_client_def)
  with r show ?thesis by auto
qed

end
