(* ===== verification/Middleware_Auth.thy ===== *)
theory Middleware_Auth
  imports Middleware
begin

text \<open>
  Authentication (\<^verbatim>\<open>middleware_auth.go\<close>) and protected events (\<^verbatim>\<open>middleware_protected_events.go\<close>).
  The random bytes of a challenge are a parameter, \<open>None\<close> where the random source fails. The
  metrics of the context are its fields \<open>authMetrics\<close> (present or not), \<open>authGauge\<close> and
  \<open>authTotal\<close>. Mutexes and log lines are left out.
\<close>

section \<open>The authentication base\<close>

record authMiddleware =
  relayURL :: string
  createdAtTolerance :: int

definition NewAuthMiddlewareBase :: "string \<Rightarrow> int option \<Rightarrow> authMiddleware" where
  "NewAuthMiddlewareBase url opts =
     (let tolerance = (case opts of None \<Rightarrow> 0 | Some t \<Rightarrow> t)
      in \<lparr>relayURL = url, createdAtTolerance = (if tolerance = 0 then 10 * 60 * nsPerSec else tolerance)\<rparr>)"

definition generateChallenge :: "string option \<Rightarrow> string option" where
  "generateChallenge rand = map_option EncodeToString rand"

definition auth_OnStart :: "string option \<Rightarrow> time \<Rightarrow> conn_ctx \<Rightarrow> conn_ctx \<times> ServerMsg option \<times> mw_error option" where
  "auth_OnStart rand now c =
     (case generateChallenge rand of
        None \<Rightarrow> (c, None, Some (MwErr ''failed to generate challenge''))
      | Some chal \<Rightarrow>
          (c\<lparr>authSt := Some \<lparr>challenge = chal, authedPubkeys = {}, authenticated = False\<rparr>\<rparr>,
           Some (NewServerAuthMsg chal), None))"

definition auth_OnEnd :: "conn_ctx \<Rightarrow> conn_ctx \<times> ServerMsg option \<times> mw_error option" where
  "auth_OnEnd c =
     (if authMetrics c then
        (case authSt c of
           None \<Rightarrow> (c, None, Some MwPanic)
         | Some st \<Rightarrow> (if authenticated st then c\<lparr>authGauge := authGauge c - 1\<rparr> else c, None, None))
      else (c, None, None))"

fun findTagValue :: "Tag list \<Rightarrow> string \<Rightarrow> string" where
  "findTagValue [] name = ''''"
| "findTagValue (tag # tags) name =
     (if length tag \<ge> 2 \<and> tag ! 0 = name then tag ! 1 else findTagValue tags name)"

text \<open>\<^verbatim>\<open>metrics.AuthTotal.WithLabelValues(l).Inc()\<close> where there are metrics.\<close>

definition count_auth :: "string \<Rightarrow> conn_ctx \<Rightarrow> conn_ctx" where
  "count_auth l c = (if authMetrics c then c\<lparr>authTotal := (authTotal c)(l := authTotal c l + 1)\<rparr> else c)"

definition mark_authed :: "authState \<Rightarrow> string \<Rightarrow> conn_ctx \<Rightarrow> conn_ctx" where
  "mark_authed st pubkey c =
     (let st1 = st\<lparr>authedPubkeys := insert pubkey (authedPubkeys st)\<rparr> in
      if authMetrics c \<and> \<not> authenticated st1
      then c\<lparr>authSt := Some (st1\<lparr>authenticated := True\<rparr>), authGauge := authGauge c + 1\<rparr>
      else c\<lparr>authSt := Some st1\<rparr>)"

definition handleAuth ::
  "authMiddleware \<Rightarrow> time \<Rightarrow> authState \<Rightarrow> ClientMsg \<Rightarrow> conn_ctx \<Rightarrow> mw_error + conn_ctx \<times> ClientMsg option \<times> ServerMsg option" where
  "handleAuth m now st msg c =
     (case CEvent msg of
        None \<Rightarrow> respond c (NewServerOKMsg '''' False ''invalid: missing auth event'')
      | Some event \<Rightarrow>
          if Kind event \<noteq> 22242 then
            respond (count_auth ''invalid_kind'' c) (NewServerOKMsg (ID event) False ''invalid: auth event must be kind 22242'')
          else if CreatedAt event < now + wrap64 (- createdAtTolerance m) \<or> CreatedAt event > now + createdAtTolerance m then
            respond (count_auth ''expired'' c) (NewServerOKMsg (ID event) False ''invalid: auth event created_at out of range'')
          else if findTagValue (tags_of event) ''challenge'' \<noteq> challenge st then
            respond (count_auth ''challenge_mismatch'' c) (NewServerOKMsg (ID event) False ''invalid: challenge mismatch'')
          else if relayURL m \<noteq> '''' \<and> findTagValue (tags_of event) ''relay'' \<noteq> relayURL m
              \<and> findTagValue (tags_of event) ''relay'' = '''' then
            respond (count_auth ''invalid_relay'' c) (NewServerOKMsg (ID event) False ''invalid: missing relay tag'')
          else respond (mark_authed st (Pubkey event) (count_auth ''success'' c)) (NewServerOKMsg (ID event) True ''''))"

definition isAuthed :: "authState \<Rightarrow> bool" where
  "isAuthed st \<longleftrightarrow> authedPubkeys st \<noteq> {}"

definition isAuthedPubkey :: "authState \<Rightarrow> string \<Rightarrow> bool" where
  "isAuthedPubkey st pubkey \<longleftrightarrow> pubkey \<in> authedPubkeys st"

definition auth_HandleClientMsg ::
  "authMiddleware \<Rightarrow> time \<Rightarrow> ClientMsg \<Rightarrow> conn_ctx \<Rightarrow> mw_error + conn_ctx \<times> ClientMsg option \<times> ServerMsg option" where
  "auth_HandleClientMsg m now msg c =
     (case authSt c of None \<Rightarrow> Inl MwPanic
      | Some st \<Rightarrow>
          if CType msg = MsgTypeAuth then handleAuth m now st msg c
          else if CType msg = MsgTypeEvent then
            (case CEvent msg of None \<Rightarrow> Inl MwPanic
             | Some event \<Rightarrow>
                 if \<not> isAuthedPubkey st (Pubkey event) then
                   respond c (NewServerOKMsg (ID event) False ''auth-required: authentication required to publish events'')
                 else pass_on c msg)
          else if CType msg = MsgTypeReq then
            (if \<not> isAuthed st then
               respond c (NewServerClosedMsg (CSubscriptionID msg) ''auth-required: authentication required to subscribe'')
             else pass_on c msg)
          else pass_on c msg)"

definition auth_base :: "string option \<Rightarrow> authMiddleware \<Rightarrow> mw_base" where
  "auth_base rand m = \<lparr>OnStart = auth_OnStart rand, OnEnd = auth_OnEnd, HandleClientMsg = auth_HandleClientMsg m,
     HandleServerMsg = server_same\<rparr>"

section \<open>Protected events\<close>

definition hasProtectedTag :: "Event \<Rightarrow> bool" where
  "hasProtectedTag event = list_ex (\<lambda>tag. length tag = 1 \<and> tag ! 0 = ''-'') (tags_of event)"

definition isAuthedAsPubkey :: "conn_ctx \<Rightarrow> string \<Rightarrow> bool" where
  "isAuthedAsPubkey c pubkey = (case authSt c of None \<Rightarrow> False | Some st \<Rightarrow> pubkey \<in> authedPubkeys st)"

definition protected_HandleClientMsg ::
  "time \<Rightarrow> ClientMsg \<Rightarrow> conn_ctx \<Rightarrow> mw_error + conn_ctx \<times> ClientMsg option \<times> ServerMsg option" where
  "protected_HandleClientMsg now msg c =
     (if CType msg \<noteq> MsgTypeEvent then pass_on c msg
      else case CEvent msg of None \<Rightarrow> pass_on c msg
        | Some event \<Rightarrow>
            if \<not> hasProtectedTag event then pass_on c msg
            else if \<not> isAuthedAsPubkey c (Pubkey event) then
              respond c (NewServerOKMsg (ID event) False ''auth-required: this event may only be published by its author'')
            else pass_on c msg)"

definition protected_base :: mw_base where
  "protected_base = \<lparr>OnStart = start_same, OnEnd = end_same, HandleClientMsg = protected_HandleClientMsg, HandleServerMsg = server_same\<rparr>"

section \<open>The contract\<close>

lemma count_auth_fields [simp]:
  "authSt (count_auth l c) = authSt c" "subsSt (count_auth l c) = subsSt c" "eventTB (count_auth l c) = eventTB c"
  "reqTB (count_auth l c) = reqTB c" "countTB (count_auth l c) = countTB c" "authTB (count_auth l c) = authTB c"
  "authMetrics (count_auth l c) = authMetrics c" "authGauge (count_auth l c) = authGauge c"
  by (simp_all add: count_auth_def)

lemma mark_authed_le [simp]: "ctx_le c (mark_authed st pk (count_auth l c))"
  by (simp add: mark_authed_def Let_def ctx_le_def)

lemma count_auth_le [simp]: "ctx_le c (count_auth l c)"
  by (simp add: ctx_le_def)

lemma handleAuth_one:
  assumes "CType m = MsgTypeAuth" "CEvent m = Some e"
  shows "\<exists>c' out resp. handleAuth a now st m c = Inr (c', out, resp) \<and> ctx_le c c' \<and> one_of m out resp"
  unfolding handleAuth_def respond_def using assms one_of_intros(3)[OF assms] by simp

lemma auth_client_one:
  assumes "authSt c \<noteq> None" "well_formed m"
  shows "\<exists>c' out resp. auth_HandleClientMsg a now m c = Inr (c', out, resp) \<and> ctx_le c c' \<and> one_of m out resp"
proof -
  obtain st where st: "authSt c = Some st" using assms(1) by blast
  consider (auth) "CType m = MsgTypeAuth" | (event) "CType m = MsgTypeEvent" | (other) "CType m \<noteq> MsgTypeAuth" "CType m \<noteq> MsgTypeEvent"
    by blast
  then show ?thesis
  proof cases
    case auth
    then show ?thesis using assms(2) handleAuth_one[OF auth] st by (auto simp: well_formed_def auth_HandleClientMsg_def)
  next
    case event
    then obtain e where "CEvent m = Some e" using assms(2) by (auto simp: well_formed_def)
    then show ?thesis using event st one_of_intros(1,2) by (auto simp: auth_HandleClientMsg_def respond_def pass_on_def)
  next
    case other
    then show ?thesis using st one_of_intros(1,4) by (auto simp: auth_HandleClientMsg_def respond_def pass_on_def)
  qed
qed

interpretation auth: middleware "auth_base rand m" "\<lambda>c. authSt c \<noteq> None"
proof unfold_locales
  show "OnStart (auth_base rand m) now c = (c', greeting, None) \<Longrightarrow> authSt c' \<noteq> None \<and> ctx_le c c'" for now c c' greeting
    by (auto simp: auth_base_def auth_OnStart_def ctx_le_def split: option.splits)
  show "authSt c \<noteq> None \<Longrightarrow> well_formed msg \<Longrightarrow>
      \<exists>c' out resp. HandleClientMsg (auth_base rand m) now msg c = Inr (c', out, resp) \<and> ctx_le c c' \<and> one_of msg out resp" for c msg now
    using auth_client_one[of c msg m now] by (simp add: auth_base_def)
qed (auto simp: auth_base_def server_same_def ctx_le_def)

lemma protected_client_one:
  "\<exists>c' out resp. protected_HandleClientMsg now m c = Inr (c', out, resp) \<and> ctx_le c c' \<and> one_of m out resp"
  using one_of_intros(1,2)
  by (auto simp: protected_HandleClientMsg_def respond_def pass_on_def split: option.splits)

interpretation protected: middleware protected_base "\<lambda>c. True"
  by unfold_locales (auto simp: protected_base_def mw_defs protected_client_one)

section \<open>Conversations with the authentication base\<close>

text \<open>An AUTH message that proves its author.\<close>

definition proves :: "authMiddleware \<Rightarrow> string \<Rightarrow> time \<times> ClientMsg \<Rightarrow> string \<Rightarrow> bool" where
  "proves m chal tm pk \<longleftrightarrow>
     (case tm of (now, msg) \<Rightarrow> CType msg = MsgTypeAuth \<and>
       (case CEvent msg of None \<Rightarrow> False | Some ev \<Rightarrow>
          Kind ev = 22242 \<and> Pubkey ev = pk
          \<and> now + wrap64 (- createdAtTolerance m) \<le> CreatedAt ev \<and> CreatedAt ev \<le> now + createdAtTolerance m
          \<and> findTagValue (tags_of ev) ''challenge'' = chal
          \<and> (relayURL m = '''' \<or> findTagValue (tags_of ev) ''relay'' \<noteq> '''')))"

definition proven :: "authMiddleware \<Rightarrow> string \<Rightarrow> (time \<times> ClientMsg) list \<Rightarrow> string set" where
  "proven m chal msgs = {pk. \<exists>tm\<in>set msgs. proves m chal tm pk}"

lemma proven_simps: "proven m chal [] = {}"
  "proven m chal (tm # tms) = {pk. proves m chal tm pk} \<union> proven m chal tms"
  by (auto simp: proven_def)

text \<open>The state of a connection that was greeted with \<open>chal\<close> in context \<open>c0\<close> and has proven the keys \<open>S\<close>.\<close>

definition auth_state :: "conn_ctx \<Rightarrow> string \<Rightarrow> string set \<Rightarrow> conn_ctx \<Rightarrow> bool" where
  "auth_state c0 chal S c \<longleftrightarrow> (\<exists>st. authSt c = Some st \<and> challenge st = chal \<and> authedPubkeys st = S
     \<and> authMetrics c = authMetrics c0 \<and> authGauge c = authGauge c0 + (if authenticated st then 1 else 0)
     \<and> (authMetrics c0 \<longrightarrow> (authenticated st \<longleftrightarrow> S \<noteq> {})))"

lemma mark_authed_state:
  assumes "auth_state c0 chal S c" "authSt c = Some st"
  shows "auth_state c0 chal (insert pk S) (mark_authed st pk (count_auth l c))"
proof (cases "authMetrics c \<and> \<not> authenticated st")
  case True
  with assms show ?thesis by (simp add: auth_state_def mark_authed_def)
next
  case False
  then have "mark_authed st pk (count_auth l c) = (count_auth l c)\<lparr>authSt := Some (st\<lparr>authedPubkeys := insert pk (authedPubkeys st)\<rparr>)\<rparr>"
    by (auto simp: mark_authed_def Let_def)
  with False assms show ?thesis by (auto simp: auth_state_def)
qed

lemma auth_state_count: "auth_state c0 chal S c \<Longrightarrow> auth_state c0 chal S (count_auth l c)"
  by (simp add: auth_state_def)

lemma handleAuth_denied:
  assumes "CType msg = MsgTypeAuth" "\<nexists>pk. proves m (challenge st) (now, msg) pk" "handleAuth m now st msg c = Inr (c', out, resp)"
  shows "c' = c \<or> (\<exists>l. c' = count_auth l c)"
proof (cases "CEvent msg")
  case None
  with assms(3) show ?thesis by (simp add: handleAuth_def respond_def)
next
  case (Some ev)
  let ?bad = "Kind ev \<noteq> 22242 \<or> CreatedAt ev < now + wrap64 (- createdAtTolerance m) \<or> CreatedAt ev > now + createdAtTolerance m
    \<or> findTagValue (tags_of ev) ''challenge'' \<noteq> challenge st
    \<or> relayURL m \<noteq> '''' \<and> findTagValue (tags_of ev) ''relay'' = ''''"
  have bad: ?bad using assms(1,2) Some by (auto simp: proves_def)
  have r: "respond (count_auth l c) r = Inr (c', out, resp) \<Longrightarrow> c' = count_auth l c" for l r
    by (simp add: respond_def)
  show ?thesis
  proof (rule disjI2, rule ccontr)
    assume no: "\<nexists>l. c' = count_auth l c"
    then have "Kind ev = 22242" using assms(3) r by (fastforce simp: handleAuth_def Some split: if_splits)
    moreover have "\<not> (CreatedAt ev < now + wrap64 (- createdAtTolerance m) \<or> CreatedAt ev > now + createdAtTolerance m)"
      using calculation assms(3) r no unfolding handleAuth_def Some by (auto split: if_splits)
    moreover have "findTagValue (tags_of ev) ''challenge'' = challenge st"
      using calculation assms(3) r no unfolding handleAuth_def Some by (auto split: if_splits)
    ultimately show False using bad assms(3) r no unfolding handleAuth_def Some by (auto split: if_splits)
  qed
qed

lemma auth_step_state:
  assumes s: "auth_state c0 chal S c" and h: "auth_HandleClientMsg m now msg c = Inr (c', out, resp)"
  shows "auth_state c0 chal (S \<union> {pk. proves m chal (now, msg) pk}) c'"
proof -
  obtain st where st: "authSt c = Some st" "challenge st = chal" using s by (auto simp: auth_state_def)
  show ?thesis
  proof (cases "CType msg = MsgTypeAuth")
    case False
    then have "c' = c" using h st
      by (auto simp: auth_HandleClientMsg_def respond_def pass_on_def split: if_splits option.splits)
    with False s show ?thesis by (simp add: proves_def)
  next
    case True
    then have h': "handleAuth m now st msg c = Inr (c', out, resp)" using h st by (simp add: auth_HandleClientMsg_def)
    show ?thesis
    proof (cases "\<exists>pk. proves m chal (now, msg) pk")
      case no: False
      then have "c' = c \<or> (\<exists>l. c' = count_auth l c)" using h' handleAuth_denied[OF True] st by metis
      then have "auth_state c0 chal S c'" using auth_state_count[OF s] s by auto
      with no show ?thesis by simp
    next
      case yes: True
      then obtain ev where ev: "CEvent msg = Some ev" by (auto simp: proves_def split: option.splits)
      have "c' = mark_authed st (Pubkey ev) (count_auth ''success'' c)" using yes h' ev st
        by (auto simp: handleAuth_def respond_def proves_def)
      moreover have "{pk. proves m chal (now, msg) pk} = {Pubkey ev}" using yes ev by (auto simp: proves_def)
      moreover have "S \<union> {Pubkey ev} = insert (Pubkey ev) S" by simp
      ultimately show ?thesis using mark_authed_state[OF s st(1), of "Pubkey ev" "''success''"] by metis
    qed
  qed
qed

lemma auth_talk_state:
  "auth_state c0 chal S c \<Longrightarrow> mw_talk (auth_HandleClientMsg m) msgs c = Inr (c', outs) \<Longrightarrow> auth_state c0 chal (S \<union> proven m chal msgs) c'"
proof (induction msgs arbitrary: c S outs)
  case (Cons tm msgs)
  obtain now msg where tm: "tm = (now, msg)" by force
  obtain c1 out resp outs1 where h: "auth_HandleClientMsg m now msg c = Inr (c1, out, resp)" "mw_talk (auth_HandleClientMsg m) msgs c1 = Inr (c', outs1)"
    using Cons.prems(2) tm by (auto split: sum.splits prod.splits)
  from Cons.IH[OF auth_step_state[OF Cons.prems(1) h(1)] h(2)] tm show ?case by (simp add: proven_simps Un_assoc)
qed (simp add: proven_simps)

lemma auth_start:
  "auth_OnStart (Some rand) now c0 = (c, greeting, err) \<Longrightarrow> auth_state c0 (EncodeToString rand) {} c"
  by (auto simp: auth_OnStart_def generateChallenge_def auth_state_def)

lemmas auth_conversation = auth_talk_state[OF auth_start, simplified]

section \<open>Properties\<close>

text \<open>C28. After any conversation, an EVENT is passed on exactly if its author has proven itself in that
  conversation by an AUTH event of kind 22242, created within the tolerance, carrying the challenge
  this connection was greeted with (and a relay tag, whatever its value, if a relay URL is set); a
  REQ is passed on exactly if some key has been proven; AUTH is never passed on, all else always.\<close>

theorem auth_passes_exactly:
  assumes "auth_OnStart (Some rand) t0 c0 = (c, greeting, err)" "mw_talk (auth_HandleClientMsg m) msgs c = Inr (c', outs)" "well_formed msg"
  shows "\<exists>c'' out resp. auth_HandleClientMsg m now msg c' = Inr (c'', out, resp)
    \<and> (out = Some msg \<longleftrightarrow>
        (if CType msg = MsgTypeEvent then Pubkey (the (CEvent msg)) \<in> proven m (EncodeToString rand) msgs
         else if CType msg = MsgTypeReq then proven m (EncodeToString rand) msgs \<noteq> {}
         else CType msg \<noteq> MsgTypeAuth))"
proof -
  obtain st where st: "authSt c' = Some st" "authedPubkeys st = proven m (EncodeToString rand) msgs"
    using auth_conversation[OF assms(1,2)] by (auto simp: auth_state_def)
  obtain c'' out resp where h: "auth_HandleClientMsg m now msg c' = Inr (c'', out, resp)"
    using auth_client_one[of c' msg m now] st(1) assms(3) by blast
  have "out = Some msg \<longleftrightarrow>
      (if CType msg = MsgTypeEvent then isAuthedPubkey st (Pubkey (the (CEvent msg)))
       else if CType msg = MsgTypeReq then isAuthed st else CType msg \<noteq> MsgTypeAuth)"
    using h st(1) assms(3)
    by (auto simp: auth_HandleClientMsg_def handleAuth_def respond_def pass_on_def well_formed_def split: if_splits option.splits)
  with h st(2) show ?thesis by (auto simp: isAuthedPubkey_def isAuthed_def)
qed

text \<open>The gauge of authenticated connections is balanced: during a conversation it is raised by one
  exactly if the connection has proven a key (with metrics on), and the end of the connection takes
  it back to where it was.\<close>

theorem auth_gauge_balanced:
  assumes "auth_OnStart (Some rand) t0 c0 = (c, greeting, err)" "authMetrics c0" "mw_talk (auth_HandleClientMsg m) msgs c = Inr (c', outs)"
  shows "authGauge c' = authGauge c0 + (if proven m (EncodeToString rand) msgs = {} then 0 else 1)
    \<and> authGauge (fst (auth_OnEnd c')) = authGauge c0 \<and> snd (snd (auth_OnEnd c')) = None"
proof -
  obtain st where "authSt c' = Some st" "authMetrics c'" "authGauge c' = authGauge c0 + (if authenticated st then 1 else 0)"
    "authenticated st \<longleftrightarrow> proven m (EncodeToString rand) msgs \<noteq> {}"
    using auth_conversation[OF assms(1,3)] assms(2) unfolding auth_state_def by metis
  then show ?thesis by (simp add: auth_OnEnd_def)
qed

section \<open>Concrete instances\<close>

definition login_event :: Event where
  "login_event = mk_event ''id'' ''alice'' 1000 22242 [[''challenge'', ''ff''], [''relay'', ''wss://example'']]"

definition sample_auth :: authMiddleware where
  "sample_auth = NewAuthMiddlewareBase ''wss://relay'' None"

definition sample_ctx :: conn_ctx where
  "sample_ctx = fst (auth_OnStart (Some [char_of (255::nat)]) 0 (new_ctx True))"

lemma sample_greeting:
  "auth_OnStart (Some [char_of (255::nat)]) 0 (new_ctx True) = (sample_ctx, Some (NewServerAuthMsg ''ff''), None)"
  "EncodeToString [char_of (255::nat)] = ''ff''"
  by (simp_all add: sample_ctx_def auth_OnStart_def generateChallenge_def)

lemma sample_proven:
  "proven sample_auth ''ff'' [(1000 * nsPerSec, client_auth login_event)] = {''alice''}"
  by (simp add: proven_simps proves_def sample_auth_def NewAuthMiddlewareBase_def client_auth_def login_event_def wrap64_def)

lemma sample_talk: "\<exists>c'. mw_talk (auth_HandleClientMsg sample_auth) [(1000 * nsPerSec, client_auth login_event)] sample_ctx = Inr (c', [])"
  by (simp add: sample_ctx_def auth_OnStart_def generateChallenge_def auth_HandleClientMsg_def handleAuth_def respond_def
      client_auth_def login_event_def sample_auth_def NewAuthMiddlewareBase_def wrap64_def)

lemma auth_passes_exactly_witness:
  "\<exists>c' c'' resp. auth_HandleClientMsg sample_auth 0 (client_event (mk_event ''i'' ''alice'' 1 1 [])) c'
      = Inr (c'', Some (client_event (mk_event ''i'' ''alice'' 1 1 [])), resp)
    \<and> mw_talk (auth_HandleClientMsg sample_auth) [(1000 * nsPerSec, client_auth login_event)] sample_ctx = Inr (c', [])"
proof -
  let ?m = "client_event (mk_event ''i'' ''alice'' 1 1 [])"
  obtain c' where c': "mw_talk (auth_HandleClientMsg sample_auth) [(1000 * nsPerSec, client_auth login_event)] sample_ctx = Inr (c', [])"
    using sample_talk by blast
  have "well_formed ?m" by (simp add: well_formed_def client_event_def)
  from auth_passes_exactly[OF sample_greeting(1) c' this, of 0] sample_proven sample_greeting(2) c' show ?thesis
    by (auto simp: client_event_def)
qed

lemma auth_gauge_balanced_witness:
  "\<exists>c'. mw_talk (auth_HandleClientMsg sample_auth) [(1000 * nsPerSec, client_auth login_event)] sample_ctx = Inr (c', [])
    \<and> authGauge c' = 1 \<and> authGauge (fst (auth_OnEnd c')) = 0"
proof -
  obtain c' where c': "mw_talk (auth_HandleClientMsg sample_auth) [(1000 * nsPerSec, client_auth login_event)] sample_ctx = Inr (c', [])"
    using sample_talk by blast
  have "authMetrics (new_ctx True)" "authGauge (new_ctx True) = 0" by (simp_all add: new_ctx_def)
  with auth_gauge_balanced[OF sample_greeting(1) _ c'] sample_proven sample_greeting(2) c' show ?thesis by simp
qed

end
