(* ===== verification/Kind_Label.thy ===== *)
theory Kind_Label
  imports Event
begin

text \<open>
  The metric labels of \<^verbatim>\<open>kind_label.go\<close>: the kind label is the decimal number for the known kinds
  and \<open>other\<close> for the rest, the type label the NIP-01 class.
\<close>

definition knownKinds :: "int list" where
  "knownKinds = [0, 1, 3, 4, 13, 14, 1059, 10050, 5, 6, 7, 1111, 40, 41, 42, 43, 44, 1984, 9734, 9735, 10002, 30023]"

definition kindType :: "int \<Rightarrow> string" where
  "kindType kind =
     (if kind = 0 \<or> kind = 3 \<or> (kind \<ge> 10000 \<and> kind \<le> 19999) then ''replaceable''
      else if kind \<ge> 20000 \<and> kind \<le> 29999 then ''ephemeral''
      else if kind \<ge> 30000 \<and> kind \<le> 39999 then ''addressable''
      else if kind = 1 \<or> kind = 2 \<or> (kind \<ge> 4 \<and> kind \<le> 44) \<or> (kind \<ge> 1000 \<and> kind \<le> 9999) then ''regular''
      else ''unknown'')"

definition kindLabels :: "int \<Rightarrow> string \<times> string" where
  "kindLabels kind =
     (let typeValue = kindType kind in
      if kind \<in> set knownKinds then (FormatInt kind, typeValue) else (''other'', typeValue))"

section \<open>Properties\<close>

text \<open>The type label agrees with the class by which events are stored: replaceable, ephemeral and
  addressable kinds have the label of their class, all others are regular events.\<close>

theorem kindType_eventType:
  "(kindType k = ''replaceable'' \<longleftrightarrow> eventType_of_kind k = EventTypeReplaceable)
   \<and> (kindType k = ''ephemeral'' \<longleftrightarrow> eventType_of_kind k = EventTypeEphemeral)
   \<and> (kindType k = ''addressable'' \<longleftrightarrow> eventType_of_kind k = EventTypeAddressable)
   \<and> (kindType k = ''regular'' \<or> kindType k = ''unknown'' \<longleftrightarrow> eventType_of_kind k = EventTypeRegular)"
  by (auto simp: kindType_def eventType_of_kind_def)

lemma kindLabels_range:
  "range kindLabels = kindLabels ` set knownKinds \<union> Pair ''other'' ` {''replaceable'', ''ephemeral'', ''addressable'', ''regular'', ''unknown''}"
proof (intro equalityI subsetI)
  fix x assume "x \<in> range kindLabels"
  then obtain k where k: "x = kindLabels k" by auto
  have "kindType k \<in> {''replaceable'', ''ephemeral'', ''addressable'', ''regular'', ''unknown''}"
    unfolding kindType_def by simp
  with k show "x \<in> kindLabels ` set knownKinds \<union> Pair ''other'' ` {''replaceable'', ''ephemeral'', ''addressable'', ''regular'', ''unknown''}"
    by (cases "k \<in> set knownKinds") (auto simp: kindLabels_def Let_def)
next
  fix x assume x: "x \<in> kindLabels ` set knownKinds \<union> Pair ''other'' ` {''replaceable'', ''ephemeral'', ''addressable'', ''regular'', ''unknown''}"
  have o: "kindLabels 10001 = (''other'', ''replaceable'')" "kindLabels 20000 = (''other'', ''ephemeral'')"
    "kindLabels 30000 = (''other'', ''addressable'')" "kindLabels 2 = (''other'', ''regular'')"
    "kindLabels 50 = (''other'', ''unknown'')"
    by (simp_all add: kindLabels_def kindType_def knownKinds_def)
  from x show "x \<in> range kindLabels" by (auto simp: o[symmetric])
qed

text \<open>At most 27 label pairs are ever produced, one per known kind and one per class for the
  others, and each of them by some kind.\<close>

theorem kindLabels_cardinality: "card (range kindLabels) = 27"
  unfolding kindLabels_range
  by (simp add: kindLabels_def knownKinds_def kindType_def FormatInt_def nat_digits.simps)

end
