(* ===== verification/Relay.thy ===== *)
theory Relay
  imports Middleware_Auth Kind_Label
begin

text \<open>
  The server (\<^verbatim>\<open>relay.go\<close>): options, routing of HTTP requests, the registry of connections with
  shutdown, the read loop that checks frames and the write loop. The WebSocket connection, the JSON
  library and cryptography are arguments: frames read, \<open>parse\<close> for \<^verbatim>\<open>ParseClientMsg\<close>, \<open>marshal\<close> for
  \<^verbatim>\<open>json.Marshal\<close>, the record \<open>crypto\<close>.
\<close>

section \<open>Options\<close>

record RelayOptions =
  MaxMessageLength :: int
  PingInterval :: int
  PingTimeout :: int
  ReadRate :: rat
  ReadBurst :: int

text \<open>\<open>None\<close> is the panic on a misconfigured read limit.\<close>

definition NewRelay :: "RelayOptions option \<Rightarrow> RelayOptions option" where
  "NewRelay opts =
     (let o' = (case opts of None \<Rightarrow> \<lparr>MaxMessageLength = 0, PingInterval = 0, PingTimeout = 0, ReadRate = 0, ReadBurst = 0\<rparr> | Some x \<Rightarrow> x)
      in if ReadRate o' > 0 \<and> ReadBurst o' < 1 then None
         else Some (o'\<lparr>MaxMessageLength := (if MaxMessageLength o' = 0 then 100000 else MaxMessageLength o'),
           PingInterval := (if PingInterval o' = 0 then 30 * nsPerSec else PingInterval o'),
           PingTimeout := (if PingTimeout o' = 0 then 10 * nsPerSec else PingTimeout o')\<rparr>))"

section \<open>HTTP requests\<close>

datatype http_response =
  ShuttingDown | RelayInfoDocument | RelayInfoPreflight | MethodNotAllowed | InternalError | Welcome string | Upgraded

record http_request =
  Accept :: string
  Upgrade :: string
  Method :: string

text \<open>\<open>info\<close>: the name in the relay information document, if there is one, and whether it marshals.\<close>

definition serveNIP11 :: "bool \<Rightarrow> http_request \<Rightarrow> http_response" where
  "serveNIP11 marshals req =
     (if Method req = ''OPTIONS'' then RelayInfoPreflight
      else if Method req \<noteq> ''GET'' then MethodNotAllowed
      else if \<not> marshals then InternalError
      else RelayInfoDocument)"

definition serveWelcome :: "string option \<Rightarrow> http_response" where
  "serveWelcome info = (case info of None \<Rightarrow> Welcome '''' | Some name \<Rightarrow> Welcome name)"

text \<open>The decisions of \<^verbatim>\<open>ServeHTTP\<close> before the connection is admitted.\<close>

definition http_route :: "bool \<Rightarrow> string option \<Rightarrow> bool \<Rightarrow> http_request \<Rightarrow> http_response" where
  "http_route shut info marshals req =
     (if shut then ShuttingDown
      else if info \<noteq> None \<and> Accept req = ''application/nostr+json'' then serveNIP11 marshals req
      else if Upgrade req = '''' then serveWelcome info
      else Upgraded)"

section \<open>The registry of connections\<close>

text \<open>Where a WebSocket request stands in \<^verbatim>\<open>ServeHTTP\<close>. The \<^verbatim>\<open>uint64\<close> counter of connections is a natural number:
  its wrap after \<^verbatim>\<open>2^64\<close> connections is left out.\<close>

datatype req_pc = Arrived | Checked | Admitted | Registered nat | Unregistered | Finished | Refused

record relay_reg =
  closed :: bool
  connID :: nat
  cancels :: "nat \<rightharpoonup> nat"
  wg :: nat
  pc :: "nat \<Rightarrow> req_pc"
  cancelled :: "nat set"








section \<open>The read loop\<close>

datatype frame = TextFrame string | BinaryFrame string

text \<open>One frame: a message for the handler, or the metric label and the notice of a rejection.\<close>

definition read_frame ::
  "('pk, 'sg) crypto \<Rightarrow> (string \<Rightarrow> ClientMsg option) \<Rightarrow> frame \<Rightarrow> (string \<times> string) + ClientMsg" where
  "read_frame C parse fr =
     (case fr of
        BinaryFrame payload \<Rightarrow> Inl (''binary_message'', ''binary message not allowed'')
      | TextFrame payload \<Rightarrow>
          if \<not> utf8_valid payload then Inl (''invalid_utf8'', ''invalid UTF-8'')
          else (case parse payload of None \<Rightarrow> Inl (''parse_error'', ''invalid message format'')
            | Some msg \<Rightarrow>
                if CType msg = MsgTypeEvent \<and> CEvent msg \<noteq> None then
                  (case Verify C (CEvent msg) of Inl err \<Rightarrow> Inl (''verify_error'', ''verification error'')
                   | Inr valid \<Rightarrow> if \<not> valid then Inl (''invalid_signature'', ''invalid signature'') else Inr msg)
                else Inr msg))"

record relay_metrics =
  WSParseErrors :: "string \<Rightarrow> nat"
  MessagesReceived :: "string \<Rightarrow> nat"
  EventsReceived :: "string \<times> string \<Rightarrow> nat"
  ReadStallsTotal :: nat

definition inc :: "'a \<Rightarrow> ('a \<Rightarrow> nat) \<Rightarrow> 'a \<Rightarrow> nat" where
  "inc l f = f(l := f l + 1)"

definition count_received :: "ClientMsg \<Rightarrow> relay_metrics \<Rightarrow> relay_metrics" where
  "count_received msg m =
     (let m1 = m\<lparr>MessagesReceived := inc (CType msg) (MessagesReceived m)\<rparr> in
      if CType msg = MsgTypeEvent then
        (case CEvent msg of None \<Rightarrow> m1 | Some e \<Rightarrow> m1\<lparr>EventsReceived := inc (kindLabels (Kind e)) (EventsReceived m1)\<rparr>)
      else m1)"

record read_state =
  rbucket :: "tokenBucket option"
  rmetrics :: "relay_metrics option"
  toHandler :: "ClientMsg list"
  toWriter :: "ServerMsg list"

text \<open>
  What happens in one turn of the loop: the readings of the clock and the timers of the stall, the
  frame (\<open>None\<close>: \<^verbatim>\<open>conn.Read\<close> fails), and whether the send of the notice or of the message succeeds
  before the context ends.
\<close>

record read_turn =
  tCancelled :: bool
  tNow :: time
  tRounds :: "(time \<times> wake) list"
  tFrame :: "frame option"
  tSent :: bool

definition newReadState :: "RelayOptions \<Rightarrow> time \<Rightarrow> relay_metrics option \<Rightarrow> read_state" where
  "newReadState opts now m =
     \<lparr>rbucket = (if ReadRate opts > 0 then Some (newTokenBucket (ReadRate opts) (ReadBurst opts) now) else None),
      rmetrics = m, toHandler = [], toWriter = []\<rparr>"

text \<open>The flag says whether the loop goes on; \<open>None\<close>: the given timers do not end the stall.\<close>

definition read_turn_step ::
  "('pk, 'sg) crypto \<Rightarrow> (string \<Rightarrow> ClientMsg option) \<Rightarrow> read_turn \<Rightarrow> read_state \<Rightarrow> (read_state \<times> bool) option" where
  "read_turn_step C parse t st =
     (case readStall (tCancelled t) (tNow t) (tRounds t) (rbucket st) of None \<Rightarrow> None
      | Some (b, stalls, ok) \<Rightarrow>
          let st1 = st\<lparr>rbucket := b, rmetrics := map_option (\<lambda>m. m\<lparr>ReadStallsTotal := ReadStallsTotal m + stalls\<rparr>) (rmetrics st)\<rparr> in
          if \<not> ok then Some (st1, False)
          else (case tFrame t of None \<Rightarrow> Some (st1, False)
            | Some fr \<Rightarrow>
                (case read_frame C parse fr of
                   Inl (l, note) \<Rightarrow>
                     Some (st1\<lparr>rmetrics := map_option (\<lambda>m. m\<lparr>WSParseErrors := inc l (WSParseErrors m)\<rparr>) (rmetrics st1),
                       toWriter := toWriter st1 @ (if tSent t then [NewServerNoticeMsg note] else [])\<rparr>, True)
                 | Inr msg \<Rightarrow>
                     let st2 = st1\<lparr>rmetrics := map_option (count_received msg) (rmetrics st1)\<rparr> in
                     if tSent t then Some (st2\<lparr>toHandler := toHandler st2 @ [msg]\<rparr>, True) else Some (st2, False))))"

text \<open>Turns up to the end of the loop; with them the frames read, without a last one whose message could not be
  delivered because the connection ended.\<close>

fun readLoop ::
  "('pk, 'sg) crypto \<Rightarrow> (string \<Rightarrow> ClientMsg option) \<Rightarrow> read_turn list \<Rightarrow> read_state \<Rightarrow> read_state \<times> frame list" where
  "readLoop C parse [] st = (st, [])"
| "readLoop C parse (t # ts) st =
     (case read_turn_step C parse t st of None \<Rightarrow> (st, [])
      | Some (st', False) \<Rightarrow> (st', [])
      | Some (st', True) \<Rightarrow> (case readLoop C parse ts st' of (st'', frs) \<Rightarrow> (st'', the (tFrame t) # frs)))"

section \<open>The write loop\<close>

text \<open>What the select of one turn sees, with the outcome of the write or ping.\<close>

datatype write_turn = WDone | WClosed | WMsg ServerMsg bool | WPing bool

record write_metrics =
  WSWriteErrors :: nat
  MessagesSent :: "string \<Rightarrow> nat"

fun writeLoop :: "(ServerMsg \<Rightarrow> string option) \<Rightarrow> write_turn list \<Rightarrow> write_metrics \<Rightarrow> write_metrics \<times> string list \<times> bool" where
  "writeLoop marshal [] m = (m, [], True)"
| "writeLoop marshal (WDone # ts) m = (m, [], False)"
| "writeLoop marshal (WClosed # ts) m = (m, [], False)"
| "writeLoop marshal (WMsg msg written # ts) m =
     (case marshal msg of
        None \<Rightarrow> writeLoop marshal ts (m\<lparr>WSWriteErrors := WSWriteErrors m + 1\<rparr>)
      | Some data \<Rightarrow>
          if \<not> written then (m\<lparr>WSWriteErrors := WSWriteErrors m + 1\<rparr>, [], False)
          else (case writeLoop marshal ts (m\<lparr>MessagesSent := inc (SType msg) (MessagesSent m)\<rparr>) of
                  (m', frames, goes) \<Rightarrow> (m', data # frames, goes)))"
| "writeLoop marshal (WPing pong # ts) m =
     (if \<not> pong then (m\<lparr>WSWriteErrors := WSWriteErrors m + 1\<rparr>, [], False) else writeLoop marshal ts m)"

section \<open>Lemmas on the read loop\<close>

text \<open>What a frame becomes.\<close>

fun accepted_frames :: "('pk, 'sg) crypto \<Rightarrow> (string \<Rightarrow> ClientMsg option) \<Rightarrow> frame list \<Rightarrow> ClientMsg list" where
  "accepted_frames C parse [] = []"
| "accepted_frames C parse (fr # frs) =
     (case read_frame C parse fr of Inl x \<Rightarrow> accepted_frames C parse frs | Inr msg \<Rightarrow> msg # accepted_frames C parse frs)"

lemma read_turn_frame:
  assumes "read_turn_step C parse t st = Some (st', True)"
  shows "\<exists>fr. tFrame t = Some fr \<and> toHandler st' = toHandler st @ accepted_frames C parse [fr]"
  using assms by (auto simp: read_turn_step_def Let_def split: option.splits prod.splits sum.splits if_splits)

lemma readLoop_frames:
  "readLoop C parse ts st = (st', frs) \<Longrightarrow> toHandler st' = toHandler st @ accepted_frames C parse frs"
proof (induction ts arbitrary: st frs)
  case (Cons t ts)
  show ?case
  proof (cases "read_turn_step C parse t st")
    case None
    with Cons.prems show ?thesis by simp
  next
    case (Some p)
    obtain st1 goes where p: "p = (st1, goes)" by force
    show ?thesis
    proof (cases goes)
      case True
      obtain frs1 where r: "readLoop C parse ts st1 = (st', frs1)" "frs = the (tFrame t) # frs1"
        using Cons.prems Some p True by (auto split: prod.splits)
      obtain fr where fr: "tFrame t = Some fr" "toHandler st1 = toHandler st @ accepted_frames C parse [fr]"
        using read_turn_frame[of C parse t st st1] Some p True by auto
      with Cons.IH[OF r(1)] r(2) show ?thesis by (simp split: sum.splits)
    next
      case False
      then have "toHandler st1 = toHandler st" using Some p
        by (auto simp: read_turn_step_def Let_def split: option.splits prod.splits sum.splits if_splits)
      with Cons.prems Some p False show ?thesis by simp
    qed
  qed
qed simp

lemma read_frame_accepts:
  assumes "read_frame C parse fr = Inr msg"
  shows "\<exists>payload. fr = TextFrame payload \<and> utf8_valid payload \<and> parse payload = Some msg
    \<and> (CType msg = MsgTypeEvent \<longrightarrow> CEvent msg \<noteq> None \<longrightarrow> Verify C (CEvent msg) = Inr True)"
  using assms by (auto simp: read_frame_def split: frame.splits if_splits option.splits sum.splits)

lemma accepted_frames_source:
  "msg \<in> set (accepted_frames C parse frs) \<Longrightarrow> \<exists>fr\<in>set frs. read_frame C parse fr = Inr msg"
  by (induction frs) (auto split: sum.splits)

text \<open>Each frame read has cost a token; \<open>T\<close> bounds the readings of the clock.\<close>

definition wakes_by :: "time \<Rightarrow> (time \<times> wake) list \<Rightarrow> bool" where
  "wakes_by T rounds = list_all (\<lambda>p. case snd p of Woke u \<Rightarrow> u \<le> T | Cancelled \<Rightarrow> True) rounds"

definition turn_by :: "time \<Rightarrow> read_turn \<Rightarrow> bool" where
  "turn_by T t \<longleftrightarrow> tNow t \<le> T \<and> wakes_by T (tRounds t)"

lemma readStall_loop_potential:
  "bucket_ok tb \<Longrightarrow> readStall_loop rounds tb = Some (tb', True) \<Longrightarrow> wakes_by T rounds \<Longrightarrow> lastUpdate tb \<le> T \<Longrightarrow>
    bucket_ok tb' \<and> rate tb' = rate tb \<and> burst tb' = burst tb \<and> lastUpdate tb' \<le> T
    \<and> tokens tb' + 1 \<le> tokens tb + rate tb * Seconds (lastUpdate tb' - lastUpdate tb)"
proof (induction rounds tb rule: readStall_loop.induct)
  case (3 t u rounds tb)
  obtain tb1 ok where a: "allow u tb = (tb1, ok)" by force
  note p = allow_ok[OF 3(2) a] allow_potential[OF 3(2) a]
  show ?case
  proof (cases ok)
    case True
    with 3(3-5) a p show ?thesis by (auto simp: wakes_by_def)
  next
    case False
    have "readStall_loop rounds tb1 = Some (tb', True)" "wakes_by T rounds" "lastUpdate tb1 \<le> T"
      using 3(3-5) a False p(1) by (simp_all add: wakes_by_def)
    then have "bucket_ok tb' \<and> rate tb' = rate tb1 \<and> burst tb' = burst tb1 \<and> lastUpdate tb' \<le> T
        \<and> tokens tb' + 1 \<le> tokens tb1 + rate tb1 * Seconds (lastUpdate tb' - lastUpdate tb1)"
      using 3(1)[OF a[symmetric] False] p(1) by blast
    moreover have "Seconds (lastUpdate tb' - lastUpdate tb) = Seconds (lastUpdate tb' - lastUpdate tb1) + Seconds (lastUpdate tb1 - lastUpdate tb)"
      by (simp add: Seconds_diff)
    ultimately show ?thesis using p False by (auto simp: algebra_simps)
  qed
qed simp_all

lemma readStall_potential:
  assumes "bucket_ok tb" "readStall canc now rounds (Some tb) = Some (b, n, True)" "now \<le> T" "wakes_by T rounds" "lastUpdate tb \<le> T"
  shows "\<exists>tb'. b = Some tb' \<and> bucket_ok tb' \<and> rate tb' = rate tb \<and> burst tb' = burst tb \<and> lastUpdate tb' \<le> T
    \<and> tokens tb' + 1 \<le> tokens tb + rate tb * Seconds (lastUpdate tb' - lastUpdate tb)"
proof -
  obtain tb1 ok where a: "allow now tb = (tb1, ok)" by force
  note p = allow_ok[OF assms(1) a] allow_potential[OF assms(1) a]
  show ?thesis
  proof (cases ok)
    case True
    with assms(2,3,5) a p show ?thesis by (auto simp: readStall_def split: if_splits)
  next
    case False
    then obtain tb2 where r: "readStall_loop rounds tb1 = Some (tb2, True)" "b = Some tb2"
      using assms(2) a by (auto simp: readStall_def split: if_splits option.splits)
    have "lastUpdate tb1 \<le> T" using p(1) assms(3,5) by simp
    then have "bucket_ok tb2 \<and> rate tb2 = rate tb1 \<and> burst tb2 = burst tb1 \<and> lastUpdate tb2 \<le> T
        \<and> tokens tb2 + 1 \<le> tokens tb1 + rate tb1 * Seconds (lastUpdate tb2 - lastUpdate tb1)"
      using readStall_loop_potential[OF _ r(1) assms(4)] p(1) by blast
    moreover have "Seconds (lastUpdate tb2 - lastUpdate tb) = Seconds (lastUpdate tb2 - lastUpdate tb1) + Seconds (lastUpdate tb1 - lastUpdate tb)"
      by (simp add: Seconds_diff)
    ultimately show ?thesis using p False r(2) by (auto simp: algebra_simps)
  qed
qed

lemma readLoop_potential:
  "readLoop C parse ts st = (st', frs) \<Longrightarrow> rbucket st = Some tb \<Longrightarrow> bucket_ok tb \<Longrightarrow> frs \<noteq> [] \<Longrightarrow>
    list_all (turn_by T) ts \<Longrightarrow> lastUpdate tb \<le> T \<Longrightarrow>
    \<exists>tb'. bucket_ok tb' \<and> rate tb' = rate tb \<and> burst tb' = burst tb \<and> lastUpdate tb' \<le> T
      \<and> tokens tb' + of_nat (length frs) \<le> tokens tb + rate tb * Seconds (lastUpdate tb' - lastUpdate tb)"
proof (induction ts arbitrary: st frs tb)
  case (Cons t ts)
  then obtain st1 where s: "read_turn_step C parse t st = Some (st1, True)"
    by (auto split: option.splits prod.splits bool.splits)
  then obtain frs1 where r: "readLoop C parse ts st1 = (st', frs1)" "frs = the (tFrame t) # frs1"
    using Cons.prems(1) by (auto split: prod.splits)
  obtain b n where stall: "readStall (tCancelled t) (tNow t) (tRounds t) (rbucket st) = Some (b, n, True)" "rbucket st1 = b"
    using s by (auto simp: read_turn_step_def Let_def split: option.splits prod.splits sum.splits if_splits)
  have by_T: "tNow t \<le> T" "wakes_by T (tRounds t)" "list_all (turn_by T) ts" using Cons.prems(5) by (simp_all add: list_all_iff turn_by_def)
  obtain tb1 where p: "b = Some tb1" "bucket_ok tb1" "rate tb1 = rate tb" "burst tb1 = burst tb" "lastUpdate tb1 \<le> T"
    "tokens tb1 + 1 \<le> tokens tb + rate tb * Seconds (lastUpdate tb1 - lastUpdate tb)"
    using readStall_potential[OF Cons.prems(3) stall(1)[unfolded Cons.prems(2)] by_T(1,2) Cons.prems(6)] by blast
  show ?case
  proof (cases "frs1 = []")
    case True
    with p r(2) show ?thesis by auto
  next
    case False
    obtain tb' where q: "bucket_ok tb'" "rate tb' = rate tb1" "burst tb' = burst tb1" "lastUpdate tb' \<le> T"
      "tokens tb' + of_nat (length frs1) \<le> tokens tb1 + rate tb1 * Seconds (lastUpdate tb' - lastUpdate tb1)"
      using Cons.IH[OF r(1) _ p(2) False by_T(3) p(5)] stall(2) p(1) by blast
    have "Seconds (lastUpdate tb' - lastUpdate tb) = Seconds (lastUpdate tb' - lastUpdate tb1) + Seconds (lastUpdate tb1 - lastUpdate tb)"
      by (simp add: Seconds_diff)
    with p q r(2) show ?thesis by (intro exI[of _ tb']) (auto simp: algebra_simps)
  qed
qed simp

section \<open>The registry\<close>

definition in_flight :: "relay_reg \<Rightarrow> nat set" where
  "in_flight s = {r. pc s r = Admitted \<or> (\<exists>i. pc s r = Registered i) \<or> pc s r = Unregistered}"



lemma in_flight_pc: "pc s' = pc s \<Longrightarrow> in_flight s' = in_flight s"
  by (simp add: in_flight_def)









section \<open>Properties\<close>

text \<open>Only verified events reach the handler from the wire: the messages for the handler are, in order,
  what the frames read parse to, and an EVENT among them has passed \<open>Verify\<close>.\<close>

lemma read_loop_verified:
  assumes "readLoop C parse ts (newReadState opts t0 m) = (st', frs)"
  shows "toHandler st' = accepted_frames C parse frs
    \<and> (\<forall>msg\<in>set (toHandler st'). (\<exists>payload. TextFrame payload \<in> set frs \<and> utf8_valid payload \<and> parse payload = Some msg)
         \<and> (CType msg = MsgTypeEvent \<longrightarrow> CEvent msg \<noteq> None \<longrightarrow> Verify C (CEvent msg) = Inr True))"
proof -
  have "toHandler st' = accepted_frames C parse frs"
    using readLoop_frames[OF assms] by (simp add: newReadState_def)
  then show ?thesis using accepted_frames_source read_frame_accepts by metis
qed

text \<open>C23. The read limit bounds the frames read from a connection: up to any instant, at most the burst
  plus the rate times the time since the connection started, however the timers fire.\<close>

theorem read_rate_bound:
  assumes "NewRelay (Some opts') = Some opts" "0 < ReadRate opts" "readLoop C parse ts (newReadState opts t0 m) = (st', frs)"
    "list_all (turn_by T) ts" "t0 \<le> T"
  shows "of_nat (length frs) \<le> of_int (ReadBurst opts) + ReadRate opts * Seconds (T - t0)"
proof -
  have b: "1 \<le> ReadBurst opts" using assms(1,2) by (auto simp: NewRelay_def Let_def split: if_splits)
  let ?tb = "newTokenBucket (ReadRate opts) (ReadBurst opts) t0"
  have "0 \<le> Seconds (T - t0)" using assms(5) by (simp add: Seconds_def)
  then have base: "0 \<le> of_int (ReadBurst opts) + ReadRate opts * Seconds (T - t0)" using b assms(2) by simp
  show ?thesis
  proof (cases "frs = []")
    case True
    with base show ?thesis by simp
  next
    case False
    obtain tb' where q: "bucket_ok tb'" "lastUpdate tb' \<le> T"
      "tokens tb' + of_nat (length frs) \<le> tokens ?tb + rate ?tb * Seconds (lastUpdate tb' - lastUpdate ?tb)"
      using readLoop_potential[OF assms(3) _ bucket_ok_new[OF assms(2) b] False assms(4)] assms(2,5)
      by (auto simp: newReadState_def newTokenBucket_def)
    have "Seconds (lastUpdate tb' - t0) \<le> Seconds (T - t0)" using q(2) by (intro Seconds_mono) simp
    then have "ReadRate opts * Seconds (lastUpdate tb' - t0) \<le> ReadRate opts * Seconds (T - t0)"
      using assms(2) by (simp add: mult_left_mono)
    with q(1,3) show ?thesis by (simp add: newTokenBucket_def bucket_ok_def)
  qed
qed

text \<open>C20. The signature of an AUTH event is checked nowhere: a frame whose AUTH event carries the
  connection's challenge passes the read loop and makes the authentication base answer OK true and take
  the connection for the event's author, although \<open>Verify\<close> rejects the event. Whoever opens a connection
  can authenticate as anyone.\<close>

theorem auth_accepts_forged_event:
  assumes "utf8_valid payload" "parse payload = Some (client_auth e)" "Verify C (Some e) \<noteq> Inr True"
    "authSt c = Some st" "proves m (challenge st) (now, client_auth e) (Pubkey e)"
  shows "read_frame C parse (TextFrame payload) = Inr (client_auth e)
    \<and> (\<exists>c' st'. auth_HandleClientMsg m now (client_auth e) c = Inr (c', None, Some (NewServerOKMsg (ID e) True ''''))
         \<and> authSt c' = Some st' \<and> isAuthedPubkey st' (Pubkey e))"
  using assms
  by (auto simp: read_frame_def client_auth_def auth_HandleClientMsg_def handleAuth_def proves_def respond_def
      mark_authed_def isAuthedPubkey_def Let_def)



section \<open>Concrete instances\<close>

definition sample_turn :: "frame option \<Rightarrow> read_turn" where
  "sample_turn fr = \<lparr>tCancelled = False, tNow = 0, tRounds = [], tFrame = fr, tSent = True\<rparr>"

definition sample_parse :: "string \<Rightarrow> ClientMsg option" where
  "sample_parse payload = (if payload = ''close'' then Some (client_close ''a'') else if payload = ''auth'' then Some (client_auth login_event) else None)"

definition sample_options :: RelayOptions where
  "sample_options = \<lparr>MaxMessageLength = 100000, PingInterval = 30 * nsPerSec, PingTimeout = 10 * nsPerSec, ReadRate = 1, ReadBurst = 2\<rparr>"

lemma utf8_samples [simp]: "utf8_valid ''close''" "utf8_valid ''auth''" "utf8_valid ''x''"
  by (rule utf8_valid_ascii, simp)+

lemma sample_read:
  "\<exists>st'. readLoop sample_crypto sample_parse [sample_turn (Some (TextFrame ''x'')), sample_turn (Some (TextFrame ''close''))]
      (newReadState sample_options 0 None) = (st', [TextFrame ''x'', TextFrame ''close''])"
  by (simp add: sample_turn_def sample_parse_def sample_options_def newReadState_def newTokenBucket_def read_turn_step_def
      readStall_def allow_def time_Sub_def Seconds_def read_frame_def client_close_def Let_def)

lemma read_rate_bound_witness:
  "(of_nat (length [TextFrame ''x'', TextFrame ''close'']) :: rat) \<le> 2 + 1 * Seconds (0 - 0)"
proof -
  obtain st' where r: "readLoop sample_crypto sample_parse [sample_turn (Some (TextFrame ''x'')), sample_turn (Some (TextFrame ''close''))]
      (newReadState sample_options 0 None) = (st', [TextFrame ''x'', TextFrame ''close''])"
    using sample_read by blast
  have "NewRelay (Some sample_options) = Some sample_options" by (simp add: NewRelay_def sample_options_def)
  from read_rate_bound[OF this _ r, of 0] show ?thesis
    by (simp add: sample_options_def sample_turn_def turn_by_def wakes_by_def)
qed

lemma auth_accepts_forged_event_witness:
  "Verify sample_crypto (Some login_event) \<noteq> Inr True
    \<and> (\<exists>c' st'. auth_HandleClientMsg sample_auth (1000 * nsPerSec) (client_auth login_event) sample_ctx
          = Inr (c', None, Some (NewServerOKMsg ''id'' True '''')) \<and> authSt c' = Some st' \<and> isAuthedPubkey st' ''alice'')"
proof -
  have "ID login_event \<noteq> EncodeToString (sha256 sample_crypto s)" for s
  proof
    assume "ID login_event = EncodeToString (sha256 sample_crypto s)"
    then have "length (ID login_event) = length (EncodeToString (sha256 sample_crypto s))" by (rule arg_cong)
    then show False by (simp add: sample_crypto_def login_event_def)
  qed
  then have v: "Verify sample_crypto (Some login_event) \<noteq> Inr True"
    by (simp add: Verify_def split: sum.splits)
  have st: "authSt sample_ctx = Some \<lparr>challenge = ''ff'', authedPubkeys = {}, authenticated = False\<rparr>"
    by (simp add: sample_ctx_def auth_OnStart_def generateChallenge_def)
  have p: "proves sample_auth ''ff'' (1000 * nsPerSec, client_auth login_event) (Pubkey login_event)"
    by (simp add: proves_def sample_auth_def NewAuthMiddlewareBase_def client_auth_def login_event_def wrap64_def)
  have "sample_parse ''auth'' = Some (client_auth login_event)" by (simp add: sample_parse_def)
  note forged = auth_accepts_forged_event[where payload = "''auth''" and parse = sample_parse and C = sample_crypto
      and e = login_event and c = sample_ctx and m = sample_auth and now = "1000 * nsPerSec", OF utf8_samples(2) this v st]
  from forged p v show ?thesis by (simp add: login_event_def)
qed



end
