(* ===== verification/Middleware_Limits.thy ===== *)
theory Middleware_Limits
  imports Middleware In_Memory_Storage
begin

text \<open>
  The bases that bound what one connection may do: the four rate limits
  (\<^verbatim>\<open>middleware_event_rate_limit.go\<close> and its siblings), \<^verbatim>\<open>middleware_max_subscriptions.go\<close>,
  \<^verbatim>\<open>middleware_max_limit.go\<close>, \<^verbatim>\<open>middleware_max_subid_length.go\<close>, \<^verbatim>\<open>middleware_max_event_tags.go\<close>
  and \<^verbatim>\<open>middleware_max_content_length.go\<close>. A constructor that panics is \<open>None\<close>.
\<close>

section \<open>Rate limits\<close>

definition event_id_of :: "ClientMsg \<Rightarrow> string" where
  "event_id_of msg = (case CEvent msg of None \<Rightarrow> '''' | Some e \<Rightarrow> ID e)"

definition eventRate_OnStart :: "rat \<Rightarrow> int \<Rightarrow> time \<Rightarrow> conn_ctx \<Rightarrow> conn_ctx \<times> ServerMsg option \<times> mw_error option" where
  "eventRate_OnStart r b now c = (c\<lparr>eventTB := Some (newTokenBucket r b now)\<rparr>, None, None)"

definition eventRate_HandleClientMsg :: "time \<Rightarrow> ClientMsg \<Rightarrow> conn_ctx \<Rightarrow> mw_error + conn_ctx \<times> ClientMsg option \<times> ServerMsg option" where
  "eventRate_HandleClientMsg now msg c =
     (if CType msg \<noteq> MsgTypeEvent then pass_on c msg
      else case eventTB c of None \<Rightarrow> Inl MwPanic
        | Some tb \<Rightarrow> (case allow now tb of (tb', ok) \<Rightarrow>
            if ok then pass_on (c\<lparr>eventTB := Some tb'\<rparr>) msg
            else respond (c\<lparr>eventTB := Some tb'\<rparr>) (NewServerOKMsg (event_id_of msg) False ''rate-limited: too many events'')))"

definition eventRate_base :: "rat \<Rightarrow> int \<Rightarrow> mw_base" where
  "eventRate_base r b = \<lparr>OnStart = eventRate_OnStart r b, OnEnd = end_same, HandleClientMsg = eventRate_HandleClientMsg, HandleServerMsg = server_same\<rparr>"

definition NewEventRateLimitMiddlewareBase :: "rat \<Rightarrow> int \<Rightarrow> mw_base option" where
  "NewEventRateLimitMiddlewareBase r b = (if r \<le> 0 then None else if b < 1 then None else Some (eventRate_base r b))"

definition reqRate_OnStart :: "rat \<Rightarrow> int \<Rightarrow> time \<Rightarrow> conn_ctx \<Rightarrow> conn_ctx \<times> ServerMsg option \<times> mw_error option" where
  "reqRate_OnStart r b now c = (c\<lparr>reqTB := Some (newTokenBucket r b now)\<rparr>, None, None)"

definition reqRate_HandleClientMsg :: "time \<Rightarrow> ClientMsg \<Rightarrow> conn_ctx \<Rightarrow> mw_error + conn_ctx \<times> ClientMsg option \<times> ServerMsg option" where
  "reqRate_HandleClientMsg now msg c =
     (if CType msg \<noteq> MsgTypeReq then pass_on c msg
      else case reqTB c of None \<Rightarrow> Inl MwPanic
        | Some tb \<Rightarrow> (case allow now tb of (tb', ok) \<Rightarrow>
            if ok then pass_on (c\<lparr>reqTB := Some tb'\<rparr>) msg
            else respond (c\<lparr>reqTB := Some tb'\<rparr>) (NewServerClosedMsg (CSubscriptionID msg) ''rate-limited: too many subscriptions'')))"

definition reqRate_base :: "rat \<Rightarrow> int \<Rightarrow> mw_base" where
  "reqRate_base r b = \<lparr>OnStart = reqRate_OnStart r b, OnEnd = end_same, HandleClientMsg = reqRate_HandleClientMsg, HandleServerMsg = server_same\<rparr>"

definition NewReqRateLimitMiddlewareBase :: "rat \<Rightarrow> int \<Rightarrow> mw_base option" where
  "NewReqRateLimitMiddlewareBase r b = (if r \<le> 0 then None else if b < 1 then None else Some (reqRate_base r b))"

definition countRate_OnStart :: "rat \<Rightarrow> int \<Rightarrow> time \<Rightarrow> conn_ctx \<Rightarrow> conn_ctx \<times> ServerMsg option \<times> mw_error option" where
  "countRate_OnStart r b now c = (c\<lparr>countTB := Some (newTokenBucket r b now)\<rparr>, None, None)"

definition countRate_HandleClientMsg :: "time \<Rightarrow> ClientMsg \<Rightarrow> conn_ctx \<Rightarrow> mw_error + conn_ctx \<times> ClientMsg option \<times> ServerMsg option" where
  "countRate_HandleClientMsg now msg c =
     (if CType msg \<noteq> MsgTypeCount then pass_on c msg
      else case countTB c of None \<Rightarrow> Inl MwPanic
        | Some tb \<Rightarrow> (case allow now tb of (tb', ok) \<Rightarrow>
            if ok then pass_on (c\<lparr>countTB := Some tb'\<rparr>) msg
            else respond (c\<lparr>countTB := Some tb'\<rparr>) (NewServerClosedMsg (CSubscriptionID msg) ''rate-limited: too many counts'')))"

definition countRate_base :: "rat \<Rightarrow> int \<Rightarrow> mw_base" where
  "countRate_base r b = \<lparr>OnStart = countRate_OnStart r b, OnEnd = end_same, HandleClientMsg = countRate_HandleClientMsg, HandleServerMsg = server_same\<rparr>"

definition NewCountRateLimitMiddlewareBase :: "rat \<Rightarrow> int \<Rightarrow> mw_base option" where
  "NewCountRateLimitMiddlewareBase r b = (if r \<le> 0 then None else if b < 1 then None else Some (countRate_base r b))"

definition authRate_OnStart :: "rat \<Rightarrow> int \<Rightarrow> time \<Rightarrow> conn_ctx \<Rightarrow> conn_ctx \<times> ServerMsg option \<times> mw_error option" where
  "authRate_OnStart r b now c = (c\<lparr>authTB := Some (newTokenBucket r b now)\<rparr>, None, None)"

definition authRate_HandleClientMsg :: "time \<Rightarrow> ClientMsg \<Rightarrow> conn_ctx \<Rightarrow> mw_error + conn_ctx \<times> ClientMsg option \<times> ServerMsg option" where
  "authRate_HandleClientMsg now msg c =
     (if CType msg \<noteq> MsgTypeAuth then pass_on c msg
      else case authTB c of None \<Rightarrow> Inl MwPanic
        | Some tb \<Rightarrow> (case allow now tb of (tb', ok) \<Rightarrow>
            if ok then pass_on (c\<lparr>authTB := Some tb'\<rparr>) msg
            else respond (c\<lparr>authTB := Some tb'\<rparr>) (NewServerOKMsg (event_id_of msg) False ''rate-limited: too many auth attempts'')))"

definition authRate_base :: "rat \<Rightarrow> int \<Rightarrow> mw_base" where
  "authRate_base r b = \<lparr>OnStart = authRate_OnStart r b, OnEnd = end_same, HandleClientMsg = authRate_HandleClientMsg, HandleServerMsg = server_same\<rparr>"

definition NewAuthRateLimitMiddlewareBase :: "rat \<Rightarrow> int \<Rightarrow> mw_base option" where
  "NewAuthRateLimitMiddlewareBase r b = (if r \<le> 0 then None else if b < 1 then None else Some (authRate_base r b))"

section \<open>Limits on requests\<close>

text \<open>\<^verbatim>\<open>middleware_max_subscriptions.go\<close>\<close>

definition maxSubs_OnStart :: "time \<Rightarrow> conn_ctx \<Rightarrow> conn_ctx \<times> ServerMsg option \<times> mw_error option" where
  "maxSubs_OnStart now c = (c\<lparr>subsSt := Some {}\<rparr>, None, None)"

definition maxSubs_handleReq :: "nat \<Rightarrow> string set \<Rightarrow> ClientMsg \<Rightarrow> conn_ctx \<Rightarrow> mw_error + conn_ctx \<times> ClientMsg option \<times> ServerMsg option" where
  "maxSubs_handleReq maxSubs subs msg c =
     (if CSubscriptionID msg \<in> subs then pass_on c msg
      else if card subs \<ge> maxSubs then
        respond c (NewServerClosedMsg (CSubscriptionID msg) ''error: too many subscriptions'')
      else pass_on (c\<lparr>subsSt := Some (insert (CSubscriptionID msg) subs)\<rparr>) msg)"

definition maxSubs_handleClose :: "string set \<Rightarrow> ClientMsg \<Rightarrow> conn_ctx \<Rightarrow> mw_error + conn_ctx \<times> ClientMsg option \<times> ServerMsg option" where
  "maxSubs_handleClose subs msg c = pass_on (c\<lparr>subsSt := Some (subs - {CSubscriptionID msg})\<rparr>) msg"

definition maxSubs_HandleClientMsg :: "nat \<Rightarrow> time \<Rightarrow> ClientMsg \<Rightarrow> conn_ctx \<Rightarrow> mw_error + conn_ctx \<times> ClientMsg option \<times> ServerMsg option" where
  "maxSubs_HandleClientMsg maxSubs now msg c =
     (case subsSt c of None \<Rightarrow> Inl MwPanic
      | Some subs \<Rightarrow>
          if CType msg = MsgTypeReq then maxSubs_handleReq maxSubs subs msg c
          else if CType msg = MsgTypeClose then maxSubs_handleClose subs msg c
          else pass_on c msg)"

definition maxSubs_HandleServerMsg :: "time \<Rightarrow> ServerMsg \<Rightarrow> conn_ctx \<Rightarrow> mw_error + conn_ctx \<times> ServerMsg option" where
  "maxSubs_HandleServerMsg now msg c =
     (if SType msg = MsgTypeClosed then
        (case subsSt c of None \<Rightarrow> Inl MwPanic
         | Some subs \<Rightarrow> Inr (c\<lparr>subsSt := Some (subs - {SSubscriptionID msg})\<rparr>, Some msg))
      else Inr (c, Some msg))"

definition maxSubs_base :: "nat \<Rightarrow> mw_base" where
  "maxSubs_base maxSubs = \<lparr>OnStart = maxSubs_OnStart, OnEnd = end_same, HandleClientMsg = maxSubs_HandleClientMsg maxSubs,
     HandleServerMsg = maxSubs_HandleServerMsg\<rparr>"

definition NewMaxSubscriptionsMiddlewareBase :: "int \<Rightarrow> mw_base option" where
  "NewMaxSubscriptionsMiddlewareBase maxSubs = (if maxSubs < 1 then None else Some (maxSubs_base (nat maxSubs)))"

text \<open>\<^verbatim>\<open>middleware_max_limit.go\<close>\<close>

definition clamp_limit :: "int \<Rightarrow> int \<Rightarrow> ReqFilter \<Rightarrow> ReqFilter" where
  "clamp_limit maxLimit defaultLimit f =
     (case Limit f of None \<Rightarrow> f\<lparr>Limit := Some defaultLimit\<rparr>
      | Some n \<Rightarrow> if n = 0 then f\<lparr>Limit := Some defaultLimit\<rparr>
                 else if n > maxLimit then f\<lparr>Limit := Some maxLimit\<rparr> else f)"

definition maxLimit_HandleClientMsg :: "int \<Rightarrow> int \<Rightarrow> time \<Rightarrow> ClientMsg \<Rightarrow> conn_ctx \<Rightarrow> mw_error + conn_ctx \<times> ClientMsg option \<times> ServerMsg option" where
  "maxLimit_HandleClientMsg maxLimit defaultLimit now msg c =
     (if CType msg \<noteq> MsgTypeReq then pass_on c msg
      else pass_on c (msg\<lparr>CFilters := map (clamp_limit maxLimit defaultLimit) (CFilters msg)\<rparr>))"

definition maxLimit_base :: "int \<Rightarrow> int \<Rightarrow> mw_base" where
  "maxLimit_base maxLimit defaultLimit = \<lparr>OnStart = start_same, OnEnd = end_same,
     HandleClientMsg = maxLimit_HandleClientMsg maxLimit defaultLimit, HandleServerMsg = server_same\<rparr>"

definition NewMaxLimitMiddlewareBase :: "int \<Rightarrow> int \<Rightarrow> mw_base option" where
  "NewMaxLimitMiddlewareBase maxLimit defaultLimit =
     (if maxLimit < 1 then None else if defaultLimit < 1 then None else if defaultLimit > maxLimit then None
      else Some (maxLimit_base maxLimit defaultLimit))"

text \<open>\<^verbatim>\<open>middleware_max_subid_length.go\<close>\<close>

definition maxSubid_HandleClientMsg :: "int \<Rightarrow> time \<Rightarrow> ClientMsg \<Rightarrow> conn_ctx \<Rightarrow> mw_error + conn_ctx \<times> ClientMsg option \<times> ServerMsg option" where
  "maxSubid_HandleClientMsg maxLen now msg c =
     (if (CType msg = MsgTypeReq \<or> CType msg = MsgTypeClose) \<and> int (length (CSubscriptionID msg)) > maxLen then
        respond c (NewServerClosedMsg (CSubscriptionID msg) ''error: subscription ID too long'')
      else pass_on c msg)"

definition maxSubid_base :: "int \<Rightarrow> mw_base" where
  "maxSubid_base maxLen = \<lparr>OnStart = start_same, OnEnd = end_same, HandleClientMsg = maxSubid_HandleClientMsg maxLen, HandleServerMsg = server_same\<rparr>"

definition NewMaxSubidLengthMiddlewareBase :: "int \<Rightarrow> mw_base option" where
  "NewMaxSubidLengthMiddlewareBase maxLen = (if maxLen < 1 then None else Some (maxSubid_base maxLen))"

section \<open>Limits on events\<close>

text \<open>\<^verbatim>\<open>middleware_max_event_tags.go\<close>\<close>

definition maxTags_HandleClientMsg :: "int \<Rightarrow> time \<Rightarrow> ClientMsg \<Rightarrow> conn_ctx \<Rightarrow> mw_error + conn_ctx \<times> ClientMsg option \<times> ServerMsg option" where
  "maxTags_HandleClientMsg maxTags now msg c =
     (if CType msg \<noteq> MsgTypeEvent then pass_on c msg
      else case CEvent msg of None \<Rightarrow> pass_on c msg
        | Some event \<Rightarrow>
            if int (length (tags_of event)) > maxTags then respond c (NewServerOKMsg (ID event) False ''invalid: too many tags'')
            else pass_on c msg)"

definition maxTags_base :: "int \<Rightarrow> mw_base" where
  "maxTags_base maxTags = \<lparr>OnStart = start_same, OnEnd = end_same, HandleClientMsg = maxTags_HandleClientMsg maxTags, HandleServerMsg = server_same\<rparr>"

definition NewMaxEventTagsMiddlewareBase :: "int \<Rightarrow> mw_base option" where
  "NewMaxEventTagsMiddlewareBase maxTags = (if maxTags < 1 then None else Some (maxTags_base maxTags))"

text \<open>\<^verbatim>\<open>middleware_max_content_length.go\<close>; the length is in code points.\<close>

definition maxContent_HandleClientMsg :: "int \<Rightarrow> time \<Rightarrow> ClientMsg \<Rightarrow> conn_ctx \<Rightarrow> mw_error + conn_ctx \<times> ClientMsg option \<times> ServerMsg option" where
  "maxContent_HandleClientMsg maxLen now msg c =
     (if CType msg \<noteq> MsgTypeEvent then pass_on c msg
      else case CEvent msg of None \<Rightarrow> pass_on c msg
        | Some event \<Rightarrow>
            if int (rune_count (Content event)) > maxLen then respond c (NewServerOKMsg (ID event) False ''invalid: content too long'')
            else pass_on c msg)"

definition maxContent_base :: "int \<Rightarrow> mw_base" where
  "maxContent_base maxLen = \<lparr>OnStart = start_same, OnEnd = end_same, HandleClientMsg = maxContent_HandleClientMsg maxLen, HandleServerMsg = server_same\<rparr>"

definition NewMaxContentLengthMiddlewareBase :: "int \<Rightarrow> mw_base option" where
  "NewMaxContentLengthMiddlewareBase maxLen = (if maxLen < 1 then None else Some (maxContent_base maxLen))"

section \<open>The contracts\<close>

lemmas event_one = one_of_intros(1,2)
lemmas closed_one = one_of_intros(1,4)

interpretation event_rate: middleware "eventRate_base r b" "\<lambda>c. eventTB c \<noteq> None"
proof unfold_locales
  show "eventTB c \<noteq> None \<Longrightarrow> well_formed m \<Longrightarrow>
      \<exists>c' out resp. HandleClientMsg (eventRate_base r b) now m c = Inr (c', out, resp) \<and> ctx_le c c' \<and> one_of m out resp" for c m now
    using event_one
    by (auto simp: eventRate_base_def eventRate_HandleClientMsg_def event_id_of_def respond_def pass_on_def ctx_le_def well_formed_def split: prod.splits)
qed (auto simp: eventRate_base_def eventRate_OnStart_def server_same_def ctx_le_def)

interpretation req_rate: middleware "reqRate_base r b" "\<lambda>c. reqTB c \<noteq> None"
proof unfold_locales
  show "reqTB c \<noteq> None \<Longrightarrow> well_formed m \<Longrightarrow>
      \<exists>c' out resp. HandleClientMsg (reqRate_base r b) now m c = Inr (c', out, resp) \<and> ctx_le c c' \<and> one_of m out resp" for c m now
    using closed_one
    by (auto simp: reqRate_base_def reqRate_HandleClientMsg_def respond_def pass_on_def ctx_le_def split: prod.splits)
qed (auto simp: reqRate_base_def reqRate_OnStart_def server_same_def ctx_le_def)

interpretation count_rate: middleware "countRate_base r b" "\<lambda>c. countTB c \<noteq> None"
proof unfold_locales
  show "countTB c \<noteq> None \<Longrightarrow> well_formed m \<Longrightarrow>
      \<exists>c' out resp. HandleClientMsg (countRate_base r b) now m c = Inr (c', out, resp) \<and> ctx_le c c' \<and> one_of m out resp" for c m now
    using closed_one
    by (auto simp: countRate_base_def countRate_HandleClientMsg_def respond_def pass_on_def ctx_le_def split: prod.splits)
qed (auto simp: countRate_base_def countRate_OnStart_def server_same_def ctx_le_def)

interpretation auth_rate: middleware "authRate_base r b" "\<lambda>c. authTB c \<noteq> None"
proof unfold_locales
  show "authTB c \<noteq> None \<Longrightarrow> well_formed m \<Longrightarrow>
      \<exists>c' out resp. HandleClientMsg (authRate_base r b) now m c = Inr (c', out, resp) \<and> ctx_le c c' \<and> one_of m out resp" for c m now
    using one_of_intros(1,3)
    by (auto simp: authRate_base_def authRate_HandleClientMsg_def event_id_of_def respond_def pass_on_def ctx_le_def well_formed_def split: prod.splits)
qed (auto simp: authRate_base_def authRate_OnStart_def server_same_def ctx_le_def)

interpretation max_subs: middleware "maxSubs_base n" "\<lambda>c. subsSt c \<noteq> None"
proof unfold_locales
  show "subsSt c \<noteq> None \<Longrightarrow> well_formed m \<Longrightarrow>
      \<exists>c' out resp. HandleClientMsg (maxSubs_base n) now m c = Inr (c', out, resp) \<and> ctx_le c c' \<and> one_of m out resp" for c m now
    using closed_one
    by (auto simp: maxSubs_base_def maxSubs_HandleClientMsg_def maxSubs_handleReq_def maxSubs_handleClose_def respond_def pass_on_def ctx_le_def)
qed (auto simp: maxSubs_base_def maxSubs_OnStart_def maxSubs_HandleServerMsg_def ctx_le_def)

interpretation max_limit: middleware "maxLimit_base n d" "\<lambda>c. True"
proof unfold_locales
  show "True \<Longrightarrow> well_formed m \<Longrightarrow>
      \<exists>c' out resp. HandleClientMsg (maxLimit_base n d) now m c = Inr (c', out, resp) \<and> ctx_le c c' \<and> one_of m out resp" for c m now
    by (simp add: maxLimit_base_def maxLimit_HandleClientMsg_def pass_on_def one_of_def same_request_def)
qed (use plain_methods in \<open>auto simp: maxLimit_base_def\<close>)

interpretation max_subid: middleware "maxSubid_base n" "\<lambda>c. True"
proof unfold_locales
  show "True \<Longrightarrow> well_formed m \<Longrightarrow>
      \<exists>c' out resp. HandleClientMsg (maxSubid_base n) now m c = Inr (c', out, resp) \<and> ctx_le c c' \<and> one_of m out resp" for c m now
    using closed_one by (auto simp: maxSubid_base_def maxSubid_HandleClientMsg_def pass_on_def respond_def)
qed (use plain_methods in \<open>auto simp: maxSubid_base_def\<close>)

interpretation max_tags: middleware "maxTags_base n" "\<lambda>c. True"
proof unfold_locales
  show "True \<Longrightarrow> well_formed m \<Longrightarrow>
      \<exists>c' out resp. HandleClientMsg (maxTags_base n) now m c = Inr (c', out, resp) \<and> ctx_le c c' \<and> one_of m out resp" for c m now
    using event_one by (auto simp: maxTags_base_def maxTags_HandleClientMsg_def pass_on_def respond_def split: option.splits)
qed (use plain_methods in \<open>auto simp: maxTags_base_def\<close>)

interpretation max_content: middleware "maxContent_base n" "\<lambda>c. True"
proof unfold_locales
  show "True \<Longrightarrow> well_formed m \<Longrightarrow>
      \<exists>c' out resp. HandleClientMsg (maxContent_base n) now m c = Inr (c', out, resp) \<and> ctx_le c c' \<and> one_of m out resp" for c m now
    using event_one by (auto simp: maxContent_base_def maxContent_HandleClientMsg_def pass_on_def respond_def split: option.splits)
qed (use plain_methods in \<open>auto simp: maxContent_base_def\<close>)

section \<open>Rate limiting in a conversation\<close>

text \<open>A limiter of one message type: everything else passes, and its own type costs a token.\<close>

locale rate_limiter =
  fixes handler :: "time \<Rightarrow> ClientMsg \<Rightarrow> conn_ctx \<Rightarrow> mw_error + conn_ctx \<times> ClientMsg option \<times> ServerMsg option"
    and mtype :: string and bucket :: "conn_ctx \<Rightarrow> tokenBucket option"
  assumes other: "CType m \<noteq> mtype \<Longrightarrow> handler now m c = Inr (c, Some m, None)"
    and own: "CType m = mtype \<Longrightarrow> bucket c = Some tb \<Longrightarrow> allow now tb = (tb', ok) \<Longrightarrow>
      \<exists>c' resp. handler now m c = Inr (c', if ok then Some m else None, resp) \<and> bucket c' = Some tb'"
begin

lemma talk_permits:
  assumes "bucket c = Some tb" "mw_talk handler msgs c = Inr (c', outs)"
  shows "\<exists>tb' oks. allow_run (map fst (filter (\<lambda>tm. CType (snd tm) = mtype) msgs)) tb = (tb', oks)
    \<and> length (filter (\<lambda>m. CType m = mtype) outs) = length (filter (\<lambda>ok. ok) oks)
    \<and> filter (\<lambda>m. CType m \<noteq> mtype) outs = filter (\<lambda>m. CType m \<noteq> mtype) (map snd msgs)"
  using assms
proof (induction msgs arbitrary: c tb outs)
  case (Cons tm msgs)
  obtain now m where tm: "tm = (now, m)" by force
  show ?case
  proof (cases "CType m = mtype")
    case False
    then obtain outs1 where "mw_talk handler msgs c = Inr (c', outs1)" "outs = m # outs1"
      using Cons.prems(2) tm other[OF False] by (auto split: sum.splits prod.splits)
    with Cons.IH[OF Cons.prems(1)] False tm show ?thesis by auto
  next
    case True
    obtain tb1 ok where a: "allow now tb = (tb1, ok)" by force
    obtain c1 resp where h: "handler now m c = Inr (c1, if ok then Some m else None, resp)" "bucket c1 = Some tb1"
      using own[OF True Cons.prems(1) a] by blast
    then obtain outs1 where o: "mw_talk handler msgs c1 = Inr (c', outs1)" "outs = (if ok then m # outs1 else outs1)"
      using Cons.prems(2) tm by (auto split: sum.splits prod.splits)
    obtain tb' oks where "allow_run (map fst (filter (\<lambda>tm. CType (snd tm) = mtype) msgs)) tb1 = (tb', oks)"
      "length (filter (\<lambda>m. CType m = mtype) outs1) = length (filter (\<lambda>ok. ok) oks)"
      "filter (\<lambda>m. CType m \<noteq> mtype) outs1 = filter (\<lambda>m. CType m \<noteq> mtype) (map snd msgs)"
      using Cons.IH[OF h(2) o(1)] by blast
    with True tm a o(2) show ?thesis by auto
  qed
qed simp

lemma forwarded_bound:
  assumes "0 < r" "1 \<le> b" "bucket c = Some (newTokenBucket r b t0)" "mw_talk handler msgs c = Inr (c', outs)"
  shows "of_nat (length (filter (\<lambda>m. CType m = mtype) outs))
    \<le> of_int b + r * Seconds (foldl max t0 (map fst (filter (\<lambda>tm. CType (snd tm) = mtype) msgs)) - t0)"
proof -
  obtain tb' oks where "allow_run (map fst (filter (\<lambda>tm. CType (snd tm) = mtype) msgs)) (newTokenBucket r b t0) = (tb', oks)"
    "length (filter (\<lambda>m. CType m = mtype) outs) = length (filter (\<lambda>ok. ok) oks)"
    using talk_permits[OF assms(3,4)] by blast
  with rate_limit_bound[OF assms(1,2)] show ?thesis by metis
qed

end

interpretation event_limiter: rate_limiter eventRate_HandleClientMsg MsgTypeEvent eventTB
  by unfold_locales (auto simp: eventRate_HandleClientMsg_def pass_on_def respond_def)

interpretation req_limiter: rate_limiter reqRate_HandleClientMsg MsgTypeReq reqTB
  by unfold_locales (auto simp: reqRate_HandleClientMsg_def pass_on_def respond_def)

interpretation count_limiter: rate_limiter countRate_HandleClientMsg MsgTypeCount countTB
  by unfold_locales (auto simp: countRate_HandleClientMsg_def pass_on_def respond_def)

interpretation auth_limiter: rate_limiter authRate_HandleClientMsg MsgTypeAuth authTB
  by unfold_locales (auto simp: authRate_HandleClientMsg_def pass_on_def respond_def)

section \<open>The subscription limit in a conversation\<close>

lemma maxSubs_client_card:
  assumes "subsSt c = Some S" "finite S" "card S \<le> n" "pipe_client [maxSubs_base n] now m c = Inr (c', out, rs)"
  shows "\<exists>S'. subsSt c' = Some S' \<and> finite S' \<and> card S' \<le> n"
  using assms card_Diff1_le[of S "CSubscriptionID m"]
  by (auto simp: pipe_client_def maxSubs_base_def maxSubs_HandleClientMsg_def maxSubs_handleReq_def maxSubs_handleClose_def
      pass_on_def respond_def Let_def split: if_splits)

lemma maxSubs_server_card:
  assumes "subsSt c = Some S" "finite S" "card S \<le> n" "pipe_server [maxSubs_base n] now m c = Inr (c', out)"
  shows "\<exists>S'. subsSt c' = Some S' \<and> finite S' \<and> card S' \<le> n"
  using assms card_Diff1_le[of S "SSubscriptionID m"]
  by (auto simp: pipe_server_def maxSubs_base_def maxSubs_HandleServerMsg_def split: if_splits)

lemma maxSubs_process_card:
  "subsSt c = Some S \<Longrightarrow> finite S \<Longrightarrow> card S \<le> n \<Longrightarrow> pipe_process [maxSubs_base n] inps c = Inr (c', downs, clients) \<Longrightarrow>
    \<exists>S'. subsSt c' = Some S' \<and> finite S' \<and> card S' \<le> n"
proof (induction inps arbitrary: c S downs clients)
  case (Cons inp inps)
  show ?case
  proof (cases inp)
    case (ClientIn now m)
    then obtain c1 out rs d s where h: "pipe_client [maxSubs_base n] now m c = Inr (c1, out, rs)"
      "pipe_process [maxSubs_base n] inps c1 = Inr (c', d, s)"
      using Cons.prems(4) by (auto split: sum.splits prod.splits)
    obtain S1 where "subsSt c1 = Some S1" "finite S1" "card S1 \<le> n"
      using maxSubs_client_card[OF Cons.prems(1-3) h(1)] by blast
    with Cons.IH h(2) show ?thesis by blast
  next
    case (ServerIn now m)
    then obtain c1 out d s where h: "pipe_server [maxSubs_base n] now m c = Inr (c1, out)"
      "pipe_process [maxSubs_base n] inps c1 = Inr (c', d, s)"
      using Cons.prems(4) by (auto split: sum.splits prod.splits)
    obtain S1 where "subsSt c1 = Some S1" "finite S1" "card S1 \<le> n"
      using maxSubs_server_card[OF Cons.prems(1-3) h(1)] by blast
    with Cons.IH h(2) show ?thesis by blast
  qed
qed simp

section \<open>Properties\<close>

text \<open>C29. Over any conversation of a connection, the number of EVENT messages a rate limit passes on is
  at most its burst plus its rate times the time between the start of the connection and the latest
  EVENT; the other messages all pass, in their order.\<close>

theorem rate_limited_events:
  assumes "NewEventRateLimitMiddlewareBase r b = Some base" "OnStart base t0 c0 = (c, greeting, err)"
    "mw_talk (HandleClientMsg base) msgs c = Inr (c', outs)"
  shows "of_nat (length (filter (\<lambda>m. CType m = MsgTypeEvent) outs))
      \<le> of_int b + r * Seconds (foldl max t0 (map fst (filter (\<lambda>tm. CType (snd tm) = MsgTypeEvent) msgs)) - t0)
    \<and> filter (\<lambda>m. CType m \<noteq> MsgTypeEvent) outs = filter (\<lambda>m. CType m \<noteq> MsgTypeEvent) (map snd msgs)"
proof (rule conjI)
  have b: "0 < r" "1 \<le> b" "base = eventRate_base r b"
    using assms(1) by (auto simp: NewEventRateLimitMiddlewareBase_def split: if_splits)
  have c: "eventTB c = Some (newTokenBucket r b t0)" and t: "mw_talk eventRate_HandleClientMsg msgs c = Inr (c', outs)"
    using assms(2,3) b(3) by (auto simp: eventRate_base_def eventRate_OnStart_def)
  show "of_nat (length (filter (\<lambda>m. CType m = MsgTypeEvent) outs))
      \<le> of_int b + r * Seconds (foldl max t0 (map fst (filter (\<lambda>tm. CType (snd tm) = MsgTypeEvent) msgs)) - t0)"
    by (rule event_limiter.forwarded_bound[OF b(1,2) c t])
  show "filter (\<lambda>m. CType m \<noteq> MsgTypeEvent) outs = filter (\<lambda>m. CType m \<noteq> MsgTypeEvent) (map snd msgs)"
    using event_limiter.talk_permits[OF c t] by blast
qed

text \<open>Whatever the client and the handler send, the subscription limit never holds more
  subscriptions than its bound.\<close>

theorem max_subscriptions_bound:
  assumes "NewMaxSubscriptionsMiddlewareBase n = Some base" "OnStart base t0 c0 = (c, greeting, err)"
    "pipe_process [base] inps c = Inr (c', downs, clients)"
  shows "\<exists>S. subsSt c' = Some S \<and> finite S \<and> int (card S) \<le> n"
proof -
  have b: "1 \<le> n" "base = maxSubs_base (nat n)" using assms(1) by (auto simp: NewMaxSubscriptionsMiddlewareBase_def split: if_splits)
  moreover have "subsSt c = Some {}" using assms(2) b(2) by (auto simp: maxSubs_base_def maxSubs_OnStart_def)
  ultimately show ?thesis using maxSubs_process_card[of c "{}" "nat n" inps c' downs clients] assms(3) by auto
qed

text \<open>The bound is on what the base remembers, not on the live subscriptions: behind a limit of one
  subscription with a COUNT limit below it, a COUNT refused under the id of a live subscription makes
  the base forget it, and a second REQ goes through while the first was never closed by the client.\<close>

theorem max_subscriptions_bypass:
  "\<exists>c' clients. pipe_process [maxSubs_base 1, countRate_base 1 1]
      [ClientIn 0 (client_req ''a'' []), ClientIn 0 (client_count ''a'' []), ClientIn 0 (client_count ''a'' []),
       ClientIn 0 (client_req ''b'' [])]
      (fst (start_all 0 (\<lambda>_. True) 0 [maxSubs_base 1, countRate_base 1 1] [] (new_ctx False)))
    = Inr (c', [client_req ''a'' [], client_count ''a'' [], client_req ''b'' []], clients)"
  by (simp add: pipe_client_def maxSubs_base_def countRate_base_def maxSubs_OnStart_def countRate_OnStart_def
      maxSubs_HandleClientMsg_def maxSubs_handleReq_def maxSubs_HandleServerMsg_def countRate_HandleClientMsg_def
      client_req_def client_count_def pass_on_def respond_def allow_def newTokenBucket_def time_Sub_def Seconds_def msg_defs)

text \<open>C30. Behind the limit base a query of the in-memory storage yields at most \<open>maxLimit\<close> events, unless
  the client's first limit is negative: then it passes unchanged and the query yields every matching
  event.\<close>

theorem max_limit_bounds_query:
  assumes "NewMaxLimitMiddlewareBase maxLimit defaultLimit = Some base" "CType msg = MsgTypeReq"
    "HandleClientMsg base now msg c = Inr (c', Some msg', resp)" "storage_ok s" "CFilters msg = f # fs"
  shows "if Limit f \<noteq> None \<and> the (Limit f) < 0
    then hd (CFilters msg') = f \<and> set (Query_events s (CFilters msg')) = {e \<in> set (events s). matchesAny (CFilters msg') e}
    else int (length (Query_events s (CFilters msg'))) \<le> maxLimit"
proof -
  have b: "1 \<le> maxLimit" "1 \<le> defaultLimit" "defaultLimit \<le> maxLimit" "base = maxLimit_base maxLimit defaultLimit"
    using assms(1) by (auto simp: NewMaxLimitMiddlewareBase_def split: if_splits)
  then have m: "CFilters msg' = map (clamp_limit maxLimit defaultLimit) (f # fs)"
    using assms(2,3,5) by (auto simp: maxLimit_base_def maxLimit_HandleClientMsg_def pass_on_def)
  have q: "Query s (CFilters msg') = (Query_events s (CFilters msg'), None)" by (simp add: Query_def)
  show ?thesis
  proof (cases "Limit f \<noteq> None \<and> the (Limit f) < 0")
    case True
    then have "hd (CFilters msg') = f" "limit_of (CFilters msg') < 0" using b(1) by (auto simp: m clamp_limit_def limit_of_def)
    with True mem.query_sound[OF assms(4) q] mem.query_complete[OF assms(4) q] show ?thesis by auto
  next
    case False
    then have "0 \<le> limit_of (CFilters msg') \<and> limit_of (CFilters msg') \<le> maxLimit"
      using b by (auto simp: m limit_of_def clamp_limit_def split: option.splits)
    then have "int (length (Query_events s (CFilters msg'))) \<le> maxLimit"
      using mem.query_length[OF assms(4) q] by linarith
    with False show ?thesis by (simp only: if_False)
  qed
qed

text \<open>A negative limit passes the limit base unchanged and means no limit at all to the storage: with
  a bound of one, a client that asks for \<open>-1\<close> events gets every matching event.\<close>

theorem max_limit_negative_bypass:
  "maxLimit_HandleClientMsg 1 1 now (client_req ''a'' [empty_filter\<lparr>Limit := Some (- 1)\<rparr>]) c
      = Inr (c, Some (client_req ''a'' [empty_filter\<lparr>Limit := Some (- 1)\<rparr>]), None)
    \<and> Query_events (s\<lparr>events := [mk_event ''i'' ''p'' 2 1 [], mk_event ''j'' ''p'' 1 1 []]\<rparr>) [empty_filter\<lparr>Limit := Some (- 1)\<rparr>]
      = [mk_event ''i'' ''p'' 2 1 [], mk_event ''j'' ''p'' 1 1 []]"
  by (simp add: maxLimit_HandleClientMsg_def pass_on_def client_req_def clamp_limit_def Query_events_def limit_of_def
      sortedEvents_def SortFunc_def compareEvents_def Match_def empty_filter_def)

section \<open>Concrete instances\<close>

lemma rate_limited_events_witness:
  "\<exists>base c c' m. NewEventRateLimitMiddlewareBase 1 1 = Some base \<and> OnStart base 0 (new_ctx False) = (c, None, None)
    \<and> mw_talk (HandleClientMsg base) [(0, client_event m), (0, client_event m)] c = Inr (c', [client_event m])
    \<and> (of_nat (length (filter (\<lambda>m. CType m = MsgTypeEvent) [client_event m])) :: rat) \<le> 1 + 1 * Seconds (0 - 0)"
proof -
  let ?m = "mk_event ''i'' ''p'' 0 1 []"
  have n: "NewEventRateLimitMiddlewareBase 1 1 = Some (eventRate_base 1 1)" by (simp add: NewEventRateLimitMiddlewareBase_def)
  obtain c where s: "OnStart (eventRate_base 1 1) 0 (new_ctx False) = (c, None, None)" "eventTB c = Some (newTokenBucket 1 1 0)"
    by (simp add: eventRate_base_def eventRate_OnStart_def)
  obtain c' where t: "mw_talk (HandleClientMsg (eventRate_base 1 1)) [(0, client_event ?m), (0, client_event ?m)] c = Inr (c', [client_event ?m])"
    using s(2) by (simp add: eventRate_base_def eventRate_HandleClientMsg_def client_event_def pass_on_def respond_def
      allow_def newTokenBucket_def time_Sub_def Seconds_def)
  from rate_limited_events[OF n s(1) t] n s(1) t show ?thesis by (auto simp: client_event_def Seconds_def)
qed

lemma max_subscriptions_bound_witness:
  "\<exists>c' downs clients S. pipe_process [maxSubs_base 1] [ClientIn 0 (client_req ''a'' []), ClientIn 0 (client_req ''b'' [])]
      ((new_ctx False)\<lparr>subsSt := Some {}\<rparr>) = Inr (c', downs, clients) \<and> subsSt c' = Some S \<and> int (card S) \<le> 1"
proof -
  have n: "NewMaxSubscriptionsMiddlewareBase 1 = Some (maxSubs_base 1)" by (simp add: NewMaxSubscriptionsMiddlewareBase_def)
  have s: "OnStart (maxSubs_base 1) 0 (new_ctx False) = ((new_ctx False)\<lparr>subsSt := Some {}\<rparr>, None, None)"
    by (simp add: maxSubs_base_def maxSubs_OnStart_def)
  obtain c' downs clients where t: "pipe_process [maxSubs_base 1] [ClientIn 0 (client_req ''a'' []), ClientIn 0 (client_req ''b'' [])]
      ((new_ctx False)\<lparr>subsSt := Some {}\<rparr>) = Inr (c', downs, clients)"
    by (simp add: pipe_client_def maxSubs_base_def maxSubs_HandleClientMsg_def maxSubs_handleReq_def client_req_def pass_on_def respond_def)
  from max_subscriptions_bound[OF n s t] t show ?thesis by blast
qed

lemma max_limit_bounds_query_witness:
  "HandleClientMsg (maxLimit_base 5 2) 0 (client_req ''a'' [empty_filter]) (new_ctx False)
      = Inr (new_ctx False, Some (client_req ''a'' [empty_filter\<lparr>Limit := Some 2\<rparr>]), None)
    \<and> int (length (Query_events NewInMemoryStorage [empty_filter\<lparr>Limit := Some 2\<rparr>])) \<le> 5"
proof -
  have n: "NewMaxLimitMiddlewareBase 5 2 = Some (maxLimit_base 5 2)" by (simp add: NewMaxLimitMiddlewareBase_def)
  have h: "HandleClientMsg (maxLimit_base 5 2) 0 (client_req ''a'' [empty_filter]) (new_ctx False)
      = Inr (new_ctx False, Some (client_req ''a'' [empty_filter\<lparr>Limit := Some 2\<rparr>]), None)"
    by (simp add: maxLimit_base_def maxLimit_HandleClientMsg_def clamp_limit_def pass_on_def client_req_def empty_filter_def)
  have s: "storage_ok NewInMemoryStorage" by (rule storage_ok_new)
  have m: "CType (client_req ''a'' [empty_filter]) = MsgTypeReq" by (simp add: client_req_def)
  have "int (length (Query_events NewInMemoryStorage (CFilters (client_req ''a'' [empty_filter\<lparr>Limit := Some 2\<rparr>])))) \<le> 5"
    using max_limit_bounds_query[OF n m h s, of empty_filter "[]"] by (simp add: client_req_def empty_filter_def)
  with h show ?thesis by (simp add: client_req_def)
qed

end
