(* ===== verification/Pow.thy ===== *)
theory Pow
  imports Event
begin

text \<open>
  Proof of work (\<^verbatim>\<open>pow.go\<close>): the number of leading zero bits of an identifier written in
  hexadecimal, and its meaning as a bound on the identifier read as a number.
\<close>

definition hexToNibble :: "char \<Rightarrow> int" where
  "hexToNibble c =
     (if CHR ''0'' \<le> c \<and> c \<le> CHR ''9'' then of_char c - of_char CHR ''0''
      else if CHR ''a'' \<le> c \<and> c \<le> CHR ''f'' then of_char c - of_char CHR ''a'' + 10
      else if CHR ''A'' \<le> c \<and> c \<le> CHR ''F'' then of_char c - of_char CHR ''A'' + 10
      else - 1)"

definition clz4 :: "int \<Rightarrow> int" where
  "clz4 nibble = (if nibble \<ge> 8 then 0 else if nibble \<ge> 4 then 1 else if nibble \<ge> 2 then 2 else 3)"

text \<open>The loop of \<^verbatim>\<open>countLeadingZeroBits\<close>; a nested \<^verbatim>\<open>break\<close> is the end of the recursion.\<close>

fun count_zero_loop :: "int \<Rightarrow> string \<Rightarrow> int" where
  "count_zero_loop count [] = count"
| "count_zero_loop count (c # cs) =
     (let nibble = hexToNibble c in
      if nibble < 0 then count
      else if nibble = 0 then count_zero_loop (count + 4) cs
      else count + clz4 nibble)"

definition countLeadingZeroBits :: "string \<Rightarrow> int" where
  "countLeadingZeroBits hex = count_zero_loop 0 hex"

section \<open>Lemmas\<close>

lemma of_char_mono: "c \<le> d \<Longrightarrow> (of_char c :: int) \<le> of_char d"
  unfolding less_eq_char_def by (metis of_nat_le_iff of_nat_of_char)

lemma hexToNibble_range: "hexToNibble c = - 1 \<or> 0 \<le> hexToNibble c \<and> hexToNibble c < 16"
  using of_char_mono[of "CHR ''0''" c] of_char_mono[of c "CHR ''9''"] of_char_mono[of "CHR ''a''" c]
    of_char_mono[of c "CHR ''f''"] of_char_mono[of "CHR ''A''" c] of_char_mono[of c "CHR ''F''"]
  by (auto simp: hexToNibble_def)

lemma count_zero_loop_shift: "count_zero_loop (a + b) s = a + count_zero_loop b s"
proof (induction s arbitrary: b)
  case (Cons c cs)
  from Cons[of "b + 4"] show ?case by (simp add: Let_def add.assoc)
qed simp

lemma countLeadingZeroBits_simps:
  "countLeadingZeroBits [] = 0"
  "countLeadingZeroBits (c # cs) =
     (if hexToNibble c < 0 then 0 else if hexToNibble c = 0 then 4 + countLeadingZeroBits cs else clz4 (hexToNibble c))"
  using count_zero_loop_shift[of 4 0 cs] by (simp_all add: countLeadingZeroBits_def Let_def)

lemma countLeadingZeroBits_nonneg: "0 \<le> countLeadingZeroBits s"
  by (induction s) (auto simp: countLeadingZeroBits_simps clz4_def)

text \<open>The number a hexadecimal string stands for.\<close>

fun hex_number :: "string \<Rightarrow> int" where
  "hex_number [] = 0"
| "hex_number (c # cs) = hexToNibble c * 16 ^ length cs + hex_number cs"

definition all_hex :: "string \<Rightarrow> bool" where
  "all_hex s = list_all (\<lambda>c. hexToNibble c \<ge> 0) s"

lemma hex_number_bounds: "all_hex s \<Longrightarrow> 0 \<le> hex_number s \<and> hex_number s < 16 ^ length s"
proof (induction s)
  case (Cons c cs)
  then have IH: "0 \<le> hex_number cs" "hex_number cs < 16 ^ length cs" and n: "0 \<le> hexToNibble c" "hexToNibble c \<le> 15"
    using hexToNibble_range[of c] by (auto simp: all_hex_def)
  have "hexToNibble c * 16 ^ length cs \<le> 15 * 16 ^ length cs" using n by (intro mult_right_mono) auto
  then have "hexToNibble c * 16 ^ length cs + hex_number cs < 16 * 16 ^ length cs" using IH by linarith
  moreover have "0 \<le> hexToNibble c * 16 ^ length cs" using n by simp
  ultimately show ?case using IH(1) by simp
qed simp

lemma nibble_bound:
  assumes "0 \<le> v" "v < (b :: int)"
  shows "n * b + v < k * b \<longleftrightarrow> n < k"
proof
  assume "n * b + v < k * b"
  then have "n * b < k * b" using assms(1) by linarith
  then show "n < k" using assms by (simp add: mult_less_cancel_right)
next
  assume "n < k"
  then have "(n + 1) * b \<le> k * b" using assms by (intro mult_right_mono) auto
  then show "n * b + v < k * b" using assms(2) by (simp add: algebra_simps)
qed

lemma clz4_meaning:
  assumes "0 < n" "n < 16" "d \<le> 4"
  shows "n < 2 ^ (4 - d) \<longleftrightarrow> int d \<le> clz4 n"
proof -
  have "d \<in> {0, 1, 2, 3, 4}" using assms(3) by auto
  then show ?thesis using assms(1,2) by (elim insertE emptyE) (simp_all add: clz4_def)
qed

section \<open>Properties\<close>

text \<open>For a hexadecimal string of \<open>n\<close> digits and every \<open>d\<close> up to \<open>4 * n\<close>, the code counts at least
  \<open>d\<close> leading zero bits exactly when the number the string stands for is below \<open>2 ^ (4 * n - d)\<close>:
  the difficulty is that of NIP-13.\<close>

theorem difficulty_bounds_number:
  assumes "all_hex s" "d \<le> 4 * length s"
  shows "int d \<le> countLeadingZeroBits s \<longleftrightarrow> hex_number s < 2 ^ (4 * length s - d)"
  using assms
proof (induction s arbitrary: d)
  case (Cons c cs)
  let ?n = "hexToNibble c" and ?b = "16 ^ length cs :: int"
  have b: "?b = 2 ^ (4 * length cs)" by (simp add: power_mult)
  have n: "0 \<le> ?n" "?n < 16" and cs: "all_hex cs" using Cons.prems hexToNibble_range[of c] by (auto simp: all_hex_def)
  note v = hex_number_bounds[OF cs]
  show ?case
  proof (cases "d \<le> 4")
    case True
    then have e: "2 ^ (4 * length (c # cs) - d) = 2 ^ (4 - d) * ?b" by (simp add: b power_add[symmetric])
    have "hex_number (c # cs) < 2 ^ (4 * length (c # cs) - d) \<longleftrightarrow> ?n < 2 ^ (4 - d)"
      unfolding e using nibble_bound[of "hex_number cs" ?b ?n "2 ^ (4 - d)"] v by simp
    moreover have "?n < 2 ^ (4 - d) \<longleftrightarrow> int d \<le> countLeadingZeroBits (c # cs)"
    proof (cases "?n = 0")
      case True
      have "int d \<le> 4 + countLeadingZeroBits cs" using countLeadingZeroBits_nonneg[of cs] \<open>d \<le> 4\<close> by linarith
      with True show ?thesis by (simp add: countLeadingZeroBits_simps)
    next
      case False
      with clz4_meaning[of ?n d] n \<open>d \<le> 4\<close> show ?thesis by (simp add: countLeadingZeroBits_simps)
    qed
    ultimately show ?thesis by simp
  next
    case False
    then obtain d' where d': "d = d' + 4" by (metis le_add_diff_inverse2 nat_le_linear)
    have IH: "int d' \<le> countLeadingZeroBits cs \<longleftrightarrow> hex_number cs < 2 ^ (4 * length cs - d')"
      using Cons.IH[OF cs, of d'] Cons.prems(2) d' by simp
    show ?thesis
    proof (cases "?n = 0")
      case True
      with IH d' show ?thesis by (simp add: countLeadingZeroBits_simps)
    next
      case nz: False
      have "clz4 ?n \<le> 3" by (simp add: clz4_def)
      moreover have "(2 :: int) ^ (4 * length (c # cs) - d) \<le> ?b" unfolding b using d' by (intro power_increasing) auto
      moreover have "?b \<le> ?n * ?b" using n nz by (simp add: mult_le_cancel_right1)
      ultimately have "\<not> ?n * ?b + hex_number cs < 2 ^ (4 * length (c # cs) - d)" "\<not> int d \<le> clz4 ?n"
        using v False by linarith+
      then show ?thesis using nz n by (simp add: countLeadingZeroBits_simps)
    qed
  qed
qed (simp add: countLeadingZeroBits_simps)

lemma difficulty_bounds_number_witness:
  "hex_number ''002f'' < 2 ^ 6 \<and> 10 \<le> countLeadingZeroBits ''002f''"
proof -
  have h: "all_hex ''002f''" by (simp add: all_hex_def hexToNibble_def)
  have "10 \<le> countLeadingZeroBits ''002f''" by (simp add: countLeadingZeroBits_simps hexToNibble_def clz4_def)
  with difficulty_bounds_number[OF h, of 10] show ?thesis by simp
qed

end
