(* ===== verification/Middleware_Policies.thy ===== *)
theory Middleware_Policies
  imports Middleware_Auth Middleware_Limits Pow
begin

text \<open>
  The bases that judge single events: \<^verbatim>\<open>middleware_created_at_limits.go\<close>, \<^verbatim>\<open>middleware_expiration.go\<close>,
  \<^verbatim>\<open>middleware_kind_allowlist.go\<close>, \<^verbatim>\<open>middleware_kind_denylist.go\<close>,
  \<^verbatim>\<open>middleware_restricted_writes.go\<close> and \<^verbatim>\<open>middleware_min_pow_difficulty.go\<close>; and the type of all
  built-in bases, for the properties of pipelines made of them.
\<close>

section \<open>Creation time\<close>

text \<open>\<^verbatim>\<open>time.Duration(s) * time.Second\<close>: 64-bit arithmetic with wrap-around.\<close>

definition seconds_duration :: "int \<Rightarrow> int" where
  "seconds_duration s = wrap64 (s * nsPerSec)"

definition createdAt_HandleClientMsg :: "int \<Rightarrow> int \<Rightarrow> time \<Rightarrow> ClientMsg \<Rightarrow> conn_ctx \<Rightarrow> mw_error + conn_ctx \<times> ClientMsg option \<times> ServerMsg option" where
  "createdAt_HandleClientMsg lowerLimit upperLimit now msg c =
     (if CType msg \<noteq> MsgTypeEvent then pass_on c msg
      else case CEvent msg of None \<Rightarrow> pass_on c msg
        | Some event \<Rightarrow>
            let oldest = now + seconds_duration (wrap64 (- lowerLimit)) in
            if CreatedAt event < oldest then respond c (NewServerOKMsg (ID event) False ''invalid: created_at too old'')
            else let newest = now + seconds_duration upperLimit in
            if CreatedAt event > newest then
              respond c (NewServerOKMsg (ID event) False ''invalid: created_at too far in the future'')
            else pass_on c msg)"

definition createdAt_base :: "int \<Rightarrow> int \<Rightarrow> mw_base" where
  "createdAt_base lowerLimit upperLimit = \<lparr>OnStart = start_same, OnEnd = end_same,
     HandleClientMsg = createdAt_HandleClientMsg lowerLimit upperLimit, HandleServerMsg = server_same\<rparr>"

definition NewCreatedAtLimitsMiddlewareBase :: "int \<Rightarrow> int \<Rightarrow> mw_base option" where
  "NewCreatedAtLimitsMiddlewareBase lowerLimit upperLimit =
     (if lowerLimit < 0 then None else if upperLimit < 0 then None else Some (createdAt_base lowerLimit upperLimit))"

section \<open>Expiration\<close>

fun isExpired_tags :: "time \<Rightarrow> Tag list \<Rightarrow> bool" where
  "isExpired_tags now [] = False"
| "isExpired_tags now (tag # tags) =
     (if length tag \<ge> 2 \<and> tag ! 0 = ''expiration'' then
        (case ParseInt (tag ! 1) of None \<Rightarrow> False | Some expiration \<Rightarrow> Unix now > expiration)
      else isExpired_tags now tags)"

definition isExpired :: "time \<Rightarrow> Event \<Rightarrow> bool" where
  "isExpired now event = isExpired_tags now (tags_of event)"

definition expiration_HandleClientMsg :: "time \<Rightarrow> ClientMsg \<Rightarrow> conn_ctx \<Rightarrow> mw_error + conn_ctx \<times> ClientMsg option \<times> ServerMsg option" where
  "expiration_HandleClientMsg now msg c =
     (if CType msg \<noteq> MsgTypeEvent then pass_on c msg
      else case CEvent msg of None \<Rightarrow> pass_on c msg
        | Some event \<Rightarrow>
            if isExpired now event then respond c (NewServerOKMsg (ID event) False ''invalid: event has expired'')
            else pass_on c msg)"

definition expiration_HandleServerMsg :: "time \<Rightarrow> ServerMsg \<Rightarrow> conn_ctx \<Rightarrow> mw_error + conn_ctx \<times> ServerMsg option" where
  "expiration_HandleServerMsg now msg c =
     (if SType msg = MsgTypeEvent then
        (case SEvent msg of None \<Rightarrow> Inr (c, Some msg)
         | Some event \<Rightarrow> if isExpired now event then Inr (c, None) else Inr (c, Some msg))
      else Inr (c, Some msg))"

definition expiration_base :: mw_base where
  "expiration_base = \<lparr>OnStart = start_same, OnEnd = end_same, HandleClientMsg = expiration_HandleClientMsg,
     HandleServerMsg = expiration_HandleServerMsg\<rparr>"

section \<open>Kinds and authors\<close>

definition kindAllowlist_HandleClientMsg :: "int set \<Rightarrow> time \<Rightarrow> ClientMsg \<Rightarrow> conn_ctx \<Rightarrow> mw_error + conn_ctx \<times> ClientMsg option \<times> ServerMsg option" where
  "kindAllowlist_HandleClientMsg allowlist now msg c =
     (if CType msg \<noteq> MsgTypeEvent then pass_on c msg
      else case CEvent msg of None \<Rightarrow> pass_on c msg
        | Some event \<Rightarrow>
            if Kind event \<notin> allowlist then respond c (NewServerOKMsg (ID event) False ''blocked: kind not allowed'')
            else pass_on c msg)"

definition NewKindAllowlistMiddlewareBase :: "int list \<Rightarrow> mw_base" where
  "NewKindAllowlistMiddlewareBase kinds = \<lparr>OnStart = start_same, OnEnd = end_same,
     HandleClientMsg = kindAllowlist_HandleClientMsg (set kinds), HandleServerMsg = server_same\<rparr>"

definition kindDenylist_HandleClientMsg :: "int set \<Rightarrow> time \<Rightarrow> ClientMsg \<Rightarrow> conn_ctx \<Rightarrow> mw_error + conn_ctx \<times> ClientMsg option \<times> ServerMsg option" where
  "kindDenylist_HandleClientMsg denylist now msg c =
     (if CType msg \<noteq> MsgTypeEvent then pass_on c msg
      else case CEvent msg of None \<Rightarrow> pass_on c msg
        | Some event \<Rightarrow>
            if Kind event \<in> denylist then respond c (NewServerOKMsg (ID event) False ''blocked: kind not allowed'')
            else pass_on c msg)"

definition NewKindDenylistMiddlewareBase :: "int list \<Rightarrow> mw_base" where
  "NewKindDenylistMiddlewareBase kinds = \<lparr>OnStart = start_same, OnEnd = end_same,
     HandleClientMsg = kindDenylist_HandleClientMsg (set kinds), HandleServerMsg = server_same\<rparr>"

text \<open>A Go enumeration is an integer: a mode outside the two constants lets everything pass.\<close>

datatype RestrictedWritesMode = RestrictedWritesModeAllowlist | RestrictedWritesModeBlocklist | RestrictedWritesModeOther int

definition restrictedWrites_HandleClientMsg ::
  "RestrictedWritesMode \<Rightarrow> string set \<Rightarrow> time \<Rightarrow> ClientMsg \<Rightarrow> conn_ctx \<Rightarrow> mw_error + conn_ctx \<times> ClientMsg option \<times> ServerMsg option" where
  "restrictedWrites_HandleClientMsg mode pubkeys now msg c =
     (if CType msg \<noteq> MsgTypeEvent then pass_on c msg
      else case CEvent msg of None \<Rightarrow> pass_on c msg
        | Some event \<Rightarrow>
            let inList = (Pubkey event \<in> pubkeys) in
            (case mode of
               RestrictedWritesModeAllowlist \<Rightarrow>
                 if \<not> inList then respond c (NewServerOKMsg (ID event) False ''restricted: pubkey not allowed'') else pass_on c msg
             | RestrictedWritesModeBlocklist \<Rightarrow>
                 if inList then respond c (NewServerOKMsg (ID event) False ''restricted: pubkey blocked'') else pass_on c msg
             | RestrictedWritesModeOther n \<Rightarrow> pass_on c msg))"

definition NewRestrictedWritesMiddlewareBase :: "RestrictedWritesMode \<Rightarrow> string list \<Rightarrow> mw_base" where
  "NewRestrictedWritesMiddlewareBase mode pubkeys = \<lparr>OnStart = start_same, OnEnd = end_same,
     HandleClientMsg = restrictedWrites_HandleClientMsg mode (set pubkeys), HandleServerMsg = server_same\<rparr>"

section \<open>Proof of work\<close>

fun committed_tags :: "Tag list \<Rightarrow> int" where
  "committed_tags [] = - 1"
| "committed_tags (tag # tags) =
     (if length tag \<ge> 3 \<and> tag ! 0 = ''nonce'' then (case ParseInt (tag ! 2) of None \<Rightarrow> - 1 | Some target \<Rightarrow> target)
      else committed_tags tags)"

definition getCommittedPowTarget :: "Event \<Rightarrow> int" where
  "getCommittedPowTarget event = committed_tags (tags_of event)"

definition minPow_HandleClientMsg :: "int \<Rightarrow> bool \<Rightarrow> time \<Rightarrow> ClientMsg \<Rightarrow> conn_ctx \<Rightarrow> mw_error + conn_ctx \<times> ClientMsg option \<times> ServerMsg option" where
  "minPow_HandleClientMsg minDifficulty checkCommitment now msg c =
     (if CType msg \<noteq> MsgTypeEvent then pass_on c msg
      else case CEvent msg of None \<Rightarrow> pass_on c msg
        | Some event \<Rightarrow>
            let actualDifficulty = countLeadingZeroBits (ID event) in
            if actualDifficulty < minDifficulty then
              respond c (NewServerOKMsg (ID event) False
                (''pow: difficulty '' @ FormatInt actualDifficulty @ '' is less than '' @ FormatInt minDifficulty @ '' required''))
            else let committedTarget = getCommittedPowTarget event in
            if checkCommitment \<and> committedTarget \<ge> 0 \<and> committedTarget < minDifficulty then
              respond c (NewServerOKMsg (ID event) False
                (''pow: committed target '' @ FormatInt committedTarget @ '' is less than '' @ FormatInt minDifficulty @ '' required''))
            else pass_on c msg)"

definition NewMinPowDifficultyMiddlewareBase :: "int \<Rightarrow> bool \<Rightarrow> mw_base" where
  "NewMinPowDifficultyMiddlewareBase minDifficulty checkCommitment = \<lparr>OnStart = start_same, OnEnd = end_same,
     HandleClientMsg = minPow_HandleClientMsg minDifficulty checkCommitment, HandleServerMsg = server_same\<rparr>"

section \<open>The contracts\<close>

interpretation created_at: middleware "createdAt_base l u" "\<lambda>c. True"
proof unfold_locales
  show "True \<Longrightarrow> well_formed m \<Longrightarrow>
      \<exists>c' out resp. HandleClientMsg (createdAt_base l u) now m c = Inr (c', out, resp) \<and> ctx_le c c' \<and> one_of m out resp" for c m now
    using event_one by (auto simp: createdAt_base_def createdAt_HandleClientMsg_def Let_def pass_on_def respond_def split: option.splits)
qed (use plain_methods in \<open>auto simp: createdAt_base_def\<close>)

interpretation expiration: middleware expiration_base "\<lambda>c. True"
proof unfold_locales
  show "True \<Longrightarrow> well_formed m \<Longrightarrow>
      \<exists>c' out resp. HandleClientMsg expiration_base now m c = Inr (c', out, resp) \<and> ctx_le c c' \<and> one_of m out resp" for c m now
    using event_one by (auto simp: expiration_base_def expiration_HandleClientMsg_def pass_on_def respond_def split: option.splits)
  show "True \<Longrightarrow> \<exists>c' out. HandleServerMsg expiration_base now r c = Inr (c', out) \<and> ctx_le c c'
      \<and> (out = Some r \<or> out = None \<and> SType r = MsgTypeEvent)" for c now r
    by (simp add: expiration_base_def expiration_HandleServerMsg_def split: option.splits)
qed (use plain_methods in \<open>auto simp: expiration_base_def\<close>)

interpretation kind_allowlist: middleware "NewKindAllowlistMiddlewareBase ks" "\<lambda>c. True"
proof unfold_locales
  show "True \<Longrightarrow> well_formed m \<Longrightarrow>
      \<exists>c' out resp. HandleClientMsg (NewKindAllowlistMiddlewareBase ks) now m c = Inr (c', out, resp) \<and> ctx_le c c' \<and> one_of m out resp" for c m now
    using event_one by (auto simp: NewKindAllowlistMiddlewareBase_def kindAllowlist_HandleClientMsg_def pass_on_def respond_def split: option.splits)
qed (use plain_methods in \<open>auto simp: NewKindAllowlistMiddlewareBase_def\<close>)

interpretation kind_denylist: middleware "NewKindDenylistMiddlewareBase ks" "\<lambda>c. True"
proof unfold_locales
  show "True \<Longrightarrow> well_formed m \<Longrightarrow>
      \<exists>c' out resp. HandleClientMsg (NewKindDenylistMiddlewareBase ks) now m c = Inr (c', out, resp) \<and> ctx_le c c' \<and> one_of m out resp" for c m now
    using event_one by (auto simp: NewKindDenylistMiddlewareBase_def kindDenylist_HandleClientMsg_def pass_on_def respond_def split: option.splits)
qed (use plain_methods in \<open>auto simp: NewKindDenylistMiddlewareBase_def\<close>)

interpretation restricted_writes: middleware "NewRestrictedWritesMiddlewareBase mode pks" "\<lambda>c. True"
proof unfold_locales
  show "True \<Longrightarrow> well_formed m \<Longrightarrow>
      \<exists>c' out resp. HandleClientMsg (NewRestrictedWritesMiddlewareBase mode pks) now m c = Inr (c', out, resp) \<and> ctx_le c c' \<and> one_of m out resp" for c m now
    using event_one
    by (cases mode; cases "CEvent m")
      (auto simp: NewRestrictedWritesMiddlewareBase_def restrictedWrites_HandleClientMsg_def pass_on_def respond_def)
qed (use plain_methods in \<open>auto simp: NewRestrictedWritesMiddlewareBase_def\<close>)

interpretation min_pow: middleware "NewMinPowDifficultyMiddlewareBase d cc" "\<lambda>c. True"
proof unfold_locales
  show "True \<Longrightarrow> well_formed m \<Longrightarrow>
      \<exists>c' out resp. HandleClientMsg (NewMinPowDifficultyMiddlewareBase d cc) now m c = Inr (c', out, resp) \<and> ctx_le c c' \<and> one_of m out resp" for c m now
    using event_one
    by (cases "CEvent m") (auto simp: NewMinPowDifficultyMiddlewareBase_def minPow_HandleClientMsg_def Let_def pass_on_def respond_def)
qed (use plain_methods in \<open>auto simp: NewMinPowDifficultyMiddlewareBase_def\<close>)

section \<open>All built-in bases\<close>

datatype builtin =
    AuthB "string option" authMiddleware | ProtectedEventsB
  | EventRateB rat int | ReqRateB rat int | CountRateB rat int | AuthRateB rat int
  | MaxSubsB nat | MaxLimitB int int | MaxSubidB int | MaxTagsB int | MaxContentB int
  | CreatedAtB int int | ExpirationB | KindAllowB "int list" | KindDenyB "int list"
  | RestrictedWritesB RestrictedWritesMode "string list" | MinPowB int bool

fun base_of :: "builtin \<Rightarrow> mw_base" where
  "base_of (AuthB rand m) = auth_base rand m"
| "base_of ProtectedEventsB = protected_base"
| "base_of (EventRateB r b) = eventRate_base r b"
| "base_of (ReqRateB r b) = reqRate_base r b"
| "base_of (CountRateB r b) = countRate_base r b"
| "base_of (AuthRateB r b) = authRate_base r b"
| "base_of (MaxSubsB n) = maxSubs_base n"
| "base_of (MaxLimitB n d) = maxLimit_base n d"
| "base_of (MaxSubidB n) = maxSubid_base n"
| "base_of (MaxTagsB n) = maxTags_base n"
| "base_of (MaxContentB n) = maxContent_base n"
| "base_of (CreatedAtB l u) = createdAt_base l u"
| "base_of ExpirationB = expiration_base"
| "base_of (KindAllowB ks) = NewKindAllowlistMiddlewareBase ks"
| "base_of (KindDenyB ks) = NewKindDenylistMiddlewareBase ks"
| "base_of (RestrictedWritesB mode pks) = NewRestrictedWritesMiddlewareBase mode pks"
| "base_of (MinPowB d cc) = NewMinPowDifficultyMiddlewareBase d cc"

lemmas builtin_contracts = auth.middleware_axioms protected.middleware_axioms event_rate.middleware_axioms
  req_rate.middleware_axioms count_rate.middleware_axioms auth_rate.middleware_axioms max_subs.middleware_axioms
  max_limit.middleware_axioms max_subid.middleware_axioms max_tags.middleware_axioms max_content.middleware_axioms
  created_at.middleware_axioms expiration.middleware_axioms kind_allowlist.middleware_axioms
  kind_denylist.middleware_axioms restricted_writes.middleware_axioms min_pow.middleware_axioms

lemma builtin_middleware: "\<exists>ready. middleware (base_of b) ready"
  by (cases b; simp only: base_of.simps; rule exI; rule builtin_contracts)

section \<open>Properties\<close>

text \<open>C25. Once all bases of a pipeline of built-in middlewares have started, whatever well-formed
  messages come from the client and whatever messages come from the handler, no base fails or
  panics, and the next request gets exactly one fate: it reaches the handler with its type, event
  and subscription unchanged and the pipeline answers nothing, or the client gets exactly one answer
  for it (for an EVENT an OK with \<open>accepted\<close> false, for a REQ, COUNT or CLOSE a CLOSED), which no
  outer base drops.\<close>

theorem pipeline_one_fate:
  assumes "start_all now delivered 0 (map base_of bases) [] c0 = (c, calls, greetings, True)"
    "\<forall>inp\<in>set inps. input_ok inp" "well_formed m"
  shows "\<exists>c1 downs clients c2 out rs. pipe_process (map base_of bases) inps c = Inr (c1, downs, clients)
    \<and> pipe_client (map base_of bases) t m c1 = Inr (c2, out, rs)
    \<and> ((\<exists>m'. out = Some m' \<and> rs = [] \<and> same_request m m') \<or> (\<exists>r. out = None \<and> rs = [r] \<and> refuses m r))"
proof -
  have "\<forall>b\<in>set (map base_of bases). \<exists>ready. middleware b ready" using builtin_middleware by auto
  then have r: "\<forall>b\<in>set (map base_of bases). mw_ready c b"
    using start_all_ready[OF assms(1)] by simp
  obtain c1 downs clients where p: "pipe_process (map base_of bases) inps c = Inr (c1, downs, clients)" "ctx_le c c1"
    using pipe_process_ready[OF r assms(2)] by blast
  with pipe_client_one[OF mw_ready_all_le[OF r p(2)] assms(3), of t] show ?thesis by blast
qed

text \<open>For limits of at most 9223372036 seconds, the creation-time base passes an EVENT on exactly if it
  was created between \<open>lowerLimit\<close> seconds before and \<open>upperLimit\<close> seconds after the clock's reading,
  both included.\<close>

theorem created_at_window:
  assumes "NewCreatedAtLimitsMiddlewareBase l u = Some base" "l \<le> 9223372036" "u \<le> 9223372036"
  shows "HandleClientMsg base now (client_event e) c = Inr (c, Some (client_event e), None)
    \<longleftrightarrow> now - l * nsPerSec \<le> CreatedAt e \<and> CreatedAt e \<le> now + u * nsPerSec"
proof -
  have lu: "0 \<le> l" "0 \<le> u" "base = createdAt_base l u"
    using assms(1) by (auto simp: NewCreatedAtLimitsMiddlewareBase_def split: if_splits)
  have w: "wrap64 (- l) = - l" "wrap64 (- l * nsPerSec) = - l * nsPerSec" "wrap64 (u * nsPerSec) = u * nsPerSec"
    using lu(1,2) assms(2,3) by (auto intro!: wrap64_id simp: int64_def)
  then have "seconds_duration (wrap64 (- l)) = - (l * nsPerSec)" "seconds_duration u = u * nsPerSec"
    by (simp_all add: seconds_duration_def)
  then show ?thesis by (simp add: lu(3) createdAt_base_def createdAt_HandleClientMsg_def client_event_def pass_on_def respond_def Let_def)
qed

text \<open>For larger limits the duration overflows: with the greatest \<open>int64\<close> as \<open>lowerLimit\<close>, meant as
  no limit, the base refuses every event created at the current time as too old.\<close>

theorem created_at_overflow:
  "\<exists>base. NewCreatedAtLimitsMiddlewareBase (2 ^ 63 - 1) 900 = Some base
    \<and> HandleClientMsg base now (client_event (e\<lparr>CreatedAt := now\<rparr>)) c
      = Inr (c, None, Some (NewServerOKMsg (ID e) False ''invalid: created_at too old''))"
  by (simp add: NewCreatedAtLimitsMiddlewareBase_def createdAt_base_def createdAt_HandleClientMsg_def client_event_def
      seconds_duration_def wrap64_def respond_def)

text \<open>An EVENT that passes the proof-of-work base with difficulty \<open>d\<close> and has a hexadecimal id of 64
  digits has an id that is, as a number, below \<open>2 ^ (256 - d)\<close>; and if the commitment is checked
  and its nonce tag commits to a non-negative target, the target is at least \<open>d\<close>.\<close>

theorem pow_forwarded_number:
  assumes "HandleClientMsg (NewMinPowDifficultyMiddlewareBase d cc) now (client_event e) c = Inr (c', Some m, resp)"
    "all_hex (ID e)" "length (ID e) = 64" "0 \<le> d" "d \<le> 256"
  shows "hex_number (ID e) < 2 ^ (256 - nat d) \<and> (cc \<longrightarrow> 0 \<le> getCommittedPowTarget e \<longrightarrow> d \<le> getCommittedPowTarget e)"
proof -
  have "d \<le> countLeadingZeroBits (ID e) \<and> (cc \<longrightarrow> 0 \<le> getCommittedPowTarget e \<longrightarrow> d \<le> getCommittedPowTarget e)"
    using assms(1) by (auto simp: NewMinPowDifficultyMiddlewareBase_def minPow_HandleClientMsg_def client_event_def pass_on_def
      respond_def Let_def split: if_splits)
  with difficulty_bounds_number[OF assms(2), of "nat d"] assms(3-5) show ?thesis by simp
qed

section \<open>Concrete instances\<close>

lemma pipeline_one_fate_witness:
  "\<exists>c calls c2 rs. start_all 0 (\<lambda>_. True) 0 (map base_of [MaxSubsB 1, KindAllowB [1]]) [] (new_ctx False) = (c, calls, [], True)
    \<and> pipe_client (map base_of [MaxSubsB 1, KindAllowB [1]]) 0 (client_event (mk_event ''i'' ''p'' 0 7 [])) c = Inr (c2, None, rs)
    \<and> length rs = 1"
proof -
  let ?bs = "[MaxSubsB 1, KindAllowB [1]]" and ?m = "client_event (mk_event ''i'' ''p'' 0 7 [])"
  obtain c calls where s: "start_all 0 (\<lambda>_. True) 0 (map base_of ?bs) [] (new_ctx False) = (c, calls, [], True)"
    by (simp add: maxSubs_base_def maxSubs_OnStart_def NewKindAllowlistMiddlewareBase_def start_same_def)
  have sub: "subsSt c = Some {}" using s by (auto simp: maxSubs_base_def maxSubs_OnStart_def NewKindAllowlistMiddlewareBase_def start_same_def)
  have wf: "well_formed ?m" by (simp add: well_formed_def client_event_def)
  obtain c2 out rs where h: "pipe_client (map base_of ?bs) 0 ?m c = Inr (c2, out, rs)"
    "(\<exists>m'. out = Some m' \<and> rs = [] \<and> same_request ?m m') \<or> (\<exists>r. out = None \<and> rs = [r] \<and> refuses ?m r)"
    using pipeline_one_fate[OF s _ wf, of "[]" 0] by auto
  have "out = None" using h(1) sub
    by (auto simp: pipe_client_def maxSubs_base_def maxSubs_HandleClientMsg_def maxSubs_HandleServerMsg_def client_event_def
      pass_on_def respond_def NewKindAllowlistMiddlewareBase_def kindAllowlist_HandleClientMsg_def msg_defs)
  with h s show ?thesis by auto
qed

lemma created_at_window_witness:
  "\<exists>base. NewCreatedAtLimitsMiddlewareBase 60 10 = Some base
    \<and> HandleClientMsg base (100 * nsPerSec) (client_event (mk_event ''i'' ''p'' 40 1 [])) (new_ctx False)
      = Inr (new_ctx False, Some (client_event (mk_event ''i'' ''p'' 40 1 [])), None)"
  using created_at_window[of 60 10 "createdAt_base 60 10" "100 * nsPerSec" "mk_event ''i'' ''p'' 40 1 []" "new_ctx False"]
  by (simp add: NewCreatedAtLimitsMiddlewareBase_def)

lemma pow_forwarded_number_witness:
  "hex_number (replicate 64 (CHR ''0'')) < 2 ^ (256 - 20)"
proof -
  let ?e = "mk_event (replicate 64 (CHR ''0'')) ''p'' 0 1 []"
  have z: "hexToNibble (CHR ''0'') = 0" by (simp add: hexToNibble_def)
  have c: "countLeadingZeroBits (replicate n (CHR ''0'')) = 4 * int n" for n
    by (induction n) (simp_all add: countLeadingZeroBits_simps z)
  have h: "HandleClientMsg (NewMinPowDifficultyMiddlewareBase 20 True) 0 (client_event ?e) (new_ctx False)
      = Inr (new_ctx False, Some (client_event ?e), None)"
    by (simp add: NewMinPowDifficultyMiddlewareBase_def minPow_HandleClientMsg_def client_event_def pass_on_def Let_def
        getCommittedPowTarget_def c)
  have "all_hex (ID ?e)" by (simp add: all_hex_def list_all_iff z)
  from pow_forwarded_number[OF h this] show ?thesis by simp
qed

end
