(* ===== verification/Queued_Handler.thy ===== *)
theory Queued_Handler
  imports Answering
begin

text \<open>
  The loop that \<^verbatim>\<open>simpleHandler.ServeNostr\<close> (\<^verbatim>\<open>handler.go\<close>) and \<^verbatim>\<open>storageHandler.ServeNostr\<close>
  share: a goroutine drains the receive channel into a queue of ten messages, and the main loop
  handles the queue. The goroutines are the steps of one relation, in any interleaving. What
  handling one message does is the argument \<open>handle\<close>, a function of an environment (when sends
  block, when contexts end), the state and the message; its flag says whether the loop goes on.
\<close>

section \<open>The drain and the main loop\<close>

definition msgQueueBuffer :: nat where
  "msgQueueBuffer = 10"

datatype loop_exit = RecvClosed | CtxDone | HandleFailed

record 's queue_loop =
  hstate :: 's
  received :: "ClientMsg list"
  held :: "ClientMsg option"
  drainEnded :: bool
  msgQueue :: "ClientMsg list"
  handled :: "ClientMsg list"
  sent :: "ServerMsg list"
  loopExit :: "loop_exit option"
  ctxDone :: bool

definition loop_start :: "'s \<Rightarrow> 's queue_loop" where
  "loop_start s = \<lparr>hstate = s, received = [], held = None, drainEnded = False, msgQueue = [], handled = [], sent = [], loopExit = None, ctxDone = False\<rparr>"

text \<open>
  \<open>drain_recv\<close>, \<open>drain_closed\<close>, \<open>drain_put\<close>: the goroutine holds at most one message, and waits
  while the queue is full. The queue is closed when the goroutine returns; the main loop sees that
  once the queue is empty. The context of the connection may end at any time; from then on
  either loop may see it at its next choice, in any order. The drain's context ends with it or when
  the main loop returns, and a drain that sees its end drops the message it holds (\<open>drain_dropped\<close>) -
  also while the main loop is still running.
\<close>

inductive loop_step :: "('e \<Rightarrow> 's \<Rightarrow> ClientMsg \<Rightarrow> 's \<times> ServerMsg list \<times> bool) \<Rightarrow> 's queue_loop \<Rightarrow> 's queue_loop \<Rightarrow> bool" for handle where
  drain_recv: "\<not> drainEnded l \<Longrightarrow> held l = None \<Longrightarrow> loop_step handle l (l\<lparr>held := Some m, received := received l @ [m]\<rparr>)"
| drain_closed: "\<not> drainEnded l \<Longrightarrow> held l = None \<Longrightarrow> loop_step handle l (l\<lparr>drainEnded := True\<rparr>)"
| drain_put: "\<not> drainEnded l \<Longrightarrow> held l = Some m \<Longrightarrow> length (msgQueue l) < msgQueueBuffer \<Longrightarrow>
    loop_step handle l (l\<lparr>held := None, msgQueue := msgQueue l @ [m]\<rparr>)"
| main_msg: "loopExit l = None \<Longrightarrow> msgQueue l = m # q \<Longrightarrow> handle e (hstate l) m = (s', out, goes) \<Longrightarrow>
    loop_step handle l (l\<lparr>hstate := s', msgQueue := q, handled := handled l @ [m], sent := sent l @ out,
      loopExit := if goes then None else Some HandleFailed\<rparr>)"
| main_closed: "loopExit l = None \<Longrightarrow> drainEnded l \<Longrightarrow> msgQueue l = [] \<Longrightarrow> loop_step handle l (l\<lparr>loopExit := Some RecvClosed\<rparr>)"
| main_done: "loopExit l = None \<Longrightarrow> ctxDone l \<Longrightarrow> loop_step handle l (l\<lparr>loopExit := Some CtxDone\<rparr>)"
| drain_dropped: "\<not> drainEnded l \<Longrightarrow> ctxDone l \<or> loopExit l \<noteq> None \<Longrightarrow> loop_step handle l (l\<lparr>drainEnded := True, held := None\<rparr>)"
| ctx_ends: "loop_step handle l (l\<lparr>ctxDone := True\<rparr>)"

inductive loop_run :: "('e \<Rightarrow> 's \<Rightarrow> ClientMsg \<Rightarrow> 's \<times> ServerMsg list \<times> bool) \<Rightarrow> 's queue_loop \<Rightarrow> 's queue_loop \<Rightarrow> bool" for handle where
  loop_refl: "loop_run handle l l"
| loop_more: "loop_run handle l l' \<Longrightarrow> loop_step handle l' l'' \<Longrightarrow> loop_run handle l l''"

text \<open>Handling a list of messages one after the other, each in its environment, up to a failure.\<close>

fun handle_all :: "('e \<Rightarrow> 's \<Rightarrow> ClientMsg \<Rightarrow> 's \<times> ServerMsg list \<times> bool) \<Rightarrow> ('e \<times> ClientMsg) list \<Rightarrow> 's \<Rightarrow> 's \<times> ServerMsg list \<times> bool" where
  "handle_all handle [] s = (s, [], True)"
| "handle_all handle ((e, m) # ems) s =
     (case handle e s m of (s', out, goes) \<Rightarrow>
        if goes then (case handle_all handle ems s' of (s'', outs, ok) \<Rightarrow> (s'', out @ outs, ok))
        else (s', out, False))"

lemma handle_all_append:
  "handle_all handle ems s = (s1, out1, True) \<Longrightarrow> handle_all handle ems' s1 = (s2, out2, ok) \<Longrightarrow>
    handle_all handle (ems @ ems') s = (s2, out1 @ out2, ok)"
  by (induction handle ems s arbitrary: s1 out1 rule: handle_all.induct) (auto split: prod.splits if_splits)

section \<open>The invariant of the loop\<close>

definition loop_ok :: "('e \<Rightarrow> 's \<Rightarrow> ClientMsg \<Rightarrow> 's \<times> ServerMsg list \<times> bool) \<Rightarrow> 's \<Rightarrow> 's queue_loop \<Rightarrow> bool" where
  "loop_ok handle s0 l \<longleftrightarrow>
     length (msgQueue l) \<le> msgQueueBuffer
     \<and> (\<exists>lost. received l = handled l @ msgQueue l @ (case held l of None \<Rightarrow> [] | Some m \<Rightarrow> [m]) @ lost
          \<and> length lost \<le> 1 \<and> (lost \<noteq> [] \<longrightarrow> drainEnded l \<and> (ctxDone l \<or> (loopExit l \<noteq> None \<and> loopExit l \<noteq> Some RecvClosed))))
     \<and> (loopExit l = Some RecvClosed \<longrightarrow> msgQueue l = [] \<and> drainEnded l)
     \<and> (drainEnded l \<longrightarrow> held l = None)
     \<and> (\<exists>es. length es = length (handled l)
          \<and> handle_all handle (zip es (handled l)) s0 = (hstate l, sent l, loopExit l \<noteq> Some HandleFailed))"

lemma loop_ok_start: "loop_ok handle s (loop_start s)"
  by (simp add: loop_ok_def loop_start_def)

text \<open>Handling one more message.\<close>

lemma handle_all_snoc:
  assumes "length es = length ms" "handle_all handle (zip es ms) s0 = (s, out, True)" "handle e s m = (s', out', goes)"
  shows "\<exists>es'. length es' = length (ms @ [m]) \<and> handle_all handle (zip es' (ms @ [m])) s0 = (s', out @ out', goes)"
proof -
  have "handle_all handle [(e, m)] s = (s', out', goes)" using assms(3) by simp
  from handle_all_append[OF assms(2) this] assms(1) show ?thesis by (intro exI[of _ "es @ [e]"]) simp
qed

lemma loop_ok_step:
  assumes "loop_step handle l l'" "loop_ok handle s0 l"
  shows "loop_ok handle s0 l'"
  using assms
proof cases
  case (main_msg m q e s' out goes)
  obtain es where es: "length es = length (handled l)" "handle_all handle (zip es (handled l)) s0 = (hstate l, sent l, True)"
    using assms(2) main_msg(2) by (auto simp: loop_ok_def)
  from handle_all_snoc[OF es main_msg(4)] assms(2) main_msg show ?thesis
    by (auto simp: loop_ok_def)
qed (auto simp: loop_ok_def msgQueueBuffer_def split: option.splits)

lemma loop_ok_run: "loop_run handle l l' \<Longrightarrow> loop_ok handle s0 l \<Longrightarrow> loop_ok handle s0 l'"
  by (induction rule: loop_run.induct) (auto intro: loop_ok_step)

section \<open>The simple handler\<close>

record 'c simple_base =
  shOnStart :: "'c \<Rightarrow> 'c \<times> ServerMsg option \<times> string option"
  shOnEnd :: "'c \<Rightarrow> 'c \<times> ServerMsg option \<times> string option"
  shHandleMsg :: "'c \<Rightarrow> ClientMsg \<Rightarrow> 'c \<times> (string + ServerMsg list)"

text \<open>
  One turn of the main loop of \<^verbatim>\<open>simpleHandler\<close>. The environment is the number of responses sent
  when the context ends, \<open>None\<close> if it does not end meanwhile.
\<close>

definition simple_handle :: "'c simple_base \<Rightarrow> nat option \<Rightarrow> 'c \<Rightarrow> ClientMsg \<Rightarrow> 'c \<times> ServerMsg list \<times> bool" where
  "simple_handle base e c msg =
     (case shHandleMsg base c msg of
        (c', Inl err) \<Rightarrow> (c', [], False)
      | (c', Inr resp) \<Rightarrow>
          (case e of None \<Rightarrow> (c', resp, True)
           | Some n \<Rightarrow> if n < length resp then (c', take n resp, False) else (c', resp, True)))"

text \<open>A whole connection: the messages handled, the messages sent, the final state, and whether
  \<open>OnEnd\<close> has run. The last message of \<open>OnEnd\<close> is sent if there is room (\<open>room\<close>).\<close>

definition farewell :: "bool \<Rightarrow> ServerMsg option \<Rightarrow> ServerMsg list" where
  "farewell room m = (if room then (case m of None \<Rightarrow> [] | Some x \<Rightarrow> [x]) else [])"

inductive simple_serve :: "'c simple_base \<Rightarrow> 'c \<Rightarrow> ClientMsg list \<Rightarrow> ServerMsg list \<Rightarrow> 'c \<Rightarrow> bool \<Rightarrow> bool" for base c where
  serve_refused: "shOnStart base c = (c', greeting, Some err) \<Longrightarrow> simple_serve base c [] [] c' False"
| serve_cancelled: "shOnStart base c = (c', Some g, None) \<Longrightarrow> shOnEnd base c' = (c'', m, err) \<Longrightarrow>
    simple_serve base c [] (farewell room m) c'' True"
| serve_loop: "shOnStart base c = (c', greeting, None) \<Longrightarrow> loop_run (simple_handle base) (loop_start c') l \<Longrightarrow>
    loopExit l \<noteq> None \<Longrightarrow> shOnEnd base (hstate l) = (c'', m, err) \<Longrightarrow>
    simple_serve base c (handled l)
      ((case greeting of None \<Rightarrow> [] | Some g \<Rightarrow> [g]) @ sent l @ farewell room m) c'' True"

section \<open>Properties\<close>

text \<open>C31. The receive queue reorders nothing and loses at most one message, whatever the interleaving of
  the two loops: what has been handled and what is queued (at most ten messages) are the first
  messages received, in order; at most one more has been received, which the drain holds or, when the
  context or the main loop has ended, has dropped; the messages sent are what handling the handled ones one after
  the other sends; and when the loop ends because the client has gone while the context lives, every received
  message has been handled. When the context has ended too, the last one may be missing.\<close>

theorem queue_loop_in_order:
  assumes "loop_run handle (loop_start s0) l"
  shows "length (msgQueue l) \<le> 10
    \<and> (\<exists>rest. received l = handled l @ msgQueue l @ rest \<and> length rest \<le> 1
         \<and> (rest = [] \<or> held l = Some (hd rest) \<or> ctxDone l \<or> loopExit l \<noteq> None))
    \<and> (\<exists>es. length es = length (handled l)
         \<and> handle_all handle (zip es (handled l)) s0 = (hstate l, sent l, loopExit l \<noteq> Some HandleFailed))
    \<and> (loopExit l = Some RecvClosed \<longrightarrow> (\<exists>lost. received l = handled l @ lost \<and> length lost \<le> 1 \<and> (lost = [] \<or> ctxDone l)))"
proof -
  have ok: "loop_ok handle s0 l" by (rule loop_ok_run[OF assms loop_ok_start])
  then obtain lost where lost: "received l = handled l @ msgQueue l @ (case held l of None \<Rightarrow> [] | Some m \<Rightarrow> [m]) @ lost"
      "length lost \<le> 1" "lost \<noteq> [] \<longrightarrow> drainEnded l \<and> (ctxDone l \<or> (loopExit l \<noteq> None \<and> loopExit l \<noteq> Some RecvClosed))"
    by (auto simp: loop_ok_def)
  have d: "drainEnded l \<longrightarrow> held l = None" "loopExit l = Some RecvClosed \<longrightarrow> msgQueue l = [] \<and> drainEnded l"
    using ok by (simp_all add: loop_ok_def)
  have "\<exists>rest. received l = handled l @ msgQueue l @ rest \<and> length rest \<le> 1
      \<and> (rest = [] \<or> held l = Some (hd rest) \<or> ctxDone l \<or> loopExit l \<noteq> None)"
  proof (cases "held l")
    case None
    with lost show ?thesis by (intro exI[of _ lost]) auto
  next
    case (Some m)
    with lost d have "lost = []" by auto
    with Some lost show ?thesis by (intro exI[of _ "[m]"]) simp
  qed
  moreover have "loopExit l = Some RecvClosed \<longrightarrow> (\<exists>lost. received l = handled l @ lost \<and> length lost \<le> 1 \<and> (lost = [] \<or> ctxDone l))"
    using lost d by auto
  ultimately show ?thesis using ok by (simp add: loop_ok_def msgQueueBuffer_def)
qed

text \<open>The message that is missing: the context ends, the drain drops what it holds and closes the queue,
  and the main loop sees the closed queue first and returns without an error.\<close>

lemma queue_loop_drops_held:
  "\<exists>l. loop_run handle (loop_start s0) l \<and> loopExit l = Some RecvClosed \<and> handled l = [] \<and> received l = [m]"
proof -
  let ?l0 = "loop_start s0"
  let ?l1 = "?l0\<lparr>held := Some m, received := [m]\<rparr>"
  let ?l2 = "?l1\<lparr>ctxDone := True\<rparr>"
  let ?l3 = "?l2\<lparr>drainEnded := True, held := None\<rparr>"
  let ?l4 = "?l3\<lparr>loopExit := Some RecvClosed\<rparr>"
  have 1: "loop_step handle ?l0 ?l1" using drain_recv[of ?l0 handle m] by (simp add: loop_start_def)
  have 2: "loop_step handle ?l1 ?l2" by (rule ctx_ends)
  have 3: "loop_step handle ?l2 ?l3" using drain_dropped[of ?l2 handle] by (simp add: loop_start_def)
  have 4: "loop_step handle ?l3 ?l4" using main_closed[of ?l3 handle] by (simp add: loop_start_def)
  have "loop_run handle ?l0 ?l4" by (intro loop_more[OF _ 4] loop_more[OF _ 3] loop_more[OF _ 2] loop_more[OF loop_refl 1])
  then show ?thesis by (intro exI[of _ ?l4]) (simp add: loop_start_def)
qed

lemma queue_loop_in_order_witness:
  "\<exists>l. loop_run (\<lambda>(e :: unit) (s :: unit) m. (s, nop_reply m, True)) (loop_start ()) l
     \<and> loopExit l = Some RecvClosed \<and> handled l = [client_req ''a'' []] \<and> length (msgQueue l) \<le> 10"
proof -
  let ?h = "\<lambda>(e :: unit) (s :: unit) m. (s, nop_reply m, True)" and ?m = "client_req ''a'' []" and ?l0 = "loop_start ()"
  let ?l1 = "?l0\<lparr>held := Some ?m, received := [?m]\<rparr>"
  let ?l2 = "?l1\<lparr>held := None, msgQueue := [?m]\<rparr>"
  let ?l3 = "?l2\<lparr>msgQueue := [], handled := [?m], sent := nop_reply ?m\<rparr>"
  let ?l4 = "?l3\<lparr>drainEnded := True\<rparr>"
  let ?l5 = "?l4\<lparr>loopExit := Some RecvClosed\<rparr>"
  have 1: "loop_step ?h ?l0 ?l1" using drain_recv[of ?l0 ?h ?m] by (simp add: loop_start_def)
  have 2: "loop_step ?h ?l1 ?l2" using drain_put[of ?l1 ?m ?h] by (simp add: loop_start_def msgQueueBuffer_def)
  have 3: "loop_step ?h ?l2 ?l3" using main_msg[of ?l2 ?m "[]" ?h "()" "()" "nop_reply ?m" True] by (simp add: loop_start_def)
  have 4: "loop_step ?h ?l3 ?l4" using drain_closed[of ?l3 ?h] by (simp add: loop_start_def)
  have 5: "loop_step ?h ?l4 ?l5" using main_closed[of ?l4 ?h] by (simp add: loop_start_def)
  have r: "loop_run ?h ?l0 ?l5"
    by (intro loop_more[OF _ 5] loop_more[OF _ 4] loop_more[OF _ 3] loop_more[OF _ 2] loop_more[OF loop_refl 1])
  from queue_loop_in_order[OF r] r show ?thesis by (intro exI[of _ ?l5]) (simp add: loop_start_def)
qed

end
