(* ===== verification/Storage_Handler.thy ===== *)
theory Storage_Handler
  imports Queued_Handler In_Memory_Properties
begin

text \<open>
  The storage handler (\<^verbatim>\<open>storage_handler.go\<close>). The storage it calls is the pair of arguments \<open>store\<close>
  and \<open>query\<close> with the signatures of the locale \<open>storage\<close>: \<open>query\<close> gives the events a complete
  iteration yields and the error its \<^verbatim>\<open>errFn\<close> reports. Clocks, cancellation and channels are the
  record \<open>req_env\<close>, one per request.
\<close>

section \<open>Options\<close>

record StorageHandlerOptions =
  SlowQueryThreshold :: int
  QueryTimeout :: int

record storageHandler =
  slowQueryThreshold :: int
  queryTimeout :: int

definition NewStorageHandler :: "StorageHandlerOptions option \<Rightarrow> storageHandler" where
  "NewStorageHandler opts =
     (case opts of None \<Rightarrow> \<lparr>slowQueryThreshold = nsPerSec, queryTimeout = 0\<rparr>
      | Some o' \<Rightarrow>
          \<lparr>slowQueryThreshold =
             (if SlowQueryThreshold o' < 0 then 0 else if SlowQueryThreshold o' > 0 then SlowQueryThreshold o' else nsPerSec),
           queryTimeout = (if QueryTimeout o' > 0 then QueryTimeout o' else 0)\<rparr>)"

definition queryTimeoutCLOSEDReason :: string where
  "queryTimeoutCLOSEDReason = ''error: query timeout''"

section \<open>The environment of a request\<close>

text \<open>
  \<open>expiredAt i\<close>: the query context has ended when the loop looks at it before event \<open>i\<close>.
  \<open>sending i\<close>: what the select of event \<open>i\<close> does: send, see the query context end with the connection alive
  (\<open>TimedOut\<close>), or see the end of the connection (\<open>ConnGone\<close>). \<open>expiredEnd\<close> and \<open>connAlive\<close>: the two
  contexts at the choice of the terminal message. \<open>partialErr\<close>: \<^verbatim>\<open>errFn\<close> after an iteration that was
  left early. \<open>finalSent\<close>: the terminal message goes out before the connection ends. \<open>total\<close> and
  \<open>sendWait\<close> are the measured durations.
\<close>

datatype send_outcome = Delivered | TimedOut | ConnGone

record req_env =
  expiredAt :: "nat \<Rightarrow> bool"
  sending :: "nat \<Rightarrow> send_outcome"
  expiredEnd :: bool
  connAlive :: bool
  partialErr :: "go_error option"
  finalSent :: bool
  total :: int
  sendWait :: int

text \<open>An ended context stays ended; without a timeout the query context is the connection's.\<close>

definition env_consistent :: "storageHandler \<Rightarrow> req_env \<Rightarrow> bool" where
  "env_consistent h env \<longleftrightarrow>
     ((\<exists>i. expiredAt env i \<or> sending env i \<noteq> Delivered) \<longrightarrow> expiredEnd env)
     \<and> ((\<exists>i. sending env i = ConnGone) \<longrightarrow> \<not> connAlive env)
     \<and> (queryTimeout h \<le> 0 \<and> expiredEnd env \<longrightarrow> \<not> connAlive env)"

section \<open>REQ\<close>

datatype req_exit = IterDone | IterAborted | ReqReturned

fun forward_events :: "req_env \<Rightarrow> string \<Rightarrow> nat \<Rightarrow> Event list \<Rightarrow> ServerMsg list \<times> req_exit" where
  "forward_events env subID i [] = ([], IterDone)"
| "forward_events env subID i (event # evs) =
     (if expiredAt env i then ([], IterAborted)
      else case sending env i of
        ConnGone \<Rightarrow> ([], ReqReturned)
      | TimedOut \<Rightarrow> ([], IterAborted)
      | Delivered \<Rightarrow>
          (case forward_events env subID (Suc i) evs of (out, ex) \<Rightarrow> (NewServerEventMsg subID event # out, ex)))"

record slow_log =
  logCount :: nat
  logScan :: int
  logSendWait :: int
  logCompleted :: bool

definition maybeLogSlowReq :: "storageHandler \<Rightarrow> req_env \<Rightarrow> nat \<Rightarrow> bool \<Rightarrow> slow_log option" where
  "maybeLogSlowReq h env eventsSent completed =
     (if slowQueryThreshold h \<le> 0 then None
      else if total env < slowQueryThreshold h then None
      else Some \<lparr>logCount = eventsSent, logScan = max (total env - sendWait env) 0, logSendWait = sendWait env, logCompleted = completed\<rparr>)"

definition sendServerMsg :: "req_env \<Rightarrow> ServerMsg \<Rightarrow> ServerMsg list \<times> bool" where
  "sendServerMsg env m = (if finalSent env then ([m], True) else ([], False))"

definition timed_out :: "req_env \<Rightarrow> go_error option \<Rightarrow> bool" where
  "timed_out env queryErr \<longleftrightarrow> (expiredEnd env \<and> connAlive env) \<or> queryErr = Some DeadlineExceeded"

text \<open>The messages sent, the absence of an error, and the log line.\<close>

definition handleReq ::
  "storageHandler \<Rightarrow> ('s \<Rightarrow> ReqFilter list \<Rightarrow> Event list \<times> go_error option) \<Rightarrow> req_env \<Rightarrow> 's \<Rightarrow> ClientMsg \<Rightarrow>
    ServerMsg list \<times> bool \<times> slow_log option" where
  "handleReq h query env s msg =
     (if CSubscriptionID msg = '''' then ([], True, None)
      else
        (case query s (CFilters msg) of (evs, err) \<Rightarrow>
        (case forward_events env (CSubscriptionID msg) 0 evs of (out, ex) \<Rightarrow>
          let n = length out in
          if ex = ReqReturned then (out, False, maybeLogSlowReq h env n False)
          else
            let queryErr = (if ex = IterDone then err else partialErr env) in
            if timed_out env queryErr then
              (case sendServerMsg env (NewServerClosedMsg (CSubscriptionID msg) queryTimeoutCLOSEDReason) of
                 (fin, ok) \<Rightarrow> (out @ fin, ok, maybeLogSlowReq h env n False))
            else
              (case sendServerMsg env (NewServerEOSEMsg (CSubscriptionID msg)) of
                 (fin, ok) \<Rightarrow> (out @ fin, ok, maybeLogSlowReq h env n ok)))))"

section \<open>COUNT\<close>

fun count_events :: "req_env \<Rightarrow> nat \<Rightarrow> 64 word \<Rightarrow> Event list \<Rightarrow> 64 word \<times> req_exit" where
  "count_events env i n [] = (n, IterDone)"
| "count_events env i n (event # evs) =
     (if expiredAt env i then (n, IterAborted) else count_events env (Suc i) (n + 1) evs)"

text \<open>The log line of a COUNT has the count and the total duration.\<close>

definition maybeLogSlowCount :: "storageHandler \<Rightarrow> req_env \<Rightarrow> 64 word \<Rightarrow> (64 word \<times> int) option" where
  "maybeLogSlowCount h env n =
     (if slowQueryThreshold h \<le> 0 then None
      else if total env < slowQueryThreshold h then None
      else Some (n, total env))"

definition handleCount ::
  "storageHandler \<Rightarrow> ('s \<Rightarrow> ReqFilter list \<Rightarrow> Event list \<times> go_error option) \<Rightarrow> req_env \<Rightarrow> 's \<Rightarrow> ClientMsg \<Rightarrow>
    ServerMsg list \<times> bool \<times> (64 word \<times> int) option" where
  "handleCount h query env s msg =
     (if CSubscriptionID msg = '''' then ([], True, None)
      else
        (case query s (CFilters msg) of (evs, err) \<Rightarrow>
        (case count_events env 0 0 evs of (n, ex) \<Rightarrow>
          let queryErr = (if ex = IterDone then err else partialErr env);
              reply = (if timed_out env queryErr then NewServerClosedMsg (CSubscriptionID msg) queryTimeoutCLOSEDReason
                       else if queryErr \<noteq> None then NewServerCountMsg (CSubscriptionID msg) 0 None
                       else NewServerCountMsg (CSubscriptionID msg) n None)
          in (case sendServerMsg env reply of (fin, ok) \<Rightarrow> (fin, ok, maybeLogSlowCount h env n)))))"

section \<open>EVENT and the dispatch\<close>

definition event_answer :: "string \<Rightarrow> go_error + bool \<Rightarrow> ServerMsg" where
  "event_answer eventID result =
     (case result of Inl err \<Rightarrow> NewServerOKMsg eventID False ''error: internal error''
      | Inr stored \<Rightarrow> if stored then NewServerOKMsg eventID True ''''
                    else NewServerOKMsg eventID True ''duplicate: already have this event'')"

definition handleEvent ::
  "('s \<Rightarrow> Event option \<Rightarrow> 's \<times> (go_error + bool)) \<Rightarrow> req_env \<Rightarrow> 's \<Rightarrow> ClientMsg \<Rightarrow> 's \<times> ServerMsg list \<times> bool" where
  "handleEvent store env s msg =
     (case CEvent msg of
        None \<Rightarrow> (s, sendServerMsg env (NewServerOKMsg '''' False ''error: no event provided''))
      | Some event \<Rightarrow> (case store s (Some event) of (s', result) \<Rightarrow> (s', sendServerMsg env (event_answer (ID event) result))))"

text \<open>The switch of the main loop of \<^verbatim>\<open>ServeNostr\<close>.\<close>

definition storage_handle ::
  "storageHandler \<Rightarrow> ('s \<Rightarrow> Event option \<Rightarrow> 's \<times> (go_error + bool)) \<Rightarrow> ('s \<Rightarrow> ReqFilter list \<Rightarrow> Event list \<times> go_error option) \<Rightarrow>
    req_env \<Rightarrow> 's \<Rightarrow> ClientMsg \<Rightarrow> 's \<times> ServerMsg list \<times> bool" where
  "storage_handle h store query env s msg =
     (if CType msg = MsgTypeEvent then handleEvent store env s msg
      else if CType msg = MsgTypeReq then (case handleReq h query env s msg of (out, ok, lg) \<Rightarrow> (s, out, ok))
      else if CType msg = MsgTypeCount then (case handleCount h query env s msg of (out, ok, lg) \<Rightarrow> (s, out, ok))
      else (s, [], True))"

text \<open>The main loop over the messages of the queue, up to the first error, each with its environment.\<close>

fun serve_messages ::
  "storageHandler \<Rightarrow> ('s \<Rightarrow> Event option \<Rightarrow> 's \<times> (go_error + bool)) \<Rightarrow> ('s \<Rightarrow> ReqFilter list \<Rightarrow> Event list \<times> go_error option) \<Rightarrow>
    (req_env \<times> ClientMsg) list \<Rightarrow> 's \<Rightarrow> 's \<times> ServerMsg list" where
  "serve_messages h store query [] s = (s, [])"
| "serve_messages h store query ((env, msg) # msgs) s =
     (case storage_handle h store query env s msg of
        (s', out, False) \<Rightarrow> (s', out)
      | (s', out, True) \<Rightarrow> (case serve_messages h store query msgs s' of (s'', out') \<Rightarrow> (s'', out @ out')))"

section \<open>Undisturbed requests\<close>

text \<open>Nothing times out and the client reads.\<close>

definition quiet :: req_env where
  "quiet = \<lparr>expiredAt = (\<lambda>_. False), sending = (\<lambda>_. Delivered), expiredEnd = False, connAlive = True, partialErr = None,
     finalSent = True, total = 0, sendWait = 0\<rparr>"

lemma forward_quiet [simp]: "forward_events quiet subID i evs = (map (NewServerEventMsg subID) evs, IterDone)"
  by (induction evs arbitrary: i) (auto simp: quiet_def)

lemma count_quiet [simp]: "count_events quiet i n evs = (n + of_nat (length evs), IterDone)"
  by (induction evs arbitrary: i n) (auto simp: quiet_def)

lemma sendServerMsg_quiet [simp]: "sendServerMsg quiet m = ([m], True)"
  by (simp add: sendServerMsg_def quiet_def)

lemma timed_out_quiet [simp]: "timed_out quiet err \<longleftrightarrow> err = Some DeadlineExceeded"
  by (simp add: timed_out_def quiet_def)

definition storage_serve ::
  "storageHandler \<Rightarrow> ('s \<Rightarrow> Event option \<Rightarrow> 's \<times> (go_error + bool)) \<Rightarrow> ('s \<Rightarrow> ReqFilter list \<Rightarrow> Event list \<times> go_error option) \<Rightarrow>
    's \<Rightarrow> ClientMsg \<Rightarrow> 's \<times> ServerMsg list" where
  "storage_serve h store query s msg = (case storage_handle h store query quiet s msg of (s', out, ok) \<Rightarrow> (s', out))"

lemma handleReq_quiet:
  "CSubscriptionID msg \<noteq> '''' \<Longrightarrow> query s (CFilters msg) = (evs, err) \<Longrightarrow>
    \<exists>lg. handleReq h query quiet s msg =
      (map (NewServerEventMsg (CSubscriptionID msg)) evs @
        [if err = Some DeadlineExceeded then NewServerClosedMsg (CSubscriptionID msg) queryTimeoutCLOSEDReason
         else NewServerEOSEMsg (CSubscriptionID msg)], True, lg)"
  by (simp add: handleReq_def Let_def)

lemma handleCount_quiet:
  "CSubscriptionID msg \<noteq> '''' \<Longrightarrow> query s (CFilters msg) = (evs, err) \<Longrightarrow>
    \<exists>lg. handleCount h query quiet s msg =
      ([if err = Some DeadlineExceeded then NewServerClosedMsg (CSubscriptionID msg) queryTimeoutCLOSEDReason
        else if err \<noteq> None then NewServerCountMsg (CSubscriptionID msg) 0 None
        else NewServerCountMsg (CSubscriptionID msg) (of_nat (length evs)) None], True, lg)"
  by (simp add: handleCount_def Let_def)

text \<open>Over any storage that keeps an invariant the handler answers as the merge handler expects.\<close>

lemma event_answer_fields [simp]:
  "SType (event_answer i r) = MsgTypeOK" "SEventID (event_answer i r) = i"
  by (auto simp: event_answer_def msg_defs split: sum.splits)

lemma storage_serve_event:
  "CType msg = MsgTypeEvent \<Longrightarrow> CEvent msg = Some e \<Longrightarrow>
    storage_serve h store query s msg = (fst (store s (Some e)), [event_answer (ID e) (snd (store s (Some e)))])"
  by (simp add: storage_serve_def storage_handle_def handleEvent_def split_beta)

lemma storage_answering:
  assumes "\<And>s ep. invar s \<Longrightarrow> invar (fst (store s ep))"
  shows "answering (storage_serve h store query) invar"
proof unfold_locales
  fix s c assume "invar s"
  then show "invar (fst (storage_serve h store query s c))"
    using assms by (auto simp: storage_serve_def storage_handle_def handleEvent_def split_beta split: option.splits)
next
  fix s c assume "expects_answer c"
  then consider (event) e where "CType c = MsgTypeEvent" "CEvent c = Some e"
    | (req) "CType c = MsgTypeReq" "CSubscriptionID c \<noteq> ''''" | (cnt) "CType c = MsgTypeCount" "CSubscriptionID c \<noteq> ''''"
    by (auto simp: expects_answer_def)
  then show "\<exists>evs m. snd (storage_serve h store query s c) = evs @ [m] \<and> terminal_answer c m \<and> (\<forall>x\<in>set evs. stored_event_of c x)"
  proof cases
    case event
    then show ?thesis by (simp add: storage_serve_event terminal_answer_def)
  next
    case req
    obtain evs err where q: "query s (CFilters c) = (evs, err)" by force
    obtain lg where "handleReq h query quiet s c = (map (NewServerEventMsg (CSubscriptionID c)) evs @
        [if err = Some DeadlineExceeded then NewServerClosedMsg (CSubscriptionID c) queryTimeoutCLOSEDReason
         else NewServerEOSEMsg (CSubscriptionID c)], True, lg)"
      using handleReq_quiet[of c query s evs err h] req(2) q by blast
    then show ?thesis using req
      by (auto simp: storage_serve_def storage_handle_def terminal_answer_def stored_event_of_def msg_defs)
  next
    case cnt
    obtain evs err where q: "query s (CFilters c) = (evs, err)" by force
    obtain lg where "handleCount h query quiet s c =
      ([if err = Some DeadlineExceeded then NewServerClosedMsg (CSubscriptionID c) queryTimeoutCLOSEDReason
        else if err \<noteq> None then NewServerCountMsg (CSubscriptionID c) 0 None
        else NewServerCountMsg (CSubscriptionID c) (of_nat (length evs)) None], True, lg)"
      using handleCount_quiet[of c query s evs err h] cnt(2) q by blast
    then show ?thesis using cnt by (auto simp: storage_serve_def storage_handle_def terminal_answer_def msg_defs)
  qed
qed (auto simp: storage_serve_def storage_handle_def)

interpretation memory_handler: answering "storage_serve h Store Query" storage_ok for h
  by (rule storage_answering) (rule mem.store_invar)

section \<open>Requests in any environment\<close>

lemma forward_events_prefix:
  "forward_events env subID i evs = (out, ex) \<Longrightarrow>
    \<exists>n\<le>length evs. out = map (NewServerEventMsg subID) (take n evs) \<and> (ex = IterDone \<longleftrightarrow> n = length evs)
      \<and> (ex = IterAborted \<longrightarrow> (\<exists>j. expiredAt env j \<or> sending env j = TimedOut))
      \<and> (ex = ReqReturned \<longrightarrow> (\<exists>j. sending env j = ConnGone))"
proof (induction evs arbitrary: i out)
  case (Cons e evs)
  show ?case
  proof (cases "\<not> expiredAt env i \<and> sending env i = Delivered")
    case False
    with Cons.prems show ?thesis by (intro exI[of _ 0]) (auto split: if_splits send_outcome.splits)
  next
    case True
    then obtain out' where o: "forward_events env subID (Suc i) evs = (out', ex)" "out = NewServerEventMsg subID e # out'"
      using Cons.prems by (auto split: prod.splits)
    obtain n where "n \<le> length evs" "out' = map (NewServerEventMsg subID) (take n evs)" "ex = IterDone \<longleftrightarrow> n = length evs"
      "ex = IterAborted \<longrightarrow> (\<exists>j. expiredAt env j \<or> sending env j = TimedOut)"
      "ex = ReqReturned \<longrightarrow> (\<exists>j. sending env j = ConnGone)"
      using Cons.IH[OF o(1)] by blast
    with o(2) show ?thesis by (intro exI[of _ "Suc n"]) auto
  qed
qed simp

text \<open>Where the loop stops: every event before has been sent, and this one is not.\<close>

lemma forward_events_stops:
  "forward_events env subID i evs = (out, ex) \<Longrightarrow>
    (\<forall>j<length out. \<not> expiredAt env (i + j) \<and> sending env (i + j) = Delivered)
    \<and> (ex \<noteq> IterDone \<longrightarrow> expiredAt env (i + length out) \<or> sending env (i + length out) \<noteq> Delivered)"
proof (induction evs arbitrary: i out)
  case (Cons e evs)
  show ?case
  proof (cases "\<not> expiredAt env i \<and> sending env i = Delivered")
    case False
    with Cons.prems show ?thesis by (auto split: if_splits send_outcome.splits)
  next
    case True
    then obtain out' where o: "forward_events env subID (Suc i) evs = (out', ex)" "out = NewServerEventMsg subID e # out'"
      using Cons.prems by (auto split: prod.splits)
    with Cons.IH[OF o(1)] True show ?thesis by (auto simp: less_Suc_eq_0_disj)
  qed
qed simp

text \<open>What a conversation leaves in the storage is what storing its events one after the other leaves.\<close>

definition submitted :: "ClientMsg list \<Rightarrow> Event list" where
  "submitted msgs = concat (map (\<lambda>m. if CType m = MsgTypeEvent then (case CEvent m of None \<Rightarrow> [] | Some e \<Rightarrow> [e]) else []) msgs)"

lemma storage_serve_state:
  "fst (storage_serve h Store Query s m) = Store_all s (submitted [m])"
  by (auto simp: storage_serve_def storage_handle_def handleEvent_def submitted_def Store_def split_beta split: option.splits)

lemma Store_all_append: "Store_all s (es @ es') = Store_all (Store_all s es) es'"
  by (simp add: Store_all_def)

lemma serve_all_events:
  "serve_all (storage_serve h Store Query) s0 msgs = (s, out) \<Longrightarrow> s = Store_all s0 (submitted msgs)"
proof (induction msgs arbitrary: s0 out)
  case Nil
  then show ?case by (simp add: submitted_def)
next
  case (Cons m msgs)
  obtain out' where "serve_all (storage_serve h Store Query) (fst (storage_serve h Store Query s0 m)) msgs = (s, out')"
    using Cons.prems by (auto simp: split_beta prod_eq_iff)
  from Cons.IH[OF this] show ?case unfolding storage_serve_state
    by (simp add: submitted_def Store_all_append[symmetric])
qed

text \<open>Whatever the environment, the memory keeps only submitted events and the answers are of these kinds.\<close>

definition answer_to :: "Event set \<Rightarrow> ClientMsg \<Rightarrow> ServerMsg \<Rightarrow> bool" where
  "answer_to E msg r \<longleftrightarrow>
     (\<exists>e. CType msg = MsgTypeEvent \<and> CEvent msg = Some e \<and> (\<exists>res. r = event_answer (ID e) res))
     \<or> (CType msg = MsgTypeEvent \<and> CEvent msg = None)
     \<or> (CType msg = MsgTypeReq \<or> CType msg = MsgTypeCount) \<and> CSubscriptionID msg \<noteq> '''' \<and>
         ((\<exists>e\<in>E. r = NewServerEventMsg (CSubscriptionID msg) e) \<or> r = NewServerEOSEMsg (CSubscriptionID msg)
          \<or> r = NewServerClosedMsg (CSubscriptionID msg) queryTimeoutCLOSEDReason
          \<or> (\<exists>n. r = NewServerCountMsg (CSubscriptionID msg) n None))"

lemma sendServerMsg_sends: "r \<in> set (fst (sendServerMsg env m)) \<Longrightarrow> r = m"
  by (simp add: sendServerMsg_def split: if_split_asm)

lemma handleReq_answers:
  assumes "handleReq h query env s msg = (out, ok, lg)" "CType msg = MsgTypeReq" "r \<in> set out"
  shows "answer_to (set (fst (query s (CFilters msg)))) msg r"
proof -
  have sub: "CSubscriptionID msg \<noteq> ''''" using assms(1,3) by (auto simp: handleReq_def)
  obtain evs err where q: "query s (CFilters msg) = (evs, err)" by force
  obtain evout ex where f: "forward_events env (CSubscriptionID msg) 0 evs = (evout, ex)" by force
  from forward_events_prefix[OF f] obtain n where n: "evout = map (NewServerEventMsg (CSubscriptionID msg)) (take n evs)" by blast
  have "r \<in> set evout \<or> r \<in> set (fst (sendServerMsg env (NewServerClosedMsg (CSubscriptionID msg) queryTimeoutCLOSEDReason)))
      \<or> r \<in> set (fst (sendServerMsg env (NewServerEOSEMsg (CSubscriptionID msg))))"
    using assms(1,3) sub by (auto simp: handleReq_def q f Let_def split_beta split: if_split_asm)
  then show ?thesis
    using sendServerMsg_sends assms(2) sub n q by (auto simp: answer_to_def dest: in_set_takeD)
qed

lemma handleCount_answers:
  assumes "handleCount h query env s msg = (out, ok, lg)" "CType msg = MsgTypeCount" "r \<in> set out"
  shows "answer_to E msg r"
proof -
  have sub: "CSubscriptionID msg \<noteq> ''''" using assms(1,3) by (auto simp: handleCount_def)
  have "\<exists>m. r \<in> set (fst (sendServerMsg env m)) \<and> (m = NewServerClosedMsg (CSubscriptionID msg) queryTimeoutCLOSEDReason
      \<or> (\<exists>n. m = NewServerCountMsg (CSubscriptionID msg) n None))"
    using assms(1,3) sub by (auto simp: handleCount_def Let_def split_beta split: if_split_asm)
  then have "r = NewServerClosedMsg (CSubscriptionID msg) queryTimeoutCLOSEDReason \<or> (\<exists>n. r = NewServerCountMsg (CSubscriptionID msg) n None)"
    using sendServerMsg_sends by blast
  then show ?thesis using assms(2) sub by (auto simp: answer_to_def)
qed

lemma handleEvent_answers:
  assumes "handleEvent store env s msg = (s', out, ok)" "CType msg = MsgTypeEvent" "r \<in> set out"
  shows "answer_to E msg r"
proof (cases "CEvent msg")
  case None
  with assms(2) show ?thesis by (simp add: answer_to_def)
next
  case (Some e)
  with assms(1) have "fst (sendServerMsg env (event_answer (ID e) (snd (store s (Some e))))) = out"
    by (simp add: handleEvent_def split_beta)
  then have "r = event_answer (ID e) (snd (store s (Some e)))" using assms(3) sendServerMsg_sends by blast
  with Some assms(2) show ?thesis by (auto simp: answer_to_def)
qed

lemma memory_handles:
  assumes "storage_handle h Store Query env s msg = (s', out, ok)" "storage_ok s"
  shows "storage_ok s' \<and> set (events s') \<subseteq> set (events s) \<union> {e. CType msg = MsgTypeEvent \<and> CEvent msg = Some e}
    \<and> (\<forall>r\<in>set out. answer_to (set (events s)) msg r)"
proof (cases "CType msg = MsgTypeEvent")
  case True
  then have h: "handleEvent Store env s msg = (s', out, ok)" using assms(1) by (simp add: storage_handle_def)
  have "storage_ok s' \<and> set (events s') \<subseteq> set (events s) \<union> {e. CEvent msg = Some e}"
  proof (cases "CEvent msg")
    case None
    with h assms(2) show ?thesis by (auto simp: handleEvent_def)
  next
    case (Some e)
    with h have "s' = fst (Store s (Some e))" by (simp add: handleEvent_def split_beta)
    with Some mem.store_invar[OF assms(2), of "Some e"] mem.store_contents[OF assms(2), of e] show ?thesis by auto
  qed
  with True handleEvent_answers[OF h True] show ?thesis by auto
next
  case False
  then have s: "s' = s" using assms(1) by (auto simp: storage_handle_def split_beta split: if_split_asm)
  have "set (fst (Query s (CFilters msg))) \<subseteq> set (events s)"
    using mem.query_sound[OF assms(2)] by (fastforce simp: Query_def)
  then have mono: "answer_to (set (fst (Query s (CFilters msg)))) msg r \<Longrightarrow> answer_to (set (events s)) msg r" for r
    by (auto simp: answer_to_def)
  have "answer_to (set (events s)) msg r" if "r \<in> set out" for r
  proof -
    consider "CType msg = MsgTypeReq" | "CType msg = MsgTypeCount" | "out = []"
      using assms(1) False by (auto simp: storage_handle_def split: if_split_asm)
    then show ?thesis
    proof cases
      case 1
      then obtain lg where "handleReq h Query env s msg = (out, ok, lg)"
        using assms(1) by (auto simp: storage_handle_def split_beta prod_eq_iff)
      from mono[OF handleReq_answers[OF this 1 that]] show ?thesis .
    next
      case 2
      then obtain lg where "handleCount h Query env s msg = (out, ok, lg)"
        using assms(1) by (auto simp: storage_handle_def split_beta prod_eq_iff)
      from handleCount_answers[OF this 2 that] show ?thesis .
    qed (use that in simp)
  qed
  with s assms(2) show ?thesis by auto
qed

section \<open>Properties\<close>

text \<open>C32. How a REQ on a live connection ends. The events sent are the first \<open>n\<close> the query yielded, in
  order, where \<open>n\<close> is the first event at which the timeout is seen - before the event or while
  its send blocks - or their number; the terminal message, if the connection takes it, is CLOSED with the timeout
  reason exactly if the query context has ended by then or the storage reports an exceeded
  deadline after a full iteration, and EOSE otherwise; so EOSE comes only after all events the query yielded.
  Without a timeout in the options the query context does not end. (An error of the storage other
  than the deadline is logged only: EOSE follows what the query yielded before it.)\<close>

theorem req_eose_only_complete:
  assumes "env_consistent h env" "connAlive env" "CSubscriptionID msg \<noteq> ''''" "query s (CFilters msg) = (evs, err)"
    "handleReq h query env s msg = (out, ok, lg)"
  shows "\<exists>n\<le>length evs.
      out = map (NewServerEventMsg (CSubscriptionID msg)) (take n evs) @
        (if \<not> finalSent env then []
         else if expiredEnd env \<or> (n = length evs \<and> err = Some DeadlineExceeded)
         then [NewServerClosedMsg (CSubscriptionID msg) ''error: query timeout''] else [NewServerEOSEMsg (CSubscriptionID msg)])
      \<and> (ok \<longleftrightarrow> finalSent env)
      \<and> (\<forall>j<n. \<not> expiredAt env j \<and> sending env j = Delivered)
      \<and> (n < length evs \<longrightarrow> expiredEnd env \<and> (expiredAt env n \<or> sending env n = TimedOut))
      \<and> (expiredEnd env \<longrightarrow> 0 < queryTimeout h)"
proof -
  obtain evout ex where f: "forward_events env (CSubscriptionID msg) 0 evs = (evout, ex)" by force
  obtain n where n: "n \<le> length evs" "evout = map (NewServerEventMsg (CSubscriptionID msg)) (take n evs)"
    "ex = IterDone \<longleftrightarrow> n = length evs" "ex = IterAborted \<longrightarrow> (\<exists>j. expiredAt env j \<or> sending env j = TimedOut)"
    "ex = ReqReturned \<longrightarrow> (\<exists>j. sending env j = ConnGone)"
    using forward_events_prefix[OF f] by blast
  from n(1,2) have len: "length evout = n" by simp
  have alive: "sending env j \<noteq> ConnGone" for j using assms(1,2) by (auto simp: env_consistent_def)
  have stops: "\<forall>j<n. \<not> expiredAt env j \<and> sending env j = Delivered"
      "ex \<noteq> IterDone \<longrightarrow> expiredAt env n \<or> sending env n = TimedOut"
    using forward_events_stops[OF f] alive[of n] send_outcome.exhaust[of "sending env n"] by (auto simp: len)
  have ex: "ex \<noteq> ReqReturned" using n(5) alive by blast
  have cut: "expiredEnd env" if "ex = IterAborted" using n(4) that assms(1) by (fastforce simp: env_consistent_def)
  have to: "0 < queryTimeout h" if "expiredEnd env" using that assms(1,2) by (fastforce simp: env_consistent_def)
  have "out = evout @ (if \<not> finalSent env then [] else if expiredEnd env \<or> (ex = IterDone \<and> err = Some DeadlineExceeded)
      then [NewServerClosedMsg (CSubscriptionID msg) queryTimeoutCLOSEDReason] else [NewServerEOSEMsg (CSubscriptionID msg)]) \<and> ok = finalSent env"
    using assms(5)[unfolded handleReq_def assms(4) sendServerMsg_def] f ex cut assms(2,3)
    by (cases ex) (auto simp: timed_out_def Let_def split: if_split_asm)
  then show ?thesis using n(1,2,3) stops ex cut to
    by (intro exI[of _ n]) (cases ex; auto simp: queryTimeoutCLOSEDReason_def)
qed

text \<open>C33. After any conversation with the storage handler over the in-memory storage, a REQ is answered
  by exactly the events that match among those the storage holds after the conversation's EVENT messages have been
  stored in order - newest first, ties by identifier, cut at the first filter's limit - and then
  EOSE. (What the storage holds after a sequence of stores is what the claims on it describe.)\<close>

theorem memory_req_answer:
  assumes "serve_all (storage_serve h Store Query) NewInMemoryStorage msgs = (s, out)" "subID \<noteq> ''''"
  shows "storage_serve h Store Query s (client_req subID fs) =
    (s, map (NewServerEventMsg subID)
          (limited (limit_of fs) (sort_key event_key (filter (matchesAny fs) (events (Store_all NewInMemoryStorage (submitted msgs))))))
        @ [NewServerEOSEMsg subID])"
proof -
  have s: "s = Store_all NewInMemoryStorage (submitted msgs)" by (rule serve_all_events[OF assms(1)])
  have "Query_events s fs = limited (limit_of fs) (sort_key event_key (filter (matchesAny fs) (events s)))"
    unfolding s Store_all_def by (rule Query_events_eq[OF mem.store_all_invar[OF storage_ok_new]])
  moreover have q: "Query s fs = (Query_events s fs, None)" by (simp add: Query_def)
  obtain lg where "handleReq h Query quiet s (client_req subID fs)
      = (map (NewServerEventMsg subID) (Query_events s fs) @ [NewServerEOSEMsg subID], True, lg)"
    using handleReq_quiet[of "client_req subID fs" Query s "Query_events s fs" None h] assms(2) q by (auto simp: client_req_def)
  ultimately show ?thesis by (simp add: storage_serve_def storage_handle_def client_req_def flip: s)
qed

text \<open>The storage handler over the in-memory storage answers every well-formed request of a
  conversation with exactly one terminal message: what the merge handler counts on.\<close>

theorem memory_one_terminal_per_request:
  assumes "\<forall>c\<in>set cs. expects_answer c \<or> CType c = MsgTypeClose"
  shows "length (filter is_terminal (snd (serve_all (storage_serve h Store Query) NewInMemoryStorage cs)))
    = length (filter expects_answer cs)"
  by (rule memory_handler.one_terminal_per_request[OF storage_ok_new assms])

text \<open>COUNT and REQ agree: with the same filters and nothing timing out, the count is the number of
  events the REQ sends (modulo \<open>2 ^ 64\<close>), the first filter's limit included.\<close>

theorem count_agrees_with_req:
  assumes "subID \<noteq> ''''" "snd (query s fs) = None"
  shows "snd (storage_serve h store query s (client_count subID fs))
    = [NewServerCountMsg subID (of_nat (length (filter (\<lambda>m. SType m = MsgTypeEvent) (snd (storage_serve h store query s (client_req subID fs)))))) None]"
proof -
  obtain evs where q: "query s fs = (evs, None)" using assms(2) by (metis prod.collapse)
  obtain lg lg' where "handleReq h query quiet s (client_req subID fs) = (map (NewServerEventMsg subID) evs @ [NewServerEOSEMsg subID], True, lg)"
    "handleCount h query quiet s (client_count subID fs) = ([NewServerCountMsg subID (of_nat (length evs)) None], True, lg')"
    using handleReq_quiet[of "client_req subID fs" query s evs None h] handleCount_quiet[of "client_count subID fs" query s evs None h] q assms(1)
    by (auto simp: client_req_def client_count_def)
  moreover have "filter (\<lambda>m. SType m = MsgTypeEvent) (map (NewServerEventMsg subID) evs) = map (NewServerEventMsg subID) evs"
    by (induction evs) (simp_all add: msg_defs)
  moreover have "SType (NewServerEOSEMsg subID) \<noteq> MsgTypeEvent" by (simp add: msg_defs)
  ultimately show ?thesis by (simp add: storage_serve_def storage_handle_def client_req_def client_count_def)
qed

section \<open>Concrete instances\<close>

definition sample_query :: "unit \<Rightarrow> ReqFilter list \<Rightarrow> Event list \<times> go_error option" where
  "sample_query s fs = ([mk_event ''i'' ''p'' 2 1 [], mk_event ''j'' ''p'' 1 1 []], None)"

text \<open>A client that stalls after the first event, and a timeout of one second.\<close>

definition stalled :: req_env where
  "stalled = quiet\<lparr>sending := (\<lambda>i. if i = 0 then Delivered else TimedOut), expiredEnd := True, total := 1, sendWait := 1\<rparr>"

definition impatient :: storageHandler where
  "impatient = NewStorageHandler (Some \<lparr>SlowQueryThreshold = 0, QueryTimeout = nsPerSec\<rparr>)"

lemma req_eose_only_complete_witness:
  "\<exists>ok lg. handleReq impatient sample_query stalled () (client_req ''a'' []) =
    ([NewServerEventMsg ''a'' (mk_event ''i'' ''p'' 2 1 []), NewServerClosedMsg ''a'' ''error: query timeout''], ok, lg)"
proof -
  have c: "env_consistent impatient stalled" "connAlive stalled"
    by (simp_all add: env_consistent_def impatient_def NewStorageHandler_def stalled_def quiet_def)
  have i: "CSubscriptionID (client_req ''a'' []) \<noteq> ''''" "CSubscriptionID (client_req ''a'' []) = ''a''"
    by (simp_all add: client_req_def)
  have q: "sample_query () (CFilters (client_req ''a'' [])) = ([mk_event ''i'' ''p'' 2 1 [], mk_event ''j'' ''p'' 1 1 []], None)"
    by (simp add: sample_query_def)
  have env: "expiredEnd stalled" "finalSent stalled" "sending stalled 0 = Delivered" "sending stalled 1 = TimedOut" "\<not> expiredAt stalled 1"
    "\<not> expiredAt stalled 0" by (simp_all add: stalled_def quiet_def)
  obtain out ok lg where h: "handleReq impatient sample_query stalled () (client_req ''a'' []) = (out, ok, lg)" by (metis prod_cases3)
  obtain n where n: "n \<le> length [mk_event ''i'' ''p'' 2 1 [], mk_event ''j'' ''p'' 1 1 []]"
    "out = map (NewServerEventMsg ''a'') (take n [mk_event ''i'' ''p'' 2 1 [], mk_event ''j'' ''p'' 1 1 []]) @
        [NewServerClosedMsg ''a'' ''error: query timeout'']"
    "\<forall>j<n. \<not> expiredAt stalled j \<and> sending stalled j = Delivered"
    "n < length [mk_event ''i'' ''p'' 2 1 [], mk_event ''j'' ''p'' 1 1 []] \<longrightarrow> expiredAt stalled n \<or> sending stalled n = TimedOut"
    using req_eose_only_complete[OF c i(1) q h] env(1,2) unfolding i(2) by auto
  have "n \<noteq> 2" using n(3) env(4) by (metis numeral_2_eq_2 One_nat_def lessI send_outcome.distinct(1))
  moreover have "n \<noteq> 0"
  proof
    assume "n = 0"
    with n(4) env(3,6) show False by simp
  qed
  ultimately have "n = 1" using n(1) by simp
  with n(2) h show ?thesis by simp
qed

lemma memory_req_answer_witness:
  "\<exists>s out. serve_all (storage_serve impatient Store Query) NewInMemoryStorage
      [client_event (mk_event ''i'' ''p'' 2 1 []), client_close ''a'', client_event (mk_event ''j'' ''p'' 3 1 [])] = (s, out)
    \<and> snd (storage_serve impatient Store Query s (client_req ''a'' [empty_filter\<lparr>Limit := Some 1\<rparr>])) =
      [NewServerEventMsg ''a'' (mk_event ''j'' ''p'' 3 1 []), NewServerEOSEMsg ''a'']"
proof -
  let ?msgs = "[client_event (mk_event ''i'' ''p'' 2 1 []), client_close ''a'', client_event (mk_event ''j'' ''p'' 3 1 [])]"
  obtain s out where a: "serve_all (storage_serve impatient Store Query) NewInMemoryStorage ?msgs = (s, out)" by force
  have sub: "submitted ?msgs = [mk_event ''i'' ''p'' 2 1 [], mk_event ''j'' ''p'' 3 1 []]"
    by (simp add: submitted_def client_event_def client_close_def)
  have ev: "events (Store_all NewInMemoryStorage [mk_event ''i'' ''p'' 2 1 [], mk_event ''j'' ''p'' 3 1 []]) =
      [mk_event ''i'' ''p'' 2 1 [], mk_event ''j'' ''p'' 3 1 []]"
    by (simp add: Store_event_def NewInMemoryStorage_def eventType_def eventType_of_kind_def deleted_by_id_def
        deleted_by_addr_def store_tail_def)
  have m: "Match (empty_filter\<lparr>Limit := Some 1\<rparr>) (mk_event i ''p'' t 1 [])" for i t
    by (simp add: Match_def empty_filter_def)
  have k: "\<not> event_key (mk_event ''i'' ''p'' 2 1 []) \<le> event_key (mk_event ''j'' ''p'' 3 1 [])"
    by (simp add: event_key_def less_eq_prod_def mk_event_def)
  from memory_req_answer[OF a, of "''a''" "[empty_filter\<lparr>Limit := Some 1\<rparr>]"] a show ?thesis
    unfolding sub ev by (simp add: limited_def limit_of_def m k)
qed

lemma memory_one_terminal_per_request_witness:
  "length (filter is_terminal (snd (serve_all (storage_serve impatient Store Query) NewInMemoryStorage
     [client_event (mk_event ''i'' ''p'' 2 1 []), client_req ''a'' [], client_close ''a'']))) = 2"
  using memory_one_terminal_per_request[of "[client_event (mk_event ''i'' ''p'' 2 1 []), client_req ''a'' [], client_close ''a'']" impatient]
  by (simp add: expects_answer_def client_event_def client_req_def client_close_def)

lemma count_agrees_with_req_witness:
  "snd (storage_serve impatient (\<lambda>s ep. (s, Inr False)) sample_query () (client_count ''a'' []))
    = [NewServerCountMsg ''a'' (of_nat (length (filter (\<lambda>m. SType m = MsgTypeEvent)
        (snd (storage_serve impatient (\<lambda>s ep. (s, Inr False)) sample_query () (client_req ''a'' [])))))) None]"
  by (rule count_agrees_with_req) (simp_all add: sample_query_def)

end
