(* ===== verification/Wrapper_Storage.thy ===== *)
theory Wrapper_Storage
  imports In_Memory_Storage Kind_Label
begin

text \<open>
  The storages that wrap another one: \<^verbatim>\<open>CompositeStorage\<close> (\<^verbatim>\<open>composite_storage.go\<close>), which answers
  queries with a search term through a search index, and \<^verbatim>\<open>MetricsStorage\<close> (\<^verbatim>\<open>metrics_storage.go\<close>).
  The wrapped storage is the pair \<open>store\<close>, \<open>query\<close>; the index, which is a library, is the pair \<open>index\<close>
  and \<open>search\<close>. Prometheus counters are fields of the state.
\<close>

section \<open>The composite storage\<close>

record composite_metrics =
  SearchTotal :: nat
  SearchErrors :: nat
  IndexTotal :: nat
  IndexErrors :: nat

record ('s, 'x) CompositeStorage =
  primary :: 's
  searchIndex :: "'x option"
  cmetrics :: "composite_metrics option"

definition count_metric :: "(composite_metrics \<Rightarrow> composite_metrics) \<Rightarrow> ('s, 'x) CompositeStorage \<Rightarrow> ('s, 'x) CompositeStorage" where
  "count_metric f c = c\<lparr>cmetrics := map_option f (cmetrics c)\<rparr>"

definition composite_Store ::
  "('s \<Rightarrow> Event option \<Rightarrow> 's \<times> (go_error + bool)) \<Rightarrow> ('x \<Rightarrow> Event \<Rightarrow> 'x \<times> go_error option) \<Rightarrow>
    ('s, 'x) CompositeStorage \<Rightarrow> Event option \<Rightarrow> ('s, 'x) CompositeStorage \<times> (go_error + bool)" where
  "composite_Store store index c ep =
     (case store (primary c) ep of (s', res) \<Rightarrow>
        let c1 = c\<lparr>primary := s'\<rparr> in
        if res = Inr True then
          (case (searchIndex c, ep) of
             (Some x, Some event) \<Rightarrow>
               if eventType event \<noteq> EventTypeEphemeral \<and> Content event \<noteq> '''' then
                 (let c2 = count_metric (\<lambda>m. m\<lparr>IndexTotal := IndexTotal m + 1\<rparr>) c1 in
                  case index x event of (x', ierr) \<Rightarrow>
                    let c3 = c2\<lparr>searchIndex := Some x'\<rparr> in
                    (if ierr \<noteq> None then count_metric (\<lambda>m. m\<lparr>IndexErrors := IndexErrors m + 1\<rparr>) c3 else c3, Inr True))
               else (c1, Inr True)
           | _ \<Rightarrow> (c1, Inr True))
        else (c1, res))"

text \<open>The first search term of the filters.\<close>

fun searchQuery :: "ReqFilter list \<Rightarrow> string" where
  "searchQuery [] = ''''"
| "searchQuery (f # fs) = (case Search f of None \<Rightarrow> searchQuery fs | Some q \<Rightarrow> if q \<noteq> '''' then q else searchQuery fs)"

text \<open>The filter by which the hits are looked up.\<close>

definition searchFilter :: "string list \<Rightarrow> int \<Rightarrow> ReqFilter list \<Rightarrow> ReqFilter" where
  "searchFilter eventIDs limit filters =
     (let sf = empty_filter\<lparr>IDs := Some eventIDs, Limit := Some limit\<rparr> in
      case filters of [] \<Rightarrow> sf
      | f # _ \<Rightarrow>
          (let sf1 = (if length (elems (Kinds f)) > 0 then sf\<lparr>Kinds := Kinds f\<rparr> else sf);
               sf2 = (if length (elems (Authors f)) > 0 then sf1\<lparr>Authors := Authors f\<rparr> else sf1);
               sf3 = (if Since f \<noteq> None then sf2\<lparr>Since := Since f\<rparr> else sf2)
           in if Until f \<noteq> None then sf3\<lparr>Until := Until f\<rparr> else sf3))"

definition search_limit :: "ReqFilter list \<Rightarrow> int" where
  "search_limit filters = (case filters of [] \<Rightarrow> 100 | f # _ \<Rightarrow> (case Limit f of None \<Rightarrow> 100 | Some l \<Rightarrow> l))"

definition composite_Query ::
  "('s \<Rightarrow> ReqFilter list \<Rightarrow> Event list \<times> go_error option) \<Rightarrow> ('x \<Rightarrow> string \<Rightarrow> int \<Rightarrow> go_error + string list) \<Rightarrow>
    ('s, 'x) CompositeStorage \<Rightarrow> ReqFilter list \<Rightarrow> ('s, 'x) CompositeStorage \<times> (Event list \<times> go_error option)" where
  "composite_Query query search c filters =
     (if searchQuery filters = '''' \<or> searchIndex c = None then (c, query (primary c) filters)
      else
        let c1 = count_metric (\<lambda>m. m\<lparr>SearchTotal := SearchTotal m + 1\<rparr>) c;
            limit = search_limit filters
        in case search (the (searchIndex c)) (searchQuery filters) limit of
             Inl err \<Rightarrow> (count_metric (\<lambda>m. m\<lparr>SearchErrors := SearchErrors m + 1\<rparr>) c1, query (primary c) filters)
           | Inr eventIDs \<Rightarrow>
               if length eventIDs = 0 then (c1, ([], None))
               else (c1, query (primary c) [searchFilter eventIDs limit filters]))"

section \<open>The metrics storage\<close>

record storage_metrics =
  StoreDurations :: "int list"
  StoreErrors :: nat
  EventsStored :: "string \<times> string \<times> bool \<Rightarrow> nat"
  QueryErrors :: nat
  QueryDurations :: "int list"

record 's MetricsStorage =
  wrapped :: 's
  smetrics :: "storage_metrics option"

text \<open>\<open>None\<close> is the panic of a nil dereference. \<open>duration\<close> is measured.\<close>

definition metrics_Store ::
  "('s \<Rightarrow> Event option \<Rightarrow> 's \<times> (go_error + bool)) \<Rightarrow> int \<Rightarrow> 's MetricsStorage \<Rightarrow> Event option \<Rightarrow>
    ('s MetricsStorage \<times> (go_error + bool)) option" where
  "metrics_Store store duration ms ep =
     (case store (wrapped ms) ep of (s', res) \<Rightarrow>
        (case smetrics ms of
           None \<Rightarrow> Some (ms\<lparr>wrapped := s'\<rparr>, res)
         | Some m \<Rightarrow>
             let m1 = m\<lparr>StoreDurations := StoreDurations m @ [duration]\<rparr> in
             (case res of
                Inl err \<Rightarrow> Some (ms\<lparr>wrapped := s', smetrics := Some (m1\<lparr>StoreErrors := StoreErrors m1 + 1\<rparr>)\<rparr>, res)
              | Inr stored \<Rightarrow>
                  (case ep of None \<Rightarrow> None
                   | Some event \<Rightarrow>
                       (case kindLabels (Kind event) of (kind, typ) \<Rightarrow>
                          let l = (kind, typ, stored) in
                          Some (ms\<lparr>wrapped := s', smetrics := Some (m1\<lparr>EventsStored := (EventsStored m1)(l := EventsStored m1 l + 1)\<rparr>)\<rparr>, res))))))"

text \<open>
  A query: \<open>errCalls\<close> and \<open>closeDurations\<close> are the number of calls of \<^verbatim>\<open>errFn\<close> and the durations at the
  calls of \<^verbatim>\<open>closeFn\<close>; the guard counts an error once.
\<close>

definition metrics_Query ::
  "('s \<Rightarrow> ReqFilter list \<Rightarrow> Event list \<times> go_error option) \<Rightarrow> nat \<Rightarrow> int list \<Rightarrow> 's MetricsStorage \<Rightarrow> ReqFilter list \<Rightarrow>
    's MetricsStorage \<times> (Event list \<times> go_error option)" where
  "metrics_Query query errCalls closeDurations ms filters =
     (case query (wrapped ms) filters of (evs, err) \<Rightarrow>
        (case smetrics ms of None \<Rightarrow> (ms, (evs, err))
         | Some m \<Rightarrow>
             let m1 = (if err \<noteq> None \<and> errCalls > 0 then m\<lparr>QueryErrors := QueryErrors m + 1\<rparr> else m);
                 m2 = m1\<lparr>QueryDurations := QueryDurations m1 @ closeDurations\<rparr>
             in (ms\<lparr>smetrics := Some m2\<rparr>, (evs, err))))"

section \<open>The composite storage as a storage\<close>

lemma count_metric_fields [simp]:
  "primary (count_metric f c) = primary c" "searchIndex (count_metric f c) = searchIndex c"
  by (simp_all add: count_metric_def)

lemma composite_Store_primary:
  "primary (fst (composite_Store store index c ep)) = fst (store (primary c) ep)"
  "snd (composite_Store store index c ep) = snd (store (primary c) ep)"
  "(searchIndex (fst (composite_Store store index c ep)) = None) \<longleftrightarrow> (searchIndex c = None)"
  by (auto simp: composite_Store_def Let_def split_beta split: option.splits)

text \<open>Without a search index it keeps the contract of the storage it wraps.\<close>

interpretation composite_plain: storage "composite_Store Store index" "\<lambda>c fs. snd (composite_Query Query search c fs)"
  "\<lambda>c. set (events (primary c))" "\<lambda>c. storage_ok (primary c) \<and> searchIndex c = None" for index search
proof unfold_locales
  show "composite_Store Store index c None = (c, Inr False)" for c by (simp add: composite_Store_def Store_def)
  show "storage_ok (primary c) \<and> searchIndex c = None \<Longrightarrow> snd (composite_Query Query search c fs) = (es, None) \<Longrightarrow>
      query_result (set (events (primary c))) fs es" for c fs es
    using mem.query_ok by (simp add: composite_Query_def)
  show "storage_ok (primary c) \<and> searchIndex c = None \<Longrightarrow>
      set (events (primary (fst (composite_Store Store index c (Some e))))) \<subseteq> insert e (set (events (primary c)))" for c e
    unfolding composite_Store_primary using mem.store_contents by blast
qed (simp add: composite_Store_primary mem.store_invar)

text \<open>The constraints of the first filter that the lookup of the hits takes over.\<close>

definition meets_lookup :: "ReqFilter \<Rightarrow> Event \<Rightarrow> bool" where
  "meets_lookup f e \<longleftrightarrow>
     (elems (Kinds f) = [] \<or> Kind e \<in> set (elems (Kinds f))) \<and> (elems (Authors f) = [] \<or> Pubkey e \<in> set (elems (Authors f)))
     \<and> (case Since f of None \<Rightarrow> True | Some s \<Rightarrow> s \<le> Unix (CreatedAt e)) \<and> (case Until f of None \<Rightarrow> True | Some u \<Rightarrow> Unix (CreatedAt e) \<le> u)"

lemma searchFilter_matches:
  "eventIDs \<noteq> [] \<Longrightarrow> Match (searchFilter eventIDs limit (f # fs)) e \<longleftrightarrow> ID e \<in> set eventIDs \<and> meets_lookup f e"
  by (auto simp: searchFilter_def Let_def Match_def meets_lookup_def empty_filter_def split: option.split)

lemma limit_of_searchFilter: "limit_of [searchFilter eventIDs limit fs] = limit"
  by (cases fs) (auto simp: limit_of_def searchFilter_def Let_def)

lemma searchQuery_find:
  "searchQuery fs = (case find (\<lambda>q. q \<noteq> '''') (List.map_filter Search fs) of None \<Rightarrow> '''' | Some q \<Rightarrow> q)"
  by (induction fs) (auto simp: List.map_filter_simps split: option.splits)

section \<open>Properties\<close>

text \<open>C34. What a query with a search term over the in-memory storage yields. The index is asked for the
  first non-empty term of the filters with the limit of the first filter, 100 if it has none. If it answers,
  the query yields exactly the stored events whose ids are among the hits and that meet the
  kinds, authors, since and until of the first filter, newest first with ties by id, cut at that limit (a negative one
  cuts nothing), and no error; if it fails, the query yields what the primary storage yields for the filters. The
  primary storage is not changed.\<close>

theorem composite_search_answer:
  assumes "storage_ok (primary c)" "searchIndex c = Some x"
    "find (\<lambda>q. q \<noteq> '''') (List.map_filter Search (f # fs)) = Some q"
    "bound = (case Limit f of None \<Rightarrow> 100 | Some l \<Rightarrow> l)"
  shows "snd (composite_Query Query search c (f # fs)) =
      (case search x q bound of
         Inl err \<Rightarrow> Query (primary c) (f # fs)
       | Inr hits \<Rightarrow> (limited bound (sort_key event_key (filter (\<lambda>e. ID e \<in> set hits \<and> meets_lookup f e) (events (primary c)))), None))
    \<and> primary (fst (composite_Query Query search c (f # fs))) = primary c"
proof -
  have q: "searchQuery (f # fs) = q" unfolding searchQuery_find assms(3) by simp
  have "q \<noteq> ''''" using assms(3) unfolding find_Some_iff by auto
  note q = q this
  have l: "search_limit (f # fs) = bound" by (simp add: search_limit_def assms(4))
  show ?thesis
  proof (cases "search x q bound")
    case (Inl err)
    then show ?thesis using assms(2) q l by (simp add: composite_Query_def Let_def count_metric_def)
  next
    case (Inr hits)
    show ?thesis
    proof (cases "hits = []")
      case True
      then show ?thesis using Inr assms(2) q l by (simp add: composite_Query_def Let_def count_metric_def limited_def)
    next
      case False
      have "matchesAny [searchFilter hits bound (f # fs)] = (\<lambda>e. ID e \<in> set hits \<and> meets_lookup f e)"
        using searchFilter_matches[OF False] by (intro ext) simp
      then have "Query (primary c) [searchFilter hits bound (f # fs)] =
          (limited bound (sort_key event_key (filter (\<lambda>e. ID e \<in> set hits \<and> meets_lookup f e) (events (primary c)))), None)"
        unfolding Query_def Query_events_eq[OF assms(1)] limit_of_searchFilter by simp
      then show ?thesis using Inr False assms(2) q l by (simp add: composite_Query_def Let_def count_metric_def)
    qed
  qed
qed

text \<open>The lookup of hits breaks the promise of the storage interface to return only events that match a
  filter: asked for the single id \<open>i\<close> together with a search term, the composite storage returns the
  event \<open>j\<close> the index found, which matches no filter of the query.\<close>

theorem composite_ignores_ids:
  "\<exists>c c'. composite_Query Query (\<lambda>(x :: unit) q l. Inr [''j'']) c [empty_filter\<lparr>IDs := Some [''i''], Search := Some ''word''\<rparr>]
      = (c', ([mk_event ''j'' ''p'' 1 1 []], None))
    \<and> storage_ok (primary c)
    \<and> \<not> matchesAny [empty_filter\<lparr>IDs := Some [''i''], Search := Some ''word''\<rparr>] (mk_event ''j'' ''p'' 1 1 [])"
proof -
  let ?s = "fst (Store_event NewInMemoryStorage (mk_event ''j'' ''p'' 1 1 []))"
  let ?c = "\<lparr>primary = ?s, searchIndex = Some (), cmetrics = None\<rparr>"
  let ?f = "empty_filter\<lparr>IDs := Some [''i''], Search := Some ''word''\<rparr>"
  have s: "events ?s = [mk_event ''j'' ''p'' 1 1 []]"
    by (simp add: Store_event_def deleted_by_id_def deleted_by_addr_def Address_of_def store_tail_def NewInMemoryStorage_def
        eventType_def eventType_of_kind_def)
  have "storage_ok ?s" using mem.store_invar[OF storage_ok_new, of "Some (mk_event ''j'' ''p'' 1 1 [])"]
    by (simp add: Store_def split_beta)
  moreover obtain c' where "composite_Query Query (\<lambda>(x :: unit) q l. Inr [''j'']) ?c [?f] = (c', ([mk_event ''j'' ''p'' 1 1 []], None))"
    by (simp add: composite_Query_def empty_filter_def Let_def search_limit_def searchFilter_def Query_def Query_events_def s
        sortedEvents_def SortFunc_def limit_of_def Match_def)
  moreover have "\<not> matchesAny [?f] (mk_event ''j'' ''p'' 1 1 [])" by (simp add: Match_def empty_filter_def)
  ultimately show ?thesis by (intro exI[of _ ?c] exI[of _ c'] conjI) simp_all
qed

text \<open>The metrics storage changes nothing a caller sees: storing an event and querying give the results
  and the state of the wrapped storage, and with metrics on each call adds exactly one
  observation: an error, or the labels of the kind with the outcome.\<close>

theorem metrics_storage_transparent:
  "(\<exists>ms'. metrics_Store store d ms (Some e) = Some (ms', snd (store (wrapped ms) (Some e)))
      \<and> wrapped ms' = fst (store (wrapped ms) (Some e))
      \<and> (case (smetrics ms, smetrics ms') of
           (None, None) \<Rightarrow> True
         | (Some m, Some m') \<Rightarrow>
             StoreDurations m' = StoreDurations m @ [d]
             \<and> (case snd (store (wrapped ms) (Some e)) of
                  Inl err \<Rightarrow> StoreErrors m' = StoreErrors m + 1 \<and> EventsStored m' = EventsStored m
                | Inr stored \<Rightarrow> StoreErrors m' = StoreErrors m \<and>
                    EventsStored m' (fst (kindLabels (Kind e)), snd (kindLabels (Kind e)), stored)
                      = EventsStored m (fst (kindLabels (Kind e)), snd (kindLabels (Kind e)), stored) + 1)
         | _ \<Rightarrow> False))
    \<and> snd (metrics_Query query n ds ms fs) = query (wrapped ms) fs \<and> wrapped (fst (metrics_Query query n ds ms fs)) = wrapped ms"
  by (cases "smetrics ms"; cases "snd (store (wrapped ms) (Some e))")
    (simp_all add: metrics_Store_def metrics_Query_def Let_def split_beta)

text \<open>A nil event, which the wrapped storage accepts, panics here once metrics are on.\<close>

lemma metrics_nil_panics:
  "smetrics ms \<noteq> None \<Longrightarrow> snd (store (wrapped ms) None) = Inr False \<Longrightarrow> metrics_Store store d ms None = None"
  by (auto simp: metrics_Store_def Let_def split_beta)

section \<open>A concrete instance\<close>

definition sample_search :: "unit \<Rightarrow> string \<Rightarrow> int \<Rightarrow> go_error + string list" where
  "sample_search x q l = (if q = ''word'' \<and> l = 1 then Inr [''i'', ''j'', ''k''] else Inl (Error ''no''))"

lemma composite_search_answer_witness:
  "snd (composite_Query Query sample_search
      \<lparr>primary = fst (Store_event (fst (Store_event NewInMemoryStorage (mk_event ''i'' ''p'' 1 1 []))) (mk_event ''j'' ''p'' 2 1 [])),
       searchIndex = Some (), cmetrics = None\<rparr>
      [empty_filter\<lparr>Authors := Some [''p''], Limit := Some 1\<rparr>, empty_filter\<lparr>Search := Some ''word''\<rparr>]) =
    ([mk_event ''j'' ''p'' 2 1 []], None)"
proof -
  let ?s1 = "fst (Store_event NewInMemoryStorage (mk_event ''i'' ''p'' 1 1 []))"
  let ?s = "fst (Store_event ?s1 (mk_event ''j'' ''p'' 2 1 []))"
  let ?c = "\<lparr>primary = ?s, searchIndex = Some (), cmetrics = None\<rparr>"
  let ?f = "empty_filter\<lparr>Authors := Some [''p''], Limit := Some 1\<rparr>" and ?g = "empty_filter\<lparr>Search := Some ''word''\<rparr>"
  have ev: "events ?s = [mk_event ''i'' ''p'' 1 1 [], mk_event ''j'' ''p'' 2 1 []]"
    by (simp add: Store_event_def deleted_by_id_def deleted_by_addr_def Address_of_def store_tail_def NewInMemoryStorage_def
        eventType_def eventType_of_kind_def)
  have ok: "storage_ok ?s" using mem.store_invar[OF mem.store_invar[OF storage_ok_new, of "Some (mk_event ''i'' ''p'' 1 1 [])"],
      of "Some (mk_event ''j'' ''p'' 2 1 [])"] by (simp add: Store_def split_beta)
  have t: "find (\<lambda>q. q \<noteq> '''') (List.map_filter Search [?f, ?g]) = Some ''word''"
    by (simp add: map_filter_simps empty_filter_def)
  have m: "meets_lookup ?f (mk_event i ''p'' t 1 [])" for i t by (simp add: meets_lookup_def empty_filter_def)
  have k: "\<not> event_key (mk_event ''i'' ''p'' 1 1 []) \<le> event_key (mk_event ''j'' ''p'' 2 1 [])"
    by (simp add: event_key_def less_eq_prod_def mk_event_def)
  have "snd (composite_Query Query sample_search ?c [?f, ?g]) =
      (limited 1 (sort_key event_key (filter (\<lambda>e. ID e \<in> set [''i'', ''j'', ''k''] \<and> meets_lookup ?f e) (events ?s))), None)"
    using composite_search_answer[of ?c "()" ?f "[?g]" "''word''" 1 sample_search] ok t by (simp add: sample_search_def)
  then show ?thesis unfolding ev by (simp add: m k limited_def)
qed

end
