(* ===== verification/Pebble_Keys.thy ===== *)
theory Pebble_Keys
  imports Event
begin

unbundle bit_operations_syntax

text \<open>
  The keys of the persistent storage (\<^verbatim>\<open>pebble_storage.go\<close>): byte strings built from a prefix, 64-bit
  numbers in big-endian order and 32-byte identifiers. The lemmas show that the keys keep what they
  are built from, that their byte order is the order of the numbers and identifiers, and that the
  hexadecimal conversion is a round trip on the identifiers the relay lets in.
\<close>

section \<open>Bytes\<close>

text \<open>\<open>nat_bytes n x\<close>: the \<open>n\<close> low bytes of \<open>x\<close>, most significant first.\<close>

fun nat_bytes :: "nat \<Rightarrow> nat \<Rightarrow> string" where
  "nat_bytes 0 x = []"
| "nat_bytes (Suc n) x = char_of (x div 256 ^ n mod 256) # nat_bytes n x"

fun bytes_nat :: "string \<Rightarrow> nat" where
  "bytes_nat [] = 0"
| "bytes_nat (c # cs) = byte_of c * 256 ^ length cs + bytes_nat cs"

text \<open>\<^verbatim>\<open>binary.BigEndian.PutUint64\<close> and \<^verbatim>\<open>Uint64\<close>.\<close>

definition PutUint64 :: "64 word \<Rightarrow> string" where
  "PutUint64 w = nat_bytes 8 (unat w)"

definition Uint64 :: "string \<Rightarrow> 64 word" where
  "Uint64 b = of_nat (bytes_nat b)"

fun bytesLess :: "string \<Rightarrow> string \<Rightarrow> bool" where
  "bytesLess [] [] = False"
| "bytesLess [] (b # bs) = True"
| "bytesLess (a # as) [] = False"
| "bytesLess (a # as) (b # bs) = (if a < b then True else if a > b then False else bytesLess as bs)"

text \<open>The loop runs from the last byte; \<open>None\<close> is a carry out of the first.\<close>

fun increment_loop :: "string \<Rightarrow> string option" where
  "increment_loop [] = None"
| "increment_loop (c # cs) =
     (case increment_loop cs of Some cs' \<Rightarrow> Some (c # cs')
      | None \<Rightarrow> if byte_of c < 255 then Some (char_of (byte_of c + 1) # map (\<lambda>_. CHR 0x00) cs) else None)"

definition incrementBytes :: "string \<Rightarrow> string" where
  "incrementBytes b = (case increment_loop b of Some b' \<Rightarrow> b' | None \<Rightarrow> map (\<lambda>_. CHR 0x00) b @ [CHR 0x00])"

definition hexByte :: "char \<Rightarrow> nat" where
  "hexByte c =
     (if in_range 48 57 c then byte_of c - 48
      else if in_range 97 102 c then byte_of c - 97 + 10
      else if in_range 65 70 c then byte_of c - 65 + 10
      else 0)"

text \<open>\<open>None\<close> is the index panic on a string of fewer than 64 bytes.\<close>

definition hexToBytes32 :: "string \<Rightarrow> string option" where
  "hexToBytes32 hex =
     (if length hex < 64 then None
      else Some (map (\<lambda>i. char_of (hexByte (hex ! (i * 2)) * 16 + hexByte (hex ! (i * 2 + 1)))) [0..<32]))"

definition hexChars :: string where
  "hexChars = ''0123456789abcdef''"

definition bytesToHex :: "string \<Rightarrow> string" where
  "bytesToHex b = concat (map (\<lambda>v. [hexChars ! (byte_of v div 16), hexChars ! (byte_of v mod 16)]) b)"

section \<open>Keys\<close>

definition prefixEvent :: char where "prefixEvent = CHR 0x01"
definition prefixCreatedAt :: char where "prefixCreatedAt = CHR 0x02"
definition prefixAddr :: char where "prefixAddr = CHR 0x03"
definition prefixDeletedID :: char where "prefixDeletedID = CHR 0x04"
definition prefixDeletedAddr :: char where "prefixDeletedAddr = CHR 0x05"
definition prefixField :: char where "prefixField = CHR 0x06"

lemmas prefix_defs = prefixEvent_def prefixCreatedAt_def prefixAddr_def prefixDeletedID_def prefixDeletedAddr_def prefixField_def

text \<open>\<^verbatim>\<open>copy\<close> of a byte slice into the last \<open>n\<close> bytes of a fresh key.\<close>

definition copy_into :: "nat \<Rightarrow> string \<Rightarrow> string" where
  "copy_into n b = take n (b @ replicate n (CHR 0x00))"

definition makeEventKey :: "string \<Rightarrow> string" where
  "makeEventKey eventID = prefixEvent # copy_into 32 eventID"

definition makeCreatedAtKey :: "64 word \<Rightarrow> string \<Rightarrow> string" where
  "makeCreatedAtKey invertedTS eventID = prefixCreatedAt # PutUint64 invertedTS @ copy_into 32 eventID"

definition makeFieldKey :: "64 word \<Rightarrow> 64 word \<Rightarrow> string \<Rightarrow> string" where
  "makeFieldKey hash invertedTS eventID = prefixField # PutUint64 hash @ PutUint64 invertedTS @ copy_into 32 eventID"

definition makeAddrKey :: "string \<Rightarrow> string" where
  "makeAddrKey addrHash = prefixAddr # copy_into 32 addrHash"

definition makeDeletionKey :: "char \<Rightarrow> string \<Rightarrow> string" where
  "makeDeletionKey prefix keyData = prefix # copy_into 32 keyData"

text \<open>\<^verbatim>\<open>uint64(math.MaxInt64 - ts)\<close>\<close>

definition invertTimestamp :: "int \<Rightarrow> 64 word" where
  "invertTimestamp ts = word_of_int (2 ^ 63 - 1 - ts)"

text \<open>FNV-1a with 64 bits, as in \<^verbatim>\<open>hash/fnv\<close>.\<close>

definition fnvHash :: "string \<Rightarrow> 64 word" where
  "fnvHash s = foldl (\<lambda>h c. (h XOR of_nat (byte_of c)) * 1099511628211) 14695981039346656037 s"

definition fieldHashAuthor :: "string \<Rightarrow> 64 word" where
  "fieldHashAuthor pubkeyHex = fnvHash (''author'' @ [CHR 0x00] @ pubkeyHex)"

definition fieldHashKind :: "int \<Rightarrow> 64 word" where
  "fieldHashKind kind = fnvHash (''kind'' @ [CHR 0x00] @ FormatInt kind)"

text \<open>\<^verbatim>\<open>string(tagName)\<close> of a byte is the UTF-8 encoding of the code point.\<close>

definition string_of_byte :: "char \<Rightarrow> string" where
  "string_of_byte c = (if byte_of c < 128 then [c] else [char_of (192 + byte_of c div 64), char_of (128 + byte_of c mod 64)])"

definition fieldHashTag :: "char \<Rightarrow> string \<Rightarrow> 64 word" where
  "fieldHashTag tagName tagValue = fnvHash (string_of_byte tagName @ [CHR 0x00] @ tagValue)"

section \<open>Byte order\<close>

lemma bytesLess_less: "bytesLess a b \<longleftrightarrow> a < b"
  by (induction a b rule: bytesLess.induct) auto

lemma length_nat_bytes [simp]: "length (nat_bytes n x) = n"
  by (induction n) auto

lemma length_PutUint64 [simp]: "length (PutUint64 w) = 8"
  by (simp add: PutUint64_def)

lemma bytes_nat_bound: "bytes_nat cs < 256 ^ length cs"
proof (induction cs)
  case (Cons c cs)
  have "byte_of c * 256 ^ length cs \<le> 255 * 256 ^ length cs"
    using byte_of_less[of c] by (intro mult_right_mono) (simp_all add: less_Suc_eq_le[symmetric])
  then have "byte_of c * 256 ^ length cs + bytes_nat cs < 255 * 256 ^ length cs + 256 ^ length cs" using Cons by linarith
  then show ?case by simp
qed simp

lemma bytes_nat_nat_bytes: "bytes_nat (nat_bytes n x) = x mod 256 ^ n"
proof (induction n)
  case (Suc n)
  have "x mod 256 ^ Suc n = x div 256 ^ n mod 256 * 256 ^ n + x mod 256 ^ n"
    using mod_mult2_eq[of x "256 ^ n" 256] by (simp add: mult.commute)
  with Suc show ?case by simp
qed simp

lemma unat_less64: "unat (w :: 64 word) < 256 ^ 8"
proof -
  have "unat w < 2 ^ LENGTH(64)" by (rule unsigned_less)
  then show ?thesis by simp
qed

lemma Uint64_PutUint64 [simp]: "Uint64 (PutUint64 w) = w"
  using unat_less64[of w] by (simp add: Uint64_def PutUint64_def bytes_nat_nat_bytes)

text \<open>On byte strings of one length the lexicographic order is that of the numbers.\<close>

lemma digit_less: "x < y \<Longrightarrow> u < b \<Longrightarrow> x * b + u < y * b + (v :: nat)"
  using mult_le_mono1[of "Suc x" y b] by simp

lemma less_bytes_nat: "length a = length b \<Longrightarrow> a < b \<longleftrightarrow> bytes_nat a < bytes_nat b"
proof (induction a b rule: list_induct2)
  case (Cons x xs y ys)
  have b: "bytes_nat xs < 256 ^ length ys" "bytes_nat ys < 256 ^ length ys"
    using bytes_nat_bound[of xs] bytes_nat_bound[of ys] Cons.hyps by simp_all
  have "byte_of x < byte_of y \<Longrightarrow> byte_of x * 256 ^ length ys + bytes_nat xs < byte_of y * 256 ^ length ys + bytes_nat ys"
    "byte_of y < byte_of x \<Longrightarrow> byte_of y * 256 ^ length ys + bytes_nat ys < byte_of x * 256 ^ length ys + bytes_nat xs"
    using b by (simp_all add: digit_less)
  with Cons show ?case by (cases "byte_of x" "byte_of y" rule: linorder_cases) (auto simp: less_char_def)
qed simp


lemma PutUint64_less [simp]: "PutUint64 v < PutUint64 w \<longleftrightarrow> v < w"
proof -
  have "bytes_nat (PutUint64 u) = unat u" for u
    using unat_less64[of u] by (simp add: PutUint64_def bytes_nat_nat_bytes)
  then show ?thesis by (simp add: less_bytes_nat word_less_nat_alt)
qed

lemma PutUint64_inject [simp]: "PutUint64 v = PutUint64 w \<longleftrightarrow> v = w"
  by (metis Uint64_PutUint64)

lemma append_less_append: "length a = length b \<Longrightarrow> a @ x < b @ y \<longleftrightarrow> a < b \<or> a = b \<and> x < (y :: string)"
proof (induction a b rule: list_induct2)
  case (Cons c a d b)
  then show ?case by (cases c d rule: linorder_cases) (simp_all, blast)
qed simp

lemma take_less: "length p = n \<Longrightarrow> p @ x < p @ (y :: string) \<longleftrightarrow> x < y"
  by (simp add: append_less_append)

section \<open>Inverted timestamps\<close>

lemma uint_invertTimestamp: "int64 ts \<Longrightarrow> uint (invertTimestamp ts) = 2 ^ 63 - 1 - ts"
  unfolding invertTimestamp_def int64_def by (simp only: uint_word_of_int) simp

text \<open>Later events come first.\<close>

lemma invertTimestamp_less [simp]: "int64 s \<Longrightarrow> int64 t \<Longrightarrow> invertTimestamp s < invertTimestamp t \<longleftrightarrow> t < s"
  by (simp add: word_less_def uint_invertTimestamp)

lemma invertTimestamp_inject [simp]:
  assumes h: "int64 s" "int64 t" shows "invertTimestamp s = invertTimestamp t \<longleftrightarrow> s = t"
proof
  assume e: "invertTimestamp s = invertTimestamp t"
  have "2 ^ 63 - 1 - s = 2 ^ 63 - 1 - t"
    unfolding uint_invertTimestamp[OF h(1), symmetric] uint_invertTimestamp[OF h(2), symmetric] e ..
  then show "s = t" by linarith
qed simp

text \<open>\<^verbatim>\<open>invertedSince+1\<close> is the next timestamp down, except that it wraps to zero for the least \<open>int64\<close>.\<close>

lemma invertTimestamp_Suc:
  assumes "int64 s" "int64 t" "s \<noteq> - (2 ^ 63)"
  shows "invertTimestamp t < invertTimestamp s + 1 \<longleftrightarrow> s \<le> t"
proof -
  have "invertTimestamp s + 1 = invertTimestamp (s - 1)" by (simp add: invertTimestamp_def flip: wi_hom_add)
  moreover have "int64 (s - 1)" using assms(1,3) by (auto simp: int64_def)
  ultimately have "invertTimestamp t < invertTimestamp s + 1 \<longleftrightarrow> s - 1 < t" using assms(2) by simp
  then show ?thesis by linarith
qed

lemma invertTimestamp_wraps: "invertTimestamp (- (2 ^ 63)) + 1 = 0"
  by (simp add: invertTimestamp_def)

section \<open>Hexadecimal\<close>

lemma hexByte_less: "hexByte c < 16"
  by (auto simp: hexByte_def in_range_def)

lemma hexChars_nth: "n < 16 \<Longrightarrow> hexChars ! n = nibble_char n"
proof -
  assume "n < 16"
  then have "n \<in> set [0..<16]" by simp
  moreover have "\<forall>n\<in>set [0..<16]. hexChars ! n = nibble_char n" unfolding hexChars_def by code_simp
  ultimately show ?thesis by blast
qed

lemma bytesToHex_Encode: "bytesToHex b = EncodeToString b"
  by (induction b) (simp_all add: bytesToHex_def hexChars_nth)


lemma nibble_char_hexByte:
  "(CHR ''0'' \<le> c \<and> c \<le> CHR ''9'') \<or> (CHR ''a'' \<le> c \<and> c \<le> CHR ''f'') \<Longrightarrow> nibble_char (hexByte c) = c"
  by (auto simp: nibble_char_def hexByte_def in_range_def less_eq_char_def)

lemma hexByte_nibble_char [simp]: "n < 16 \<Longrightarrow> hexByte (nibble_char n) = n"
  by (simp add: nibble_char_def hexByte_def in_range_def)

lemma nth_EncodeToString:
  "i < length b \<Longrightarrow> EncodeToString b ! (i * 2) = nibble_char (byte_of (b ! i) div 16)"
  "i < length b \<Longrightarrow> EncodeToString b ! Suc (i * 2) = nibble_char (byte_of (b ! i) mod 16)"
proof (induction b arbitrary: i)
  case (Cons c b)
  { case 1 then show ?case using Cons by (cases i) simp_all next
    case 2 then show ?case using Cons by (cases i) simp_all }
qed simp_all

text \<open>The relay's lower-case identifiers and 32-byte strings are in bijection.\<close>

lemma hexToBytes32_Encode: "length b = 32 \<Longrightarrow> hexToBytes32 (EncodeToString b) = Some b"
proof -
  assume "length b = 32"
  moreover have "char_of (byte_of c div 16 * 16 + byte_of c mod 16) = c" for c :: char by simp
  ultimately show ?thesis by (auto simp: hexToBytes32_def nth_EncodeToString intro!: nth_equalityI)
qed

lemma lowercase_hex_Encode:
  "isValidLowercaseHex h (2 * n) \<Longrightarrow> \<exists>b. h = EncodeToString b \<and> length b = n"
proof (induction n arbitrary: h)
  case (Suc n)
  then obtain x y h' where h: "h = x # y # h'" by (auto simp: isValidLowercaseHex_def length_Suc_conv split: if_splits)
  with Suc.prems have "isValidLowercaseHex h' (2 * n)" and xy: "nibble_char (hexByte x) = x" "nibble_char (hexByte y) = y"
    by (auto simp: isValidLowercaseHex_def nibble_char_hexByte split: if_splits)
  with Suc.IH obtain b where b: "h' = EncodeToString b" "length b = n" by blast
  let ?c = "char_of (hexByte x * 16 + hexByte y)"
  have "byte_of ?c = hexByte x * 16 + hexByte y"
    using hexByte_less[of x] hexByte_less[of y] by simp
  then have "h = EncodeToString (?c # b)" using h b xy hexByte_less[of x] hexByte_less[of y] by simp
  with b show ?case by (metis length_Cons)
qed (simp add: isValidLowercaseHex_def split: if_splits)

definition hex_bytes :: "string \<Rightarrow> string" where
  "hex_bytes h = the (hexToBytes32 h)"

lemma lowercase_hex_bytes:
  assumes "isValidLowercaseHex h 64"
  shows "hexToBytes32 h = Some (hex_bytes h)" "length (hex_bytes h) = 32" "bytesToHex (hex_bytes h) = h"
proof -
  from lowercase_hex_Encode[of h 32] assms obtain b where "h = EncodeToString b" "length b = 32" by auto
  then show "hexToBytes32 h = Some (hex_bytes h)" "length (hex_bytes h) = 32" "bytesToHex (hex_bytes h) = h"
    by (simp_all add: hex_bytes_def hexToBytes32_Encode bytesToHex_Encode)
qed

lemma hex_bytes_inject:
  "isValidLowercaseHex h 64 \<Longrightarrow> isValidLowercaseHex h' 64 \<Longrightarrow> hex_bytes h = hex_bytes h' \<longleftrightarrow> h = h'"
  by (metis lowercase_hex_bytes(3))

lemma nibble_char_less: "m < 16 \<Longrightarrow> n < 16 \<Longrightarrow> nibble_char m < nibble_char n \<longleftrightarrow> m < n"
  by (simp add: nibble_char_def less_char_def)

lemma nibble_char_inject: "m < 16 \<Longrightarrow> n < 16 \<Longrightarrow> nibble_char m = nibble_char n \<longleftrightarrow> m = n"
  by (metis hexByte_nibble_char)

lemma less_by_nibbles: "(m :: nat) < n \<longleftrightarrow> m div 16 < n div 16 \<or> m div 16 = n div 16 \<and> m mod 16 < n mod 16"
proof -
  have m: "m = m div 16 * 16 + m mod 16" "n = n div 16 * 16 + n mod 16" by simp_all
  consider "m div 16 < n div 16" | "n div 16 < m div 16" | "m div 16 = n div 16" by linarith
  then show ?thesis
  proof cases
    case 1 then show ?thesis using digit_less[of "m div 16" "n div 16" "m mod 16" 16 "n mod 16"] m by simp
  next
    case 2 then show ?thesis using digit_less[of "n div 16" "m div 16" "n mod 16" 16 "m mod 16"] m by simp
  next
    case 3 then show ?thesis using m by (metis nat_add_left_cancel_less less_irrefl)
  qed
qed

lemma EncodeToString_less: "length a = length b \<Longrightarrow> EncodeToString a < EncodeToString b \<longleftrightarrow> a < b"
proof (induction a b rule: list_induct2)
  case (Cons x xs y ys)
  have lt: "x < y \<longleftrightarrow> byte_of x div 16 < byte_of y div 16 \<or>
      byte_of x div 16 = byte_of y div 16 \<and> byte_of x mod 16 < byte_of y mod 16"
    unfolding less_char_def by (rule less_by_nibbles)
  have eq: "x = y \<longleftrightarrow> byte_of x div 16 = byte_of y div 16 \<and> byte_of x mod 16 = byte_of y mod 16"
    by (metis byte_of_nibbles(3))
  show ?case
    unfolding EncodeToString.simps Cons_less_Cons lt eq Cons.IH
    by (simp only: nibble_char_less nibble_char_inject byte_of_nibbles(1,2)) blast
qed simp

lemma hex_bytes_less:
  assumes "isValidLowercaseHex h 64" "isValidLowercaseHex h' 64"
  shows "hex_bytes h < hex_bytes h' \<longleftrightarrow> h < h'"
  using lowercase_hex_bytes[OF assms(1)] lowercase_hex_bytes[OF assms(2)]
  by (metis EncodeToString_less bytesToHex_Encode)

section \<open>Key ranges\<close>

lemma bytes_nat_inject: "length a = length b \<Longrightarrow> bytes_nat a = bytes_nat b \<longleftrightarrow> a = b"
  by (metis less_bytes_nat less_irrefl linorder_neqE)

lemma bytes_nat_zeros [simp]: "bytes_nat (map (\<lambda>_. CHR 0x00) cs) = 0"
  by (induction cs) auto

lemma increment_loop_spec:
  "case increment_loop b of Some b' \<Rightarrow> length b' = length b \<and> bytes_nat b' = bytes_nat b + 1
   | None \<Rightarrow> bytes_nat b + 1 = 256 ^ length b"
proof (induction b)
  case (Cons c cs)
  show ?case
  proof (cases "increment_loop cs")
    case None
    show ?thesis
    proof (cases "byte_of c < 255")
      case True
      with None Cons show ?thesis by (simp add: algebra_simps)
    next
      case False
      with byte_of_less[of c] have "byte_of c = 255" by linarith
      with False None Cons show ?thesis by simp
    qed
  qed (use Cons in simp)
qed simp

lemma increment_loop_Some: "byte_of c < 255 \<Longrightarrow> \<exists>b'. increment_loop (c # cs) = Some b'"
  by (simp split: option.splits)

lemma prefix_le: "length p \<le> length k \<Longrightarrow> p \<le> k \<longleftrightarrow> p \<le> take (length p) (k :: string)"
  using append_less_append[of "take (length p) k" p "drop (length p) k" "[]"]
  by (auto simp: not_less[symmetric])

lemma less_prefix: "length p \<le> length k \<Longrightarrow> k < p \<longleftrightarrow> take (length p) k < (p :: string)"
  using prefix_le[of p k] by (auto simp: not_le[symmetric])

lemma sint_word_of_int64: "int64 x \<Longrightarrow> sint (word_of_int x :: 64 word) = x"
  by (simp add: int64_def sint_sbintrunc' signed_take_bit_int_eq_self)

lemma valid_nibble_char: "n < 16 \<Longrightarrow> (CHR ''0'' \<le> nibble_char n \<and> nibble_char n \<le> CHR ''9'') \<or> (CHR ''a'' \<le> nibble_char n \<and> nibble_char n \<le> CHR ''f'')"
  by (auto simp: nibble_char_def less_eq_char_def)

lemma valid_bytesToHex: "isValidLowercaseHex (bytesToHex b) (2 * length b)"
proof -
  have "byte_of c div 16 < 16" for c using byte_of_less[of c] by (simp add: less_mult_imp_div_less)
  then show ?thesis
    unfolding bytesToHex_Encode isValidLowercaseHex_def
    by (induction b) (simp_all add: valid_nibble_char)
qed

text \<open>The keys from a prefix up to its increment are those that start with the prefix.\<close>

lemma incrementBytes_range:
  assumes "b = c # cs" "byte_of c < 255" "length b \<le> length k"
  shows "b \<le> k \<and> k < incrementBytes b \<longleftrightarrow> take (length b) k = b"
proof -
  from increment_loop_Some[OF assms(2), of cs] assms(1) obtain b' where b': "increment_loop b = Some b'" by blast
  with increment_loop_spec[of b] have n: "length b' = length b" "bytes_nat b' = bytes_nat b + 1" by simp_all
  let ?t = "take (length b) k"
  have l: "length ?t = length b" using assms(3) by simp
  have "b \<le> k \<longleftrightarrow> bytes_nat b \<le> bytes_nat ?t"
    using prefix_le[OF assms(3)] less_bytes_nat[OF l] by (simp add: not_less[symmetric])
  moreover have "k < b' \<longleftrightarrow> bytes_nat ?t < bytes_nat b + 1"
    using less_prefix[of b' k] less_bytes_nat[of ?t b'] n l assms(3) by simp
  ultimately show ?thesis using bytes_nat_inject[OF l] b' by (auto simp: incrementBytes_def)
qed

lemma copy_into_id [simp]: "length b = n \<Longrightarrow> copy_into n b = b"
  by (simp add: copy_into_def)

lemma length_copy_into [simp]: "length (copy_into n b) = n"
  by (simp add: copy_into_def)

end
