(* ===== verification/Go_Heap.thy ===== *)
theory Go_Heap
  imports Prelude "HOL-Library.Multiset"
begin

text \<open>
  Go's \<^verbatim>\<open>container/heap\<close> on a slice, as the query cursors of \<^verbatim>\<open>pebble_storage.go\<close> use it: the array
  heap with its sift-up and sift-down loops. The lemmas show that every operation keeps the
  elements and the heap order, and that the first slot holds a least element.
\<close>

section \<open>Operations\<close>

definition swap :: "'a list \<Rightarrow> nat \<Rightarrow> nat \<Rightarrow> 'a list" where
  "swap xs i j = xs[i := xs ! j, j := xs ! i]"

text \<open>\<open>heap_down lt i n xs\<close> also returns the index the element ends at.\<close>

function heap_down :: "('a \<Rightarrow> 'a \<Rightarrow> bool) \<Rightarrow> nat \<Rightarrow> nat \<Rightarrow> 'a list \<Rightarrow> 'a list \<times> nat" where
  "heap_down lt i n xs =
     (let j1 = 2 * i + 1 in
      if j1 \<ge> n then (xs, i)
      else let j = (if j1 + 1 < n \<and> lt (xs ! (j1 + 1)) (xs ! j1) then j1 + 1 else j1) in
        if \<not> lt (xs ! j) (xs ! i) then (xs, i) else heap_down lt j n (swap xs i j))"
  by pat_completeness auto
termination
  by (relation "measure (\<lambda>(lt, i, n, xs). n - i)") (auto simp: Let_def)

function heap_up :: "('a \<Rightarrow> 'a \<Rightarrow> bool) \<Rightarrow> nat \<Rightarrow> 'a list \<Rightarrow> 'a list" where
  "heap_up lt j xs =
     (let i = (j - 1) div 2 in
      if i = j \<or> \<not> lt (xs ! j) (xs ! i) then xs else heap_up lt i (swap xs i j))"
  by pat_completeness auto
termination
  by (relation "measure (\<lambda>(lt, j, xs). j)") (auto simp: Let_def)

declare heap_down.simps [simp del] heap_up.simps [simp del]

fun init_loop :: "('a \<Rightarrow> 'a \<Rightarrow> bool) \<Rightarrow> nat \<Rightarrow> nat \<Rightarrow> 'a list \<Rightarrow> 'a list" where
  "init_loop lt 0 n xs = xs"
| "init_loop lt (Suc i) n xs = init_loop lt i n (fst (heap_down lt i n xs))"

definition heap_init :: "('a \<Rightarrow> 'a \<Rightarrow> bool) \<Rightarrow> 'a list \<Rightarrow> 'a list" where
  "heap_init lt xs = init_loop lt (length xs div 2) (length xs) xs"

definition heap_push :: "('a \<Rightarrow> 'a \<Rightarrow> bool) \<Rightarrow> 'a list \<Rightarrow> 'a \<Rightarrow> 'a list" where
  "heap_push lt xs x = heap_up lt (length xs) (xs @ [x])"

definition heap_pop :: "('a \<Rightarrow> 'a \<Rightarrow> bool) \<Rightarrow> 'a list \<Rightarrow> 'a \<times> 'a list" where
  "heap_pop lt xs =
     (let n = length xs - 1; ys = fst (heap_down lt 0 n (swap xs 0 n)) in (ys ! n, take n ys))"

definition heap_fix :: "('a \<Rightarrow> 'a \<Rightarrow> bool) \<Rightarrow> 'a list \<Rightarrow> nat \<Rightarrow> 'a list" where
  "heap_fix lt xs i =
     (case heap_down lt i (length xs) xs of (ys, i') \<Rightarrow> if i' > i then ys else heap_up lt i ys)"

section \<open>Heap order\<close>

abbreviation by_key :: "('a \<Rightarrow> 'b::linorder) \<Rightarrow> 'a \<Rightarrow> 'a \<Rightarrow> bool" where
  "by_key k a b \<equiv> k a < k b"

abbreviation parent :: "nat \<Rightarrow> nat" where
  "parent c \<equiv> (c - 1) div 2"

text \<open>Every child below \<open>n\<close> whose parent is at least \<open>lo\<close> respects the order.\<close>

definition heap_from :: "nat \<Rightarrow> nat \<Rightarrow> ('a \<Rightarrow> 'b::linorder) \<Rightarrow> 'a list \<Rightarrow> bool" where
  "heap_from lo n k xs \<longleftrightarrow> (\<forall>c. 0 < c \<and> c < n \<and> lo \<le> parent c \<longrightarrow> k (xs ! parent c) \<le> k (xs ! c))"

definition is_heap :: "('a \<Rightarrow> 'b::linorder) \<Rightarrow> 'a list \<Rightarrow> bool" where
  "is_heap k xs \<longleftrightarrow> heap_from 0 (length xs) k xs"

lemma heap_fromD: "heap_from lo n k xs \<Longrightarrow> 0 < c \<Longrightarrow> c < n \<Longrightarrow> lo \<le> parent c \<Longrightarrow> k (xs ! parent c) \<le> k (xs ! c)"
  by (simp add: heap_from_def)

lemma heap_top: "heap_from 0 n k xs \<Longrightarrow> c < n \<Longrightarrow> k (xs ! 0) \<le> k (xs ! c)"
proof (induction c rule: less_induct)
  case (less c)
  show ?case
  proof (cases "c = 0")
    case False
    then have "parent c < c" by linarith
    with less False have "k (xs ! 0) \<le> k (xs ! parent c)" by simp
    also have "\<dots> \<le> k (xs ! c)" using less False by (intro heap_fromD[of 0 n]) simp_all
    finally show ?thesis .
  qed simp
qed

lemma is_heap_least: "is_heap k xs \<Longrightarrow> x \<in> set xs \<Longrightarrow> k (xs ! 0) \<le> k x"
  by (auto simp: is_heap_def in_set_conv_nth intro: heap_top)

lemma length_swap [simp]: "length (swap xs i j) = length xs"
  by (simp add: swap_def)

lemma mset_swap_eq: "i < length xs \<Longrightarrow> j < length xs \<Longrightarrow> mset (swap xs i j) = mset xs"
  by (simp add: swap_def mset_swap)

lemma nth_swap:
  "i < length xs \<Longrightarrow> j < length xs \<Longrightarrow> c < length xs \<Longrightarrow>
    swap xs i j ! c = (if c = j then xs ! i else if c = i then xs ! j else xs ! c)"
  by (simp add: swap_def nth_list_update)

lemma parent_eq_iff: "0 < c \<Longrightarrow> parent c = i \<longleftrightarrow> c = 2 * i + 1 \<or> c = 2 * i + 2"
  by (cases c) (simp, simp, linarith)

section \<open>Sifting down\<close>

lemma heap_down_bounds:
  assumes "n \<le> length xs"
  shows "length (fst (heap_down lt i n xs)) = length xs"
    and "mset (fst (heap_down lt i n xs)) = mset xs"
    and "n \<le> c \<Longrightarrow> c < length xs \<Longrightarrow> fst (heap_down lt i n xs) ! c = xs ! c"
    and "i \<le> snd (heap_down lt i n xs)"
    and "snd (heap_down lt i n xs) = i \<Longrightarrow> fst (heap_down lt i n xs) = xs"
proof -
  have "length (fst (heap_down lt i n xs)) = length xs \<and> mset (fst (heap_down lt i n xs)) = mset xs \<and>
      (\<forall>c. n \<le> c \<and> c < length xs \<longrightarrow> fst (heap_down lt i n xs) ! c = xs ! c) \<and>
      i \<le> snd (heap_down lt i n xs) \<and> (snd (heap_down lt i n xs) = i \<longrightarrow> fst (heap_down lt i n xs) = xs)"
    using assms
  proof (induction lt i n xs rule: heap_down.induct)
    case (1 lt i n xs)
    define j where "j = (if 2 * i + 1 + 1 < n \<and> lt (xs ! (2 * i + 1 + 1)) (xs ! (2 * i + 1)) then 2 * i + 1 + 1 else 2 * i + 1)"
    show ?case
    proof (cases "2 * i + 1 \<ge> n \<or> \<not> lt (xs ! j) (xs ! i)")
      case True
      then have "heap_down lt i n xs = (xs, i)" by (subst heap_down.simps) (auto simp: Let_def j_def)
      then show ?thesis by simp
    next
      case False
      then have eq: "heap_down lt i n xs = heap_down lt j n (swap xs i j)"
        by (subst heap_down.simps) (auto simp: Let_def j_def)
      have ij: "i < j" "j < n" using False by (auto simp: j_def)
      with 1(1)[OF refl _ j_def] False 1(2)
      have "length (fst (heap_down lt j n (swap xs i j))) = length (swap xs i j) \<and>
        mset (fst (heap_down lt j n (swap xs i j))) = mset (swap xs i j) \<and>
        (\<forall>c. n \<le> c \<and> c < length (swap xs i j) \<longrightarrow> fst (heap_down lt j n (swap xs i j)) ! c = swap xs i j ! c) \<and>
        j \<le> snd (heap_down lt j n (swap xs i j))" by simp
      with ij 1(2) show ?thesis unfolding eq by (auto simp: mset_swap_eq nth_swap)
    qed
  qed
  then show "length (fst (heap_down lt i n xs)) = length xs" "mset (fst (heap_down lt i n xs)) = mset xs"
    "n \<le> c \<Longrightarrow> c < length xs \<Longrightarrow> fst (heap_down lt i n xs) ! c = xs ! c"
    "i \<le> snd (heap_down lt i n xs)"
    "snd (heap_down lt i n xs) = i \<Longrightarrow> fst (heap_down lt i n xs) = xs" by auto
qed

lemma heap_down_heap:
  assumes "n \<le> length xs" "lo \<le> i"
    and "\<And>c. 0 < c \<Longrightarrow> c < n \<Longrightarrow> lo \<le> parent c \<Longrightarrow> parent c \<noteq> i \<Longrightarrow> k (xs ! parent c) \<le> k (xs ! c)"
    and "\<And>c. 0 < c \<Longrightarrow> c < n \<Longrightarrow> parent c = i \<Longrightarrow> 0 < i \<Longrightarrow> lo \<le> parent i \<Longrightarrow> k (xs ! parent i) \<le> k (xs ! c)"
  shows "heap_from lo n k (fst (heap_down (by_key k) i n xs))"
  using assms
proof (induction "by_key k" i n xs rule: heap_down.induct)
  case (1 i n xs)
  define j where "j = (if 2 * i + 1 + 1 < n \<and> by_key k (xs ! (2 * i + 1 + 1)) (xs ! (2 * i + 1)) then 2 * i + 1 + 1 else 2 * i + 1)"
  have least: "k (xs ! j) \<le> k (xs ! c)" if "0 < c" "c < n" "parent c = i" for c
    using that parent_eq_iff[of c i] by (auto simp: j_def)
  show ?case
  proof (cases "2 * i + 1 \<ge> n \<or> \<not> by_key k (xs ! j) (xs ! i)")
    case True
    then have eq: "heap_down (by_key k) i n xs = (xs, i)" by (subst heap_down.simps) (auto simp: Let_def j_def)
    have "k (xs ! parent c) \<le> k (xs ! c)" if c: "0 < c" "c < n" "lo \<le> parent c" for c
    proof (cases "parent c = i")
      case pc: True
      with True c parent_eq_iff[of c i] have "k (xs ! i) \<le> k (xs ! j)" by auto
      with least[OF c(1,2) pc] pc show ?thesis by simp
    qed (use 1(4) c in simp)
    with eq show ?thesis by (simp add: heap_from_def)
  next
    case False
    then have eq: "heap_down (by_key k) i n xs = heap_down (by_key k) j n (swap xs i j)"
      by (subst heap_down.simps) (auto simp: Let_def j_def)
    have ij: "i < j" "j < n" "0 < j" "parent j = i" using False by (auto simp: j_def)
    have nth: "swap xs i j ! c = (if c = j then xs ! i else if c = i then xs ! j else xs ! c)" if "c < n" for c
      using that ij 1(2) by (intro nth_swap) simp_all
    have pn: "parent c < n" if "c < n" for c using that by linarith
    have ord: "k (xs ! j) < k (xs ! i)" using False by simp
    have "heap_from lo n k (fst (heap_down (by_key k) j n (swap xs i j)))"
    proof (rule 1(1)[OF refl _ j_def])
      fix c assume c: "0 < c" "c < n" "lo \<le> parent c" "parent c \<noteq> j"
      show "k (swap xs i j ! parent c) \<le> k (swap xs i j ! c)"
      proof (cases "parent c = i")
        case True
        then have "c \<noteq> i" using c(1) by linarith
        with True least[OF c(1,2) True] ord ij show ?thesis using nth[OF c(2)] nth[OF pn[OF c(2)]] by auto
      next
        case pi: False
        then have "c \<noteq> j" using ij by auto
        show ?thesis
        proof (cases "c = i")
          case True
          with 1(5)[of j] ij c have "k (xs ! parent i) \<le> k (xs ! j)" by auto
          with True pi c ij show ?thesis using nth[OF c(2)] nth[OF pn[OF c(2)]] by auto
        next
          case False
          with \<open>c \<noteq> j\<close> pi c 1(4)[OF c(1-3)] show ?thesis using nth[OF c(2)] nth[OF pn[OF c(2)]] by auto
        qed
      qed
    next
      fix c assume c: "0 < c" "c < n" "parent c = j"
      then have "c \<noteq> j" "c \<noteq> i" "parent c \<noteq> i" "j < c" using ij by linarith+
      moreover have "k (xs ! parent c) \<le> k (xs ! c)"
        using 1(4)[OF c(1,2)] c(3) ij 1(3) by simp
      ultimately show "k (swap xs i j ! parent j) \<le> k (swap xs i j ! c)"
        using nth[OF c(2)] nth[of i] ij c by auto
    qed (use False 1(2,3) ij in \<open>auto simp: j_def\<close>)
    with eq show ?thesis by simp
  qed
qed

section \<open>Sifting up\<close>

lemma heap_up_bounds:
  "j < length xs \<Longrightarrow> length (heap_up lt j xs) = length xs \<and> mset (heap_up lt j xs) = mset xs"
proof (induction lt j xs rule: heap_up.induct)
  case (1 lt j xs)
  then show ?case
    by (subst (1 2) heap_up.simps) (auto simp: Let_def mset_swap_eq)
qed

lemma heap_up_heap:
  assumes "j < length xs"
    and "\<And>c. 0 < c \<Longrightarrow> c < length xs \<Longrightarrow> c \<noteq> j \<Longrightarrow> k (xs ! parent c) \<le> k (xs ! c)"
    and "\<And>c. 0 < c \<Longrightarrow> c < length xs \<Longrightarrow> parent c = j \<Longrightarrow> 0 < j \<Longrightarrow> k (xs ! parent j) \<le> k (xs ! c)"
  shows "is_heap k (heap_up (by_key k) j xs)"
  using assms
proof (induction "by_key k" j xs rule: heap_up.induct)
  case (1 j xs)
  show ?case
  proof (cases "parent j = j \<or> \<not> by_key k (xs ! j) (xs ! parent j)")
    case True
    then have eq: "heap_up (by_key k) j xs = xs" by (subst heap_up.simps) (auto simp: Let_def)
    have "k (xs ! parent c) \<le> k (xs ! c)" if c: "0 < c" "c < length xs" for c
    proof (cases "c = j")
      case cj: True
      with c have "parent j \<noteq> j" by linarith
      with True cj show ?thesis by auto
    qed (use 1(3) c in simp)
    then show ?thesis by (simp add: eq is_heap_def heap_from_def)
  next
    case False
    then have eq: "heap_up (by_key k) j xs = heap_up (by_key k) (parent j) (swap xs (parent j) j)"
      by (subst heap_up.simps) (auto simp: Let_def)
    have j: "0 < j" "parent j < j" using False by (cases "j = 0", simp, linarith)+
    have nth: "swap xs (parent j) j ! c = (if c = j then xs ! parent j else if c = parent j then xs ! j else xs ! c)"
      if "c < length xs" for c
      using that j 1(2) by (intro nth_swap) simp_all
    have ord: "k (xs ! j) < k (xs ! parent j)" using False by simp
    have "is_heap k (heap_up (by_key k) (parent j) (swap xs (parent j) j))"
    proof (rule 1(1)[OF refl])
      fix c assume c: "0 < c" "c < length (swap xs (parent j) j)" "c \<noteq> parent j"
      then have "c < length xs" by simp
      moreover from this have "parent c < length xs" by linarith
      ultimately have cl: "c < length xs" "parent c < length xs" by blast+
      show "k (swap xs (parent j) j ! parent c) \<le> k (swap xs (parent j) j ! c)"
      proof (cases "c = j")
        case True
        then show ?thesis using ord nth[OF cl(1)] nth[OF cl(2)] j by auto
      next
        case cj: False
        consider "parent c = j" | "parent c = parent j" "parent c \<noteq> j" | "parent c \<noteq> j" "parent c \<noteq> parent j" by blast
        then show ?thesis
        proof cases
          case 1
          then show ?thesis using "1.prems"(3)[OF c(1) cl(1) _ j(1)] cj c nth[OF cl(1)] nth[OF cl(2)] by auto
        next
          case 2
          have "k (xs ! parent c) \<le> k (xs ! c)" using "1.prems"(2) c cl cj by simp
          with 2 ord cj c show ?thesis using nth[OF cl(1)] nth[OF cl(2)] by auto
        next
          case 3
          have "k (xs ! parent c) \<le> k (xs ! c)" using "1.prems"(2) c cl cj by simp
          with 3 cj c show ?thesis using nth[OF cl(1)] nth[OF cl(2)] by auto
        qed
      qed
    next
      fix c assume c: "0 < c" "c < length (swap xs (parent j) j)" "parent c = parent j" "0 < parent j"
      let ?p = "parent (parent j)"
      have pl: "?p < length xs" "parent j < length xs" "?p < parent j" using j 1(2) c(4) by linarith+
      have pp: "k (xs ! ?p) \<le> k (xs ! parent j)" using "1.prems"(2)[of "parent j"] c(4) pl j by simp
      have "k (swap xs (parent j) j ! ?p) = k (xs ! ?p)" using nth[OF pl(1)] pl j by auto
      moreover have "k (xs ! ?p) \<le> k (swap xs (parent j) j ! c)"
      proof (cases "c = j")
        case True
        then show ?thesis using pp nth[of c] c by auto
      next
        case False
        have "parent c < c" using c(1) by linarith
        then have "k (xs ! parent c) \<le> k (xs ! c)" "c \<noteq> parent j" using "1.prems"(2)[of c] c False by auto
        with pp False c show ?thesis using nth[of c] by auto
      qed
      ultimately show "k (swap xs (parent j) j ! ?p) \<le> k (swap xs (parent j) j ! c)" by simp
    qed (use False j 1(2) in auto)
    with eq show ?thesis by simp
  qed
qed


section \<open>The heap operations\<close>

lemma heap_down_at:
  assumes "n \<le> length xs" "heap_from (Suc i) n k xs"
  shows "heap_from i n k (fst (heap_down (by_key k) i n xs))"
proof (rule heap_down_heap[OF assms(1)])
  fix c assume "0 < c" "c < n" "i \<le> parent c" "parent c \<noteq> i"
  then show "k (xs ! parent c) \<le> k (xs ! c)" by (intro heap_fromD[OF assms(2)]) simp_all
next
  assume "0 < i" "i \<le> parent i"
  then show "k (xs ! parent i) \<le> k (xs ! c)" for c by linarith
qed simp

lemma init_loop_spec:
  "n \<le> length xs \<Longrightarrow> heap_from i n k xs \<Longrightarrow>
    heap_from 0 n k (init_loop (by_key k) i n xs) \<and> length (init_loop (by_key k) i n xs) = length xs \<and>
    mset (init_loop (by_key k) i n xs) = mset xs"
  by (induction i arbitrary: xs) (simp_all add: heap_down_bounds heap_down_at)

lemma heap_init:
  "is_heap k (heap_init (by_key k) xs)" "mset (heap_init lt xs) = mset xs"
proof -
  have "heap_from (length xs div 2) (length xs) k xs"
    unfolding heap_from_def by (intro allI impI) linarith
  from init_loop_spec[OF order_refl this] show "is_heap k (heap_init (by_key k) xs)"
    by (simp add: heap_init_def is_heap_def)
  have "n \<le> length ys \<Longrightarrow> length (init_loop lt i n ys) = length ys \<and> mset (init_loop lt i n ys) = mset ys" for i n ys
    by (induction i arbitrary: ys) (simp_all add: heap_down_bounds)
  then show "mset (heap_init lt xs) = mset xs" by (simp add: heap_init_def)
qed

lemma heap_push:
  assumes "is_heap k xs"
  shows "is_heap k (heap_push (by_key k) xs x)" "mset (heap_push (by_key k) xs x) = add_mset x (mset xs)"
proof -
  have "k ((xs @ [x]) ! parent c) \<le> k ((xs @ [x]) ! c)" if "0 < c" "c < length (xs @ [x])" "c \<noteq> length xs" for c
  proof -
    have "c < length xs" using that by simp
    moreover from this have "parent c < length xs" by linarith
    ultimately show ?thesis using that assms by (auto simp: nth_append is_heap_def heap_from_def)
  qed
  moreover have "parent c \<noteq> length xs" if "0 < c" "c < length (xs @ [x])" for c
  proof -
    have "c < Suc (length xs)" using that(2) by simp
    with that(1) show ?thesis by linarith
  qed
  ultimately show "is_heap k (heap_push (by_key k) xs x)"
    unfolding heap_push_def by (intro heap_up_heap) auto
  show "mset (heap_push (by_key k) xs x) = add_mset x (mset xs)"
    using heap_up_bounds[of "length xs" "xs @ [x]"] by (simp add: heap_push_def)
qed

lemma heap_fix_root:
  assumes "xs \<noteq> []" "heap_from 1 (length xs) k xs"
  shows "is_heap k (heap_fix (by_key k) xs 0)" "mset (heap_fix (by_key k) xs 0) = mset xs"
proof -
  let ?d = "heap_down (by_key k) 0 (length xs) xs"
  have up: "heap_up (by_key k) 0 ys = ys" for ys by (subst heap_up.simps) simp
  have "heap_fix (by_key k) xs 0 = fst ?d"
    by (simp add: heap_fix_def up split: prod.splits)
  with heap_down_at[of "length xs" xs 0 k] assms
  show "is_heap k (heap_fix (by_key k) xs 0)" "mset (heap_fix (by_key k) xs 0) = mset xs"
    by (simp_all add: is_heap_def heap_down_bounds)
qed

lemma is_heap_weaken: "is_heap k xs \<Longrightarrow> heap_from 1 (length xs) k xs"
  by (simp add: is_heap_def heap_from_def)

text \<open>The root may be overwritten by any element before it is fixed or popped.\<close>

lemma heap_from_root:
  assumes "is_heap k (x # xs)" shows "heap_from 1 (length (y # xs)) k (y # xs)"
proof (unfold heap_from_def, intro allI impI, elim conjE)
  fix c assume c: "0 < c" "c < length (y # xs)" "1 \<le> parent c"
  have "k ((x # xs) ! parent c) \<le> k ((x # xs) ! c)"
    using heap_fromD[of 0 "length (x # xs)" k "x # xs" c] assms c by (simp add: is_heap_def)
  moreover have "(y # xs) ! parent c = (x # xs) ! parent c" "(y # xs) ! c = (x # xs) ! c"
    using c by (auto simp: nth_Cons split: nat.split)
  ultimately show "k ((y # xs) ! parent c) \<le> k ((y # xs) ! c)" by simp
qed

lemma heap_pop:
  assumes "heap_from 1 (length xs) k xs" "xs \<noteq> []" "heap_pop (by_key k) xs = (x, ys)"
  shows "x = xs ! 0" "is_heap k ys" "mset xs = add_mset x (mset ys)"
proof -
  define n where "n = length xs - 1"
  have n: "n < length xs" "Suc n = length xs" using assms(2) by (auto simp: n_def)
  let ?s = "swap xs 0 n"
  let ?d = "fst (heap_down (by_key k) 0 n ?s)"
  have xy: "x = ?d ! n" "ys = take n ?d" using assms(3) by (auto simp: heap_pop_def Let_def n_def)
  have len: "length ?d = Suc n" using n by (simp add: heap_down_bounds)
  have dn: "?d ! n = xs ! 0"
    using heap_down_bounds(3)[of n ?s n "by_key k" 0] nth_swap[of 0 xs n n] n assms(2) by simp
  with xy show "x = xs ! 0" by simp
  have "heap_from 1 n k ?s"
  proof (unfold heap_from_def, intro allI impI, elim conjE)
    fix c assume c: "0 < c" "c < n" "1 \<le> parent c"
    then have "parent c < n" "parent c \<noteq> 0" by linarith+
    moreover have "k (xs ! parent c) \<le> k (xs ! c)"
      using heap_fromD[OF assms(1), of c] c n by simp
    moreover have "?s ! d = xs ! d" if "d < n" "d \<noteq> 0" for d using that n by (subst nth_swap) auto
    ultimately show "k (?s ! parent c) \<le> k (?s ! c)" using c by simp
  qed
  then have h: "heap_from 0 n k ?d" using heap_down_at[of n ?s 0 k] n by simp
  show "is_heap k ys"
  proof (unfold is_heap_def heap_from_def, intro allI impI, elim conjE)
    fix c assume c: "0 < c" "c < length ys"
    then have cn: "c < n" using len xy(2) by simp
    then have "parent c < n" by linarith
    with cn heap_fromD[OF h c(1)] show "k (ys ! parent c) \<le> k (ys ! c)" by (simp add: xy(2))
  qed
  have "?d = ys @ [x]"
    using len xy by (metis lessI take_Suc_conv_app_nth take_all_iff order_refl)
  then show "mset xs = add_mset x (mset ys)"
    using heap_down_bounds(2)[of n ?s "by_key k" 0] n assms(2) by (simp add: mset_swap_eq)
qed

end
