(* ===== verification/Pebble_Cursor.thy ===== *)
theory Pebble_Cursor
  imports Pebble_Keys Go_Heap
begin

text \<open>
  The query cursors of \<^verbatim>\<open>pebble_storage.go\<close>. A cursor produces pairs of inverted timestamp and
  event identifier in ascending order; its interface is the record \<open>cursor_ops\<close> and its contract
  the locale \<open>cursor\<close>, stated over the list of pairs still to come. The leaves are a database
  iterator and a sorted slice, the inner nodes an OR by a heap and an AND by a sort-merge join.

  The interface values of Go are layered by type: \<open>'l\<close> for a leaf, \<open>'l wrapped\<close> for what
  \<^verbatim>\<open>wrapCursors\<close> returns, and \<open>'l queryCursor\<close> for what \<^verbatim>\<open>buildFilterCursor\<close> returns. \<open>None\<close> as
  the result of an operation is a panic or a loop that does not end.
\<close>

type_synonym entry = "64 word \<times> string"

section \<open>The interface\<close>

text \<open>\<open>cHead\<close> is \<^verbatim>\<open>InvertedTS\<close> with \<^verbatim>\<open>EventID\<close>; the Boolean is what the method returns.\<close>

record 'c cursor_ops =
  cValid :: "'c \<Rightarrow> bool"
  cHead :: "'c \<Rightarrow> entry"
  cNext :: "'c \<Rightarrow> ('c \<times> bool) option"
  cSeekGE :: "entry \<Rightarrow> 'c \<Rightarrow> ('c \<times> bool) option"

definition cursor_lt :: "'c cursor_ops \<Rightarrow> 'c \<Rightarrow> 'c \<Rightarrow> bool" where
  "cursor_lt ops a b =
     (if fst (cHead ops a) \<noteq> fst (cHead ops b) then fst (cHead ops a) < fst (cHead ops b)
      else bytesLess (snd (cHead ops a)) (snd (cHead ops b)))"

lemma cursor_lt_key: "cursor_lt ops = by_key (cHead ops)"
  by (intro ext) (auto simp: cursor_lt_def bytesLess_less less_prod_def)

section \<open>A database iterator\<close>

text \<open>
  The iterator of \<^verbatim>\<open>github.com/cockroachdb/pebble\<close> is a parameter: \<^verbatim>\<open>First\<close>, \<^verbatim>\<open>Next\<close> and \<^verbatim>\<open>SeekGE\<close>
  move it and report whether it stands on a key.
\<close>

record 'it iter_ops =
  itFirst :: "'it \<Rightarrow> 'it \<times> bool"
  itNext :: "'it \<Rightarrow> 'it \<times> bool"
  itSeekGE :: "string \<Rightarrow> 'it \<Rightarrow> 'it \<times> bool"
  itKey :: "'it \<Rightarrow> string"

record 'it indexCursor =
  ixIter :: 'it
  seekPrefix :: string
  timestampOffset :: nat
  eventIDOffset :: nat
  curEntry :: entry
  curValid :: bool

text \<open>A key that is too short makes the slice expressions of \<^verbatim>\<open>readCurrent\<close> panic.\<close>

definition readCurrent :: "('it, 'z) iter_ops_scheme \<Rightarrow> 'it indexCursor \<Rightarrow> 'it indexCursor option" where
  "readCurrent I c =
     (let key = itKey I (ixIter c) in
      if length key < timestampOffset c + 8 \<or> length key < eventIDOffset c + 32 then None
      else Some (c\<lparr>curEntry := (Uint64 (take 8 (drop (timestampOffset c) key)),
                                copy_into 32 (take 32 (drop (eventIDOffset c) key))),
                   curValid := True\<rparr>))"

definition newIndexCursor :: "('it, 'z) iter_ops_scheme \<Rightarrow> 'it \<Rightarrow> string \<Rightarrow> nat \<Rightarrow> nat \<Rightarrow> 'it indexCursor option" where
  "newIndexCursor I it pfx tsOff idOff =
     (case itFirst I it of (it', ok) \<Rightarrow>
        let c = \<lparr>ixIter = it', seekPrefix = pfx, timestampOffset = tsOff, eventIDOffset = idOff,
                 curEntry = (0, []), curValid = False\<rparr>
        in if ok then readCurrent I c else Some c)"

definition index_moved :: "('it, 'z) iter_ops_scheme \<Rightarrow> 'it indexCursor \<Rightarrow> 'it \<times> bool \<Rightarrow> ('it indexCursor \<times> bool) option" where
  "index_moved I c r =
     (case r of (it', ok) \<Rightarrow>
        if \<not> ok then Some (c\<lparr>ixIter := it', curValid := False\<rparr>, False)
        else map_option (\<lambda>c'. (c', True)) (readCurrent I (c\<lparr>ixIter := it'\<rparr>)))"

definition indexNext :: "('it, 'z) iter_ops_scheme \<Rightarrow> 'it indexCursor \<Rightarrow> ('it indexCursor \<times> bool) option" where
  "indexNext I c = index_moved I c (itNext I (ixIter c))"

definition indexSeekGE :: "('it, 'z) iter_ops_scheme \<Rightarrow> entry \<Rightarrow> 'it indexCursor \<Rightarrow> ('it indexCursor \<times> bool) option" where
  "indexSeekGE I e c =
     (let seekKey = seekPrefix c @ PutUint64 (fst e) @ copy_into 32 (snd e)
      in index_moved I c (itSeekGE I seekKey (ixIter c)))"

definition index_ops :: "('it, 'z) iter_ops_scheme \<Rightarrow> 'it indexCursor cursor_ops" where
  "index_ops I = \<lparr>cValid = curValid, cHead = curEntry, cNext = indexNext I, cSeekGE = indexSeekGE I\<rparr>"

section \<open>OR by a heap\<close>

text \<open>A \<^verbatim>\<open>unionCursor\<close> is its heap.\<close>

definition newUnionCursor :: "'c cursor_ops \<Rightarrow> 'c list \<Rightarrow> 'c list" where
  "newUnionCursor ops cursors = heap_init (cursor_lt ops) (filter (cValid ops) cursors)"

definition unionNext :: "'c cursor_ops \<Rightarrow> 'c list \<Rightarrow> ('c list \<times> bool) option" where
  "unionNext ops h =
     (if length h = 0 then Some (h, False)
      else case cNext ops (h ! 0) of None \<Rightarrow> None
      | Some (c', ok) \<Rightarrow>
          (let h1 = h[0 := c'];
               h2 = (if ok then heap_fix (cursor_lt ops) h1 0 else snd (heap_pop (cursor_lt ops) h1))
           in Some (h2, length h2 > 0)))"

fun seek_all :: "'c cursor_ops \<Rightarrow> entry \<Rightarrow> 'c list \<Rightarrow> 'c list option" where
  "seek_all ops e [] = Some []"
| "seek_all ops e (cur # cs) =
     (case cSeekGE ops e cur of None \<Rightarrow> None
      | Some (cur', ok) \<Rightarrow>
          (case seek_all ops e cs of None \<Rightarrow> None
           | Some newH \<Rightarrow> Some (if ok then cur' # newH else newH)))"

definition unionSeekGE :: "'c cursor_ops \<Rightarrow> entry \<Rightarrow> 'c list \<Rightarrow> ('c list \<times> bool) option" where
  "unionSeekGE ops e h =
     (case seek_all ops e h of None \<Rightarrow> None
      | Some newH \<Rightarrow>
          (let h' = (if length newH > 0 then heap_init (cursor_lt ops) newH else newH)
           in Some (h', length h' > 0)))"

datatype 'c wrapped = Single 'c | Union "'c list"

definition wrapCursors :: "'c cursor_ops \<Rightarrow> 'c list \<Rightarrow> 'c wrapped" where
  "wrapCursors ops cursors =
     (if length cursors = 1 then Single (cursors ! 0) else Union (newUnionCursor ops cursors))"

fun lift_single :: "('c \<times> bool) option \<Rightarrow> ('c wrapped \<times> bool) option" where
  "lift_single None = None"
| "lift_single (Some (c, ok)) = Some (Single c, ok)"

fun lift_union :: "('c list \<times> bool) option \<Rightarrow> ('c wrapped \<times> bool) option" where
  "lift_union None = None"
| "lift_union (Some (h, ok)) = Some (Union h, ok)"

definition wrapped_ops :: "'c cursor_ops \<Rightarrow> 'c wrapped cursor_ops" where
  "wrapped_ops ops =
     \<lparr>cValid = (\<lambda>w. case w of Single c \<Rightarrow> cValid ops c | Union h \<Rightarrow> length h > 0),
      cHead = (\<lambda>w. case w of Single c \<Rightarrow> cHead ops c | Union h \<Rightarrow> cHead ops (h ! 0)),
      cNext = (\<lambda>w. case w of Single c \<Rightarrow> lift_single (cNext ops c) | Union h \<Rightarrow> lift_union (unionNext ops h)),
      cSeekGE = (\<lambda>e w. case w of Single c \<Rightarrow> lift_single (cSeekGE ops e c) | Union h \<Rightarrow> lift_union (unionSeekGE ops e h))\<rparr>"

section \<open>AND by a sort-merge join\<close>

record 'c intersectCursor =
  cursors :: "'c list"
  ivalid :: bool

text \<open>The index of the first cursor with the largest head.\<close>

fun max_loop :: "'c cursor_ops \<Rightarrow> 'c list \<Rightarrow> nat \<Rightarrow> nat list \<Rightarrow> nat" where
  "max_loop ops cs maxIdx [] = maxIdx"
| "max_loop ops cs maxIdx (i # is) =
     max_loop ops cs
       (if fst (cHead ops (cs ! i)) > fst (cHead ops (cs ! maxIdx)) \<or>
           fst (cHead ops (cs ! i)) = fst (cHead ops (cs ! maxIdx)) \<and>
             bytesLess (snd (cHead ops (cs ! maxIdx))) (snd (cHead ops (cs ! i)))
        then i else maxIdx) is"

text \<open>
  The loop that seeks every other cursor to the maximum. The flag is \<^verbatim>\<open>allMatch\<close>; a cursor that
  runs out ends the loop with no flag.
\<close>

fun seek_others :: "'c cursor_ops \<Rightarrow> entry \<Rightarrow> nat \<Rightarrow> nat \<Rightarrow> bool \<Rightarrow> 'c list \<Rightarrow> ('c list \<times> bool option) option" where
  "seek_others ops e maxIdx i allMatch [] = Some ([], Some allMatch)"
| "seek_others ops e maxIdx i allMatch (cur # cs) =
     (if i = maxIdx \<or> cHead ops cur = e then
        (case seek_others ops e maxIdx (i + 1) allMatch cs of None \<Rightarrow> None
         | Some (cs', r) \<Rightarrow> Some (cur # cs', r))
      else case cSeekGE ops e cur of None \<Rightarrow> None
      | Some (cur', ok) \<Rightarrow>
          if \<not> ok then Some (cur' # cs, None)
          else (case seek_others ops e maxIdx (i + 1) (allMatch \<and> cHead ops cur' = e) cs of None \<Rightarrow> None
                | Some (cs', r) \<Rightarrow> Some (cur' # cs', r)))"

partial_function (option) findMatch :: "'c cursor_ops \<Rightarrow> 'c list \<Rightarrow> ('c list \<times> bool) option" where
  "findMatch ops cs =
     (if \<not> list_all (cValid ops) cs then Some (cs, False)
      else let maxIdx = max_loop ops cs 0 [1..<length cs] in
        case seek_others ops (cHead ops (cs ! maxIdx)) maxIdx 0 True cs of None \<Rightarrow> None
        | Some (cs', r) \<Rightarrow>
            (case r of None \<Rightarrow> Some (cs', False)
             | Some allMatch \<Rightarrow> if allMatch then Some (cs', True) else findMatch ops cs'))"

definition matched :: "('c list \<times> bool) option \<Rightarrow> ('c intersectCursor \<times> bool) option" where
  "matched r = (case r of None \<Rightarrow> None | Some (cs, v) \<Rightarrow> Some (\<lparr>cursors = cs, ivalid = v\<rparr>, v))"

definition newIntersectCursor :: "'c cursor_ops \<Rightarrow> 'c list \<Rightarrow> 'c intersectCursor option" where
  "newIntersectCursor ops cs = map_option fst (matched (findMatch ops cs))"

definition intersectNext :: "'c cursor_ops \<Rightarrow> 'c intersectCursor \<Rightarrow> ('c intersectCursor \<times> bool) option" where
  "intersectNext ops c =
     (if \<not> ivalid c then Some (c, False)
      else case cNext ops (cursors c ! 0) of None \<Rightarrow> None
      | Some (c0, ok) \<Rightarrow>
          if \<not> ok then Some (c\<lparr>cursors := (cursors c)[0 := c0], ivalid := False\<rparr>, False)
          else matched (findMatch ops ((cursors c)[0 := c0])))"

fun seek_each :: "'c cursor_ops \<Rightarrow> entry \<Rightarrow> 'c list \<Rightarrow> ('c list \<times> bool) option" where
  "seek_each ops e [] = Some ([], True)"
| "seek_each ops e (cur # cs) =
     (case cSeekGE ops e cur of None \<Rightarrow> None
      | Some (cur', ok) \<Rightarrow>
          if \<not> ok then Some (cur' # cs, False)
          else (case seek_each ops e cs of None \<Rightarrow> None | Some (cs', r) \<Rightarrow> Some (cur' # cs', r)))"

definition intersectSeekGE :: "'c cursor_ops \<Rightarrow> entry \<Rightarrow> 'c intersectCursor \<Rightarrow> ('c intersectCursor \<times> bool) option" where
  "intersectSeekGE ops e c =
     (case seek_each ops e (cursors c) of None \<Rightarrow> None
      | Some (cs, ok) \<Rightarrow>
          if \<not> ok then Some (c\<lparr>cursors := cs, ivalid := False\<rparr>, False)
          else matched (findMatch ops cs))"

definition intersect_ops :: "'c cursor_ops \<Rightarrow> 'c intersectCursor cursor_ops" where
  "intersect_ops ops =
     \<lparr>cValid = ivalid, cHead = (\<lambda>c. cHead ops (cursors c ! 0)), cNext = intersectNext ops, cSeekGE = intersectSeekGE ops\<rparr>"

section \<open>A sorted slice\<close>

record sliceCursor =
  entries :: "entry list"
  pos :: nat

definition newSliceCursor :: "entry list \<Rightarrow> sliceCursor" where
  "newSliceCursor es = \<lparr>entries = es, pos = 0\<rparr>"

definition sliceNext :: "sliceCursor \<Rightarrow> (sliceCursor \<times> bool) option" where
  "sliceNext c = (let c' = c\<lparr>pos := pos c + 1\<rparr> in Some (c', pos c' < length (entries c')))"

text \<open>\<^verbatim>\<open>sort.Search\<close>: binary search between \<open>i\<close> and \<open>j\<close>.\<close>

function search_loop :: "(nat \<Rightarrow> bool) \<Rightarrow> nat \<Rightarrow> nat \<Rightarrow> nat" where
  "search_loop f i j =
     (if i < j then let h = (i + j) div 2 in if \<not> f h then search_loop f (h + 1) j else search_loop f i h
      else i)"
  by pat_completeness auto
termination
  by (relation "measure (\<lambda>(f, i, j). j - i)") auto

declare search_loop.simps [simp del]

definition sortSearch :: "nat \<Rightarrow> (nat \<Rightarrow> bool) \<Rightarrow> nat" where
  "sortSearch n f = search_loop f 0 n"

definition sliceSeekGE :: "entry \<Rightarrow> sliceCursor \<Rightarrow> (sliceCursor \<times> bool) option" where
  "sliceSeekGE target c =
     (if length (entries c) < pos c then None
      else
        let remaining = drop (pos c) (entries c);
            idx = sortSearch (length remaining) (\<lambda>i. let e = remaining ! i in
              if fst e \<noteq> fst target then fst e \<ge> fst target else snd e \<ge> snd target);
            c' = c\<lparr>pos := pos c + idx\<rparr>
        in Some (c', pos c' < length (entries c')))"

definition slice_ops :: "sliceCursor cursor_ops" where
  "slice_ops = \<lparr>cValid = (\<lambda>c. pos c < length (entries c)), cHead = (\<lambda>c. entries c ! pos c),
     cNext = sliceNext, cSeekGE = sliceSeekGE\<rparr>"

section \<open>What a filter is answered from\<close>

datatype 'l queryCursor = ByIDs sliceCursor | OneCondition "'l wrapped" | AllConditions "'l wrapped intersectCursor"

definition lift_cursor :: "('a \<Rightarrow> 'l queryCursor) \<Rightarrow> ('a \<times> bool) option \<Rightarrow> ('l queryCursor \<times> bool) option" where
  "lift_cursor C r = map_option (\<lambda>(c, ok). (C c, ok)) r"

definition query_ops :: "'l cursor_ops \<Rightarrow> 'l queryCursor cursor_ops" where
  "query_ops ops =
     \<lparr>cValid = (\<lambda>q. case q of ByIDs s \<Rightarrow> cValid slice_ops s | OneCondition w \<Rightarrow> cValid (wrapped_ops ops) w
                   | AllConditions c \<Rightarrow> cValid (intersect_ops (wrapped_ops ops)) c),
      cHead = (\<lambda>q. case q of ByIDs s \<Rightarrow> cHead slice_ops s | OneCondition w \<Rightarrow> cHead (wrapped_ops ops) w
                   | AllConditions c \<Rightarrow> cHead (intersect_ops (wrapped_ops ops)) c),
      cNext = (\<lambda>q. case q of ByIDs s \<Rightarrow> lift_cursor ByIDs (cNext slice_ops s)
                   | OneCondition w \<Rightarrow> lift_cursor OneCondition (cNext (wrapped_ops ops) w)
                   | AllConditions c \<Rightarrow> lift_cursor AllConditions (cNext (intersect_ops (wrapped_ops ops)) c)),
      cSeekGE = (\<lambda>e q. case q of ByIDs s \<Rightarrow> lift_cursor ByIDs (cSeekGE slice_ops e s)
                   | OneCondition w \<Rightarrow> lift_cursor OneCondition (cSeekGE (wrapped_ops ops) e w)
                   | AllConditions c \<Rightarrow> lift_cursor AllConditions (cSeekGE (intersect_ops (wrapped_ops ops)) e c))\<rparr>"

end
