(* ===== verification/Cursor_Contract.thy ===== *)
theory Cursor_Contract
  imports Pebble_Cursor
begin

text \<open>
  The contract of the query cursors and its proofs: \<open>rem c\<close> lists the pairs a cursor has still to
  produce, in ascending order. The heap cursor produces the pairs of its members (with
  repetitions), the join those of its first member that all members have; the loop of
  \<^verbatim>\<open>findMatch\<close> ends because every round but the last skips a pair.
\<close>

section \<open>The contract\<close>

locale cursor_base =
  fixes ops :: "'c cursor_ops" and inv :: "'c \<Rightarrow> bool" and rem :: "'c \<Rightarrow> entry list"
  assumes rem_sorted: "inv c \<Longrightarrow> sorted (rem c)"
    and rem_ids: "inv c \<Longrightarrow> x \<in> set (rem c) \<Longrightarrow> length (snd x) = 32"
    and valid_rem: "inv c \<Longrightarrow> cValid ops c \<longleftrightarrow> rem c \<noteq> []"
    and head_rem: "inv c \<Longrightarrow> rem c \<noteq> [] \<Longrightarrow> cHead ops c = hd (rem c)"
    and next_rem: "inv c \<Longrightarrow> rem c \<noteq> [] \<Longrightarrow>
      \<exists>c'. cNext ops c = Some (c', rem c' \<noteq> []) \<and> inv c' \<and> rem c' = tl (rem c)"
begin

lemma head_in: "inv c \<Longrightarrow> rem c \<noteq> [] \<Longrightarrow> cHead ops c \<in> set (rem c)"
  by (simp add: head_rem)

lemma head_least: "inv c \<Longrightarrow> x \<in> set (rem c) \<Longrightarrow> cHead ops c \<le> x"
  using rem_sorted[of c] by (cases "rem c") (auto simp: head_rem)

lemma rem_head_tl: "inv c \<Longrightarrow> rem c \<noteq> [] \<Longrightarrow> rem c = cHead ops c # tl (rem c)"
  by (simp add: head_rem)

end

text \<open>A cursor that may be moved forward to an entry above its head.\<close>

locale cursor = cursor_base ops inv rem
  for ops :: "'c cursor_ops" and inv :: "'c \<Rightarrow> bool" and rem :: "'c \<Rightarrow> entry list" +
  assumes seek_rem: "inv c \<Longrightarrow> rem c \<noteq> [] \<Longrightarrow> hd (rem c) < e \<Longrightarrow> length (snd e) = 32 \<Longrightarrow>
      \<exists>c'. cSeekGE ops e c = Some (c', rem c' \<noteq> []) \<and> inv c' \<and> rem c' = dropWhile (\<lambda>x. x < e) (rem c)"

text \<open>
  A leaf may also be moved to an entry at or below its head, as long as everything it has passed is
  below that entry: a database iterator would otherwise move backwards.
\<close>

locale leaf_cursor = cursor_base +
  fixes seekable :: "entry \<Rightarrow> 'c \<Rightarrow> bool"
  assumes seekable_above: "inv c \<Longrightarrow> rem c \<noteq> [] \<Longrightarrow> hd (rem c) < e \<Longrightarrow> seekable e c"
    and seekable_mono: "inv c \<Longrightarrow> seekable e c \<Longrightarrow> e \<le> e' \<Longrightarrow> seekable e' c"
    and seekable_next: "inv c \<Longrightarrow> rem c \<noteq> [] \<Longrightarrow> cNext ops c = Some (c', ok) \<Longrightarrow> hd (rem c) < e \<Longrightarrow> seekable e c'"
    and leaf_seek: "inv c \<Longrightarrow> rem c \<noteq> [] \<Longrightarrow> seekable e c \<Longrightarrow> length (snd e) = 32 \<Longrightarrow>
      \<exists>c'. cSeekGE ops e c = Some (c', rem c' \<noteq> []) \<and> inv c' \<and> seekable e c' \<and> rem c' = dropWhile (\<lambda>x. x < e) (rem c)"

sublocale leaf_cursor \<subseteq> cursor ops inv rem
proof
  fix c e assume "inv c" "rem c \<noteq> []" "hd (rem c) < e" "length (snd e) = 32"
  with leaf_seek[of c e] seekable_above[of c e]
  show "\<exists>c'. cSeekGE ops e c = Some (c', rem c' \<noteq> []) \<and> inv c' \<and> rem c' = dropWhile (\<lambda>x. x < e) (rem c)"
    by blast
qed

section \<open>Sorted lists of entries\<close>

lemma dropWhile_filter_sorted: "sorted xs \<Longrightarrow> dropWhile (\<lambda>x. x < e) xs = filter (\<lambda>x. \<not> x < (e :: 'a::linorder)) xs"
  by (induction xs) (auto simp: filter_id_conv intro!: filter_True[symmetric])

lemma sort_least: "(\<And>x. x \<in> set xs \<Longrightarrow> y \<le> x) \<Longrightarrow> sort (y # xs) = y # sort (xs :: 'a::linorder list)"
  by (rule properties_for_sort) simp_all

lemma sort_filter: "sort (filter P xs) = filter P (sort (xs :: 'a::linorder list))"
  by (rule properties_for_sort) (simp_all add: sorted_wrt_filter)

lemma sort_mset_cong: "mset xs = mset ys \<Longrightarrow> sort xs = sort (ys :: 'a::linorder list)"
  by (metis mset_sort properties_for_sort sorted_sort)

lemma filter_dropWhile_above:
  assumes "sorted xs" "\<And>x. x \<in> set xs \<Longrightarrow> P x \<Longrightarrow> (e :: 'a::linorder) \<le> x"
  shows "filter P (dropWhile (\<lambda>x. x < e) xs) = filter P xs"
  unfolding dropWhile_filter_sorted[OF assms(1)] filter_filter
  using assms(2) by (intro filter_cong) (auto dest: leD)

section \<open>The heap cursor\<close>

context leaf_cursor
begin

definition union_rem :: "'c list \<Rightarrow> entry list" where
  "union_rem h = sort (concat (map rem h))"

definition union_inv :: "'c list \<Rightarrow> bool" where
  "union_inv h \<longleftrightarrow> (\<forall>c \<in> set h. inv c \<and> rem c \<noteq> [] \<and> (\<forall>e. cHead ops (h ! 0) < e \<longrightarrow> seekable e c)) \<and>
     is_heap (cHead ops) h"

lemma union_rem_mset: "mset h = mset h' \<Longrightarrow> union_rem h = union_rem h'"
proof -
  have eq: "mset (concat (map rem h)) = \<Sum>\<^sub># (image_mset (\<lambda>c. mset (rem c)) (mset h))" for h
    by (induction h) simp_all
  assume "mset h = mset h'"
  then have "mset (concat (map rem h)) = mset (concat (map rem h'))" by (simp add: eq)
  then show ?thesis unfolding union_rem_def by (rule sort_mset_cong)
qed

lemma union_head_least:
  assumes "union_inv h" "c \<in> set h" "x \<in> set (rem c)" shows "cHead ops (h ! 0) \<le> x"
proof -
  have "cHead ops (h ! 0) \<le> cHead ops c" using assms(1,2) by (auto simp: union_inv_def intro: is_heap_least)
  also have "\<dots> \<le> x" using assms by (auto simp: union_inv_def intro: head_least)
  finally show ?thesis .
qed

lemma union_invD:
  assumes "union_inv h" "c \<in> set h"
  shows "inv c" "rem c \<noteq> []" "cHead ops (h ! 0) < e \<Longrightarrow> seekable e c"
  using assms unfolding union_inv_def by blast+

lemma union_inv_root: "union_inv h \<Longrightarrow> h \<noteq> [] \<Longrightarrow> inv (h ! 0) \<and> rem (h ! 0) \<noteq> []"
  by (simp add: union_inv_def)

lemma union_rem_empty: "union_inv h \<Longrightarrow> union_rem h = [] \<longleftrightarrow> h = []"
proof -
  have "sort xs = [] \<longleftrightarrow> xs = []" for xs :: "entry list" by (metis length_0_conv length_sort)
  then show "union_inv h \<Longrightarrow> ?thesis" by (cases h) (auto simp: union_rem_def union_inv_def)
qed

lemma union_rem_Cons:
  assumes "union_inv (c # h)"
  shows "union_rem (c # h) = cHead ops c # sort (tl (rem c) @ concat (map rem h))"
proof -
  have c: "rem c = cHead ops c # tl (rem c)" using union_inv_root[OF assms] rem_head_tl[of c] by simp
  have "cHead ops c \<le> x" if "x \<in> set (tl (rem c) @ concat (map rem h))" for x
  proof -
    have "set (tl (rem c)) \<subseteq> set (rem c)" by (subst (2) c) auto
    with that obtain d where "d \<in> set (c # h)" "x \<in> set (rem d)" by auto
    with union_head_least[OF assms] show ?thesis by simp
  qed
  then have "sort (cHead ops c # (tl (rem c) @ concat (map rem h))) = cHead ops c # sort (tl (rem c) @ concat (map rem h))"
    by (rule sort_least)
  moreover have "concat (map rem (c # h)) = cHead ops c # (tl (rem c) @ concat (map rem h))"
    using c by (simp only: list.map concat.simps) (metis append_Cons)
  ultimately show ?thesis by (simp only: union_rem_def)
qed

lemma newUnionCursor_spec:
  assumes "\<And>c e. c \<in> set cs \<Longrightarrow> inv c \<and> seekable e c"
  shows "union_inv (newUnionCursor ops cs)" "union_rem (newUnionCursor ops cs) = sort (concat (map rem cs))"
proof -
  let ?f = "filter (cValid ops) cs"
  have f: "?f = filter (\<lambda>c. rem c \<noteq> []) cs" using assms by (intro filter_cong) (auto simp: valid_rem)
  have m: "mset (newUnionCursor ops cs) = mset ?f" by (simp add: newUnionCursor_def heap_init)
  then have s: "set (newUnionCursor ops cs) = set ?f" by (metis set_mset_mset)
  show "union_inv (newUnionCursor ops cs)"
    unfolding union_inv_def s using assms f by (auto simp: newUnionCursor_def cursor_lt_key heap_init)
  have "union_rem (newUnionCursor ops cs) = union_rem ?f" using m by (rule union_rem_mset)
  also have "concat (map rem ?f) = concat (map rem cs)" unfolding f by (induction cs) auto
  ultimately show "union_rem (newUnionCursor ops cs) = sort (concat (map rem cs))" by (simp add: union_rem_def)
qed

lemma union_step:
  assumes h: "union_inv (c # t)" and heap: "is_heap (cHead ops) h'"
    and new: "\<And>d. d \<in> set h' \<Longrightarrow> d \<in> set t \<or>
      inv d \<and> rem d \<noteq> [] \<and> set (rem d) \<subseteq> set (rem c) \<and> (\<forall>e. cHead ops c < e \<longrightarrow> seekable e d)"
  shows "union_inv h'"
proof -
  have low: "cHead ops c \<le> cHead ops d" if "d \<in> set h'" for d
  proof -
    from new[OF that] have "\<exists>d' \<in> set (c # t). cHead ops d \<in> set (rem d')"
      using h head_in[of d] by (auto simp: union_inv_def)
    then obtain d' where "d' \<in> set (c # t)" "cHead ops d \<in> set (rem d')" by blast
    with union_head_least[OF h] show ?thesis by simp
  qed
  have "seekable e d" if d: "d \<in> set h'" and e: "cHead ops (h' ! 0) < e" for d e
  proof -
    have "h' ! 0 \<in> set h'" using d by (cases h') auto
    with low e have "cHead ops c < e" by fastforce
    with new[OF d] union_invD(3)[OF h, of d e] show ?thesis unfolding list.set(2) nth_Cons_0 by blast
  qed
  moreover have "inv d \<and> rem d \<noteq> []" if "d \<in> set h'" for d
    using new[OF that] union_invD(1,2)[OF h, of d] by auto
  ultimately show ?thesis using heap unfolding union_inv_def by blast
qed

lemma unionNext_spec:
  assumes h: "union_inv h" "h \<noteq> []"
  shows "\<exists>h'. unionNext ops h = Some (h', h' \<noteq> []) \<and> union_inv h' \<and> union_rem h' = tl (union_rem h)"
proof -
  obtain c t where ct: "h = c # t" using h(2) by (cases h) auto
  with h union_inv_root[of h] have c: "inv c" "rem c \<noteq> []" by simp_all
  from next_rem[OF c] obtain c' where n: "cNext ops c = Some (c', rem c' \<noteq> [])" "inv c'" "rem c' = tl (rem c)" by blast
  have seek: "seekable e c'" if "cHead ops c < e" for e
    using seekable_next[OF c n(1)] that c by (simp add: head_rem)
  have sub: "set (rem c') \<subseteq> set (rem c)" unfolding n(3) by (cases "rem c") auto
  have heap: "is_heap (cHead ops) (c # t)" using h ct by (simp add: union_inv_def)
  define h' where "h' = (if rem c' \<noteq> [] then heap_fix (by_key (cHead ops)) (c' # t) 0
    else snd (heap_pop (by_key (cHead ops)) (c' # t)))"
  have eq: "unionNext ops h = Some (h', h' \<noteq> [])"
    using n(1) by (simp add: unionNext_def ct cursor_lt_key h'_def Let_def)
  have m: "is_heap (cHead ops) h' \<and> mset h' = mset (if rem c' \<noteq> [] then c' # t else t)"
  proof (cases "rem c' = []")
    case True
    obtain x ys where p: "heap_pop (by_key (cHead ops)) (c' # t) = (x, ys)" by fastforce
    from heap_pop[OF heap_from_root[OF heap] _ p] p True show ?thesis by (simp add: h'_def)
  next
    case False
    with heap_fix_root[OF _ heap_from_root[OF heap, of c']] show ?thesis by (simp add: h'_def)
  qed
  then have set: "set h' = set (if rem c' \<noteq> [] then c' # t else t)" by (metis set_mset_mset)
  have "union_inv h'"
    using h(1) unfolding ct by (rule union_step[OF _ conjunct1[OF m]]) (use set n sub seek in \<open>auto split: if_splits\<close>)
  moreover have "union_rem h' = sort (rem c' @ concat (map rem t))"
    unfolding union_rem_mset[OF conjunct2[OF m]] by (auto simp: union_rem_def)
  ultimately show ?thesis using eq h(1) n(3) unfolding ct by (simp add: union_rem_Cons)
qed

lemma seek_all_spec:
  assumes "\<And>c. c \<in> set cs \<Longrightarrow> inv c \<and> rem c \<noteq> [] \<and> seekable e c" "length (snd e) = 32"
  shows "\<exists>cs'. seek_all ops e cs = Some cs' \<and> concat (map rem cs') = filter (\<lambda>x. \<not> x < e) (concat (map rem cs)) \<and>
    (\<forall>c \<in> set cs'. inv c \<and> rem c \<noteq> [] \<and> seekable e c)"
  using assms(1)
proof (induction cs)
  case (Cons c cs)
  then obtain cs' where cs': "seek_all ops e cs = Some cs'"
    "concat (map rem cs') = filter (\<lambda>x. \<not> x < e) (concat (map rem cs))" "\<forall>c \<in> set cs'. inv c \<and> rem c \<noteq> [] \<and> seekable e c"
    by fastforce
  from Cons.prems[of c] leaf_seek[of c e] assms(2) obtain c' where c': "cSeekGE ops e c = Some (c', rem c' \<noteq> [])"
    "inv c'" "seekable e c'" "rem c' = filter (\<lambda>x. \<not> x < e) (rem c)"
    using rem_sorted[of c] by (auto simp: dropWhile_filter_sorted)
  show ?case using cs' c' by (cases "rem c' = []") auto
qed simp

lemma unionSeekGE_spec:
  assumes h: "union_inv h" "h \<noteq> []" "hd (union_rem h) < e" "length (snd e) = 32"
  shows "\<exists>h'. unionSeekGE ops e h = Some (h', h' \<noteq> []) \<and> union_inv h' \<and>
    union_rem h' = dropWhile (\<lambda>x. x < e) (union_rem h)"
proof -
  have "cHead ops (h ! 0) < e" using h(1-3) by (cases h) (simp_all add: union_rem_Cons)
  then have "\<And>c. c \<in> set h \<Longrightarrow> inv c \<and> rem c \<noteq> [] \<and> seekable e c" using union_invD[OF h(1)] by blast
  from seek_all_spec[OF this h(4)] obtain cs where cs: "seek_all ops e h = Some cs"
    "concat (map rem cs) = filter (\<lambda>x. \<not> x < e) (concat (map rem h))" "\<forall>c \<in> set cs. inv c \<and> rem c \<noteq> [] \<and> seekable e c" by blast
  let ?h = "heap_init (by_key (cHead ops)) cs"
  have "(if length cs > 0 then heap_init (cursor_lt ops) cs else cs) = ?h"
    by (simp add: cursor_lt_key heap_init_def)
  then have eq: "unionSeekGE ops e h = Some (?h, ?h \<noteq> [])" by (simp add: unionSeekGE_def cs(1) Let_def)
  have m: "mset ?h = mset cs" by (simp add: heap_init)
  then have s: "set ?h = set cs" by (metis set_mset_mset)
  have "union_rem ?h = sort (concat (map rem cs))" using union_rem_mset[OF m] by (simp add: union_rem_def)
  also have "\<dots> = dropWhile (\<lambda>x. x < e) (union_rem h)"
    by (simp add: union_rem_def cs(2) sort_filter dropWhile_filter_sorted)
  finally have r: "union_rem ?h = dropWhile (\<lambda>x. x < e) (union_rem h)" .
  have "e \<le> x" if "c \<in> set cs" "x \<in> set (rem c)" for c x
  proof -
    have "x \<in> set (concat (map rem cs))" using that by auto
    then show ?thesis unfolding cs(2) by auto
  qed
  then have "e \<le> cHead ops c" if "c \<in> set cs" for c using cs(3) head_in[of c] that by blast
  then have le: "e \<le> cHead ops (?h ! 0)" if "cs \<noteq> []" using that s by (metis nth_mem length_greater_0_conv set_empty)
  have "seekable e' c" if "c \<in> set cs" "cHead ops (?h ! 0) < e'" for c e'
  proof (rule seekable_mono)
    show "e \<le> e'" using le that by (cases cs) auto
  qed (use cs(3) that in blast)+
  moreover have "is_heap (cHead ops) ?h" by (rule heap_init)
  ultimately have "union_inv ?h" using cs(3) unfolding union_inv_def s by blast
  with eq r show ?thesis by blast
qed

section \<open>Wrapped cursors\<close>

definition wrapped_inv :: "'c wrapped \<Rightarrow> bool" where
  "wrapped_inv w = (case w of Single c \<Rightarrow> inv c | Union h \<Rightarrow> union_inv h)"

definition wrapped_rem :: "'c wrapped \<Rightarrow> entry list" where
  "wrapped_rem w = (case w of Single c \<Rightarrow> rem c | Union h \<Rightarrow> union_rem h)"

lemma set_union_rem: "set (union_rem h) = (\<Union>c \<in> set h. set (rem c))"
  by (simp add: union_rem_def)

lemma wrapped_cursor: "cursor (wrapped_ops ops) wrapped_inv wrapped_rem"
proof
  fix w assume w: "wrapped_inv w"
  show "sorted (wrapped_rem w)"
    using w by (cases w) (auto simp: wrapped_inv_def wrapped_rem_def rem_sorted union_rem_def)
  show "x \<in> set (wrapped_rem w) \<Longrightarrow> length (snd x) = 32" for x
    using w by (cases w) (auto simp: wrapped_inv_def wrapped_rem_def set_union_rem rem_ids union_inv_def)
  show "cValid (wrapped_ops ops) w \<longleftrightarrow> wrapped_rem w \<noteq> []"
    using w by (cases w) (auto simp: wrapped_inv_def wrapped_rem_def wrapped_ops_def valid_rem union_rem_empty)
  assume ne: "wrapped_rem w \<noteq> []"
  show "cHead (wrapped_ops ops) w = hd (wrapped_rem w)"
  proof (cases w)
    case (Union h)
    with w ne show ?thesis
      by (cases h) (auto simp: wrapped_inv_def wrapped_rem_def wrapped_ops_def union_rem_empty union_rem_Cons)
  qed (use w ne in \<open>simp add: wrapped_inv_def wrapped_rem_def wrapped_ops_def head_rem\<close>)
  show "\<exists>c'. cNext (wrapped_ops ops) w = Some (c', wrapped_rem c' \<noteq> []) \<and> wrapped_inv c' \<and> wrapped_rem c' = tl (wrapped_rem w)"
  proof (cases w)
    case (Single c)
    with w ne next_rem[of c] obtain c' where "cNext ops c = Some (c', rem c' \<noteq> [])" "inv c'" "rem c' = tl (rem c)"
      by (auto simp: wrapped_inv_def wrapped_rem_def)
    then show ?thesis by (intro exI[of _ "Single c'"]) (simp add: Single wrapped_inv_def wrapped_rem_def wrapped_ops_def)
  next
    case (Union h)
    with w ne unionNext_spec[of h] obtain h' where "unionNext ops h = Some (h', h' \<noteq> [])" "union_inv h'"
      "union_rem h' = tl (union_rem h)"
      by (auto simp: wrapped_inv_def wrapped_rem_def union_rem_empty)
    then show ?thesis
      using union_rem_empty[of h'] by (intro exI[of _ "Union h'"]) (simp add: Union wrapped_inv_def wrapped_rem_def wrapped_ops_def)
  qed
  fix e assume e: "hd (wrapped_rem w) < e" "length (snd e) = 32"
  show "\<exists>c'. cSeekGE (wrapped_ops ops) e w = Some (c', wrapped_rem c' \<noteq> []) \<and> wrapped_inv c' \<and>
      wrapped_rem c' = dropWhile (\<lambda>x. x < e) (wrapped_rem w)"
  proof (cases w)
    case (Single c)
    with w ne e seek_rem[of c e] obtain c' where "cSeekGE ops e c = Some (c', rem c' \<noteq> [])" "inv c'"
      "rem c' = dropWhile (\<lambda>x. x < e) (rem c)"
      by (auto simp: wrapped_inv_def wrapped_rem_def)
    then show ?thesis by (intro exI[of _ "Single c'"]) (simp add: Single wrapped_inv_def wrapped_rem_def wrapped_ops_def)
  next
    case (Union h)
    with w ne e unionSeekGE_spec[of h e] obtain h' where "unionSeekGE ops e h = Some (h', h' \<noteq> [])" "union_inv h'"
      "union_rem h' = dropWhile (\<lambda>x. x < e) (union_rem h)"
      by (auto simp: wrapped_inv_def wrapped_rem_def union_rem_empty)
    then show ?thesis
      using union_rem_empty[of h'] by (intro exI[of _ "Union h'"]) (simp add: Union wrapped_inv_def wrapped_rem_def wrapped_ops_def)
  qed
qed

lemma wrapCursors_spec:
  assumes "\<And>c e. c \<in> set cs \<Longrightarrow> inv c \<and> seekable e c"
  shows "wrapped_inv (wrapCursors ops cs)" "set (wrapped_rem (wrapCursors ops cs)) = (\<Union>c \<in> set cs. set (rem c))"
  using newUnionCursor_spec[OF assms] assms
  by (auto simp: wrapCursors_def wrapped_inv_def wrapped_rem_def length_Suc_conv)

end

section \<open>The join\<close>

lemma max_loop_spec:
  assumes "m < length cs" "\<forall>i \<in> set is. i < length cs"
  shows "max_loop ops cs m is < length cs \<and>
    (\<forall>i \<in> insert m (set is). cHead ops (cs ! i) \<le> cHead ops (cs ! max_loop ops cs m is))"
  using assms
proof (induction "is" arbitrary: m)
  case (Cons i "is")
  define m' where "m' = (if cHead ops (cs ! m) < cHead ops (cs ! i) then i else m)"
  have eq: "max_loop ops cs m (i # is) = max_loop ops cs m' is"
    by (auto simp: m'_def bytesLess_less less_prod_def)
  have "cHead ops (cs ! m) \<le> cHead ops (cs ! m')" "cHead ops (cs ! i) \<le> cHead ops (cs ! m')"
    by (auto simp: m'_def)
  moreover have "m' < length cs" using Cons.prems by (simp add: m'_def)
  moreover note Cons.IH[of m']
  ultimately show ?case using Cons.prems unfolding eq by (auto intro: order_trans)
qed simp

lemma max_loop_max:
  assumes "cs \<noteq> []" "m = max_loop ops cs 0 [1..<length cs]"
  shows "m < length cs" "c \<in> set cs \<Longrightarrow> cHead ops c \<le> cHead ops (cs ! m)"
proof -
  have s: "insert 0 (set [1..<length cs]) = {..<length cs}" using assms(1) by (auto simp: Suc_le_eq)
  from max_loop_spec[of 0 cs "[1..<length cs]" ops] assms
  show "m < length cs" "c \<in> set cs \<Longrightarrow> cHead ops c \<le> cHead ops (cs ! m)"
    unfolding s by (auto simp: in_set_conv_nth)
qed

context cursor
begin

definition common :: "'c list \<Rightarrow> entry list" where
  "common cs = filter (\<lambda>x. \<forall>c \<in> set cs. x \<in> set (rem c)) (rem (hd cs))"

definition intersect_inv :: "'c intersectCursor \<Rightarrow> bool" where
  "intersect_inv c \<longleftrightarrow> cursors c \<noteq> [] \<and> (\<forall>d \<in> set (cursors c). inv d) \<and>
     (ivalid c \<longrightarrow> (\<exists>e. \<forall>d \<in> set (cursors c). rem d \<noteq> [] \<and> hd (rem d) = e))"

definition intersect_rem :: "'c intersectCursor \<Rightarrow> entry list" where
  "intersect_rem c = (if ivalid c then common (cursors c) else [])"

text \<open>\<open>cs'\<close> is \<open>cs\<close> with every cursor moved to \<open>e\<close>.\<close>

definition advanced :: "entry \<Rightarrow> 'c list \<Rightarrow> 'c list \<Rightarrow> bool" where
  "advanced e = list_all2 (\<lambda>c c'. inv c' \<and> rem c' = filter (\<lambda>x. \<not> x < e) (rem c))"

lemma set_common: "cs \<noteq> [] \<Longrightarrow> set (common cs) = {x. \<forall>c \<in> set cs. x \<in> set (rem c)}"
  by (cases cs) (auto simp: common_def)

lemma common_empty: "c \<in> set cs \<Longrightarrow> rem c = [] \<Longrightarrow> common cs = []"
  unfolding common_def filter_empty_conv by (metis empty_iff list.set(1))

lemma sorted_common: "cs \<noteq> [] \<Longrightarrow> \<forall>c \<in> set cs. inv c \<Longrightarrow> sorted (common cs)"
  by (simp add: common_def sorted_wrt_filter rem_sorted)

lemma common_advanced:
  assumes "advanced e cs cs'" "cs \<noteq> []"
  shows "common cs' = filter (\<lambda>x. \<not> x < e) (common cs)"
proof (cases cs)
  case (Cons c t)
  with assms obtain c' t' where cs': "cs' = c' # t'" "rem c' = filter (\<lambda>x. \<not> x < e) (rem c)"
    by (auto simp: advanced_def list_all2_Cons1)
  have "(\<forall>d \<in> set cs'. x \<in> set (rem d)) \<longleftrightarrow> (\<forall>d \<in> set cs. x \<in> set (rem d))" if "\<not> x < e" for x
    using assms that unfolding advanced_def by (induction rule: list_all2_induct) auto
  then have "filter (\<lambda>x. \<not> x < e \<and> (\<forall>d \<in> set cs'. x \<in> set (rem d))) (rem c)
      = filter (\<lambda>x. (\<forall>d \<in> set cs. x \<in> set (rem d)) \<and> \<not> x < e) (rem c)"
    by (intro filter_cong[OF refl]) blast
  then show ?thesis unfolding common_def filter_filter cs' Cons list.sel by simp
qed (use assms in simp)

lemma common_above: "m < length cs \<Longrightarrow> \<forall>c \<in> set cs. inv c \<Longrightarrow> x \<in> set (common cs) \<Longrightarrow> cHead ops (cs ! m) \<le> x"
  using head_least[of "cs ! m" x] nth_mem[of m cs] by (auto simp: common_def)

lemma seek_others_spec:
  assumes "\<And>c. c \<in> set cs \<Longrightarrow> inv c \<and> rem c \<noteq> [] \<and> hd (rem c) \<le> e" "length (snd e) = 32"
    and "\<And>j. j < length cs \<Longrightarrow> i + j = m \<Longrightarrow> cHead ops (cs ! j) = e"
  shows "\<exists>cs' r. seek_others ops e m i b cs = Some (cs', r) \<and> length cs' = length cs \<and> (\<forall>c \<in> set cs'. inv c) \<and>
    (case r of None \<Rightarrow> \<exists>c \<in> set cs. filter (\<lambda>x. \<not> x < e) (rem c) = []
     | Some v \<Rightarrow> advanced e cs cs' \<and> (\<forall>c \<in> set cs'. rem c \<noteq> []) \<and> (v \<longleftrightarrow> b \<and> (\<forall>c \<in> set cs'. hd (rem c) = e)))"
  using assms(1,3)
proof (induction cs arbitrary: i b)
  case (Cons c cs)
  have IH: "\<exists>cs' r. seek_others ops e m (i + 1) b' cs = Some (cs', r) \<and> length cs' = length cs \<and> (\<forall>c \<in> set cs'. inv c) \<and>
    (case r of None \<Rightarrow> \<exists>c \<in> set cs. filter (\<lambda>x. \<not> x < e) (rem c) = []
     | Some v \<Rightarrow> advanced e cs cs' \<and> (\<forall>c \<in> set cs'. rem c \<noteq> []) \<and> (v \<longleftrightarrow> b' \<and> (\<forall>c \<in> set cs'. hd (rem c) = e)))" for b'
  proof (rule Cons.IH)
    fix j assume "j < length cs" "i + 1 + j = m"
    then show "cHead ops (cs ! j) = e" using Cons.prems(2)[of "Suc j"] by simp
  qed (use Cons.prems(1) in simp)
  have c: "inv c" "rem c \<noteq> []" "hd (rem c) \<le> e" using Cons.prems(1)[of c] by simp_all
  show ?case
  proof (cases "i = m \<or> cHead ops c = e")
    case True
    then have "cHead ops c = e" using Cons.prems(2)[of 0] by auto
    then have "hd (rem c) = e" using c by (simp add: head_rem)
    moreover have "filter (\<lambda>x. \<not> x < e) (rem c) = rem c"
      using head_least[OF c(1)] \<open>cHead ops c = e\<close> by (auto simp: filter_id_conv not_less)
    moreover from IH[of b] obtain cs' r where "seek_others ops e m (i + 1) b cs = Some (cs', r)" "length cs' = length cs"
      "\<forall>c \<in> set cs'. inv c" "case r of None \<Rightarrow> \<exists>c \<in> set cs. filter (\<lambda>x. \<not> x < e) (rem c) = []
     | Some v \<Rightarrow> advanced e cs cs' \<and> (\<forall>c \<in> set cs'. rem c \<noteq> []) \<and> (v \<longleftrightarrow> b \<and> (\<forall>c \<in> set cs'. hd (rem c) = e))" by blast
    ultimately show ?thesis using True c
      by (intro exI[of _ "c # cs'"] exI[of _ r]) (auto simp: advanced_def split: option.splits)
  next
    case False
    then have "hd (rem c) < e" using c head_rem[of c] by auto
    from seek_rem[OF c(1,2) this assms(2)] obtain c' where c': "cSeekGE ops e c = Some (c', rem c' \<noteq> [])" "inv c'"
      "rem c' = filter (\<lambda>x. \<not> x < e) (rem c)" using dropWhile_filter_sorted[OF rem_sorted[OF c(1)]] by metis
    show ?thesis
    proof (cases "rem c' = []")
      case True
      with False c' c Cons.prems(1) show ?thesis
        by (intro exI[of _ "c' # cs"] exI[of _ None]) auto
    next
      case ne: False
      let ?b = "b \<and> cHead ops c' = e"
      from IH[of ?b] obtain cs' r where IH': "seek_others ops e m (i + 1) ?b cs = Some (cs', r)" "length cs' = length cs"
      "\<forall>c \<in> set cs'. inv c" "case r of None \<Rightarrow> \<exists>c \<in> set cs. filter (\<lambda>x. \<not> x < e) (rem c) = []
     | Some v \<Rightarrow> advanced e cs cs' \<and> (\<forall>c \<in> set cs'. rem c \<noteq> []) \<and> (v \<longleftrightarrow> ?b \<and> (\<forall>c \<in> set cs'. hd (rem c) = e))" by blast
      have "cHead ops c' = hd (rem c')" using c' ne by (simp add: head_rem)
      with False ne c' IH' show ?thesis
        by (intro exI[of _ "c' # cs'"] exI[of _ r]) (auto simp: advanced_def split: option.splits)
    qed
  qed
qed (auto simp: advanced_def intro!: exI[of _ "Some b"])

lemma length_advanced: "advanced e cs cs' \<Longrightarrow> sum_list (map (\<lambda>c. length (rem c)) cs') \<le> sum_list (map (\<lambda>c. length (rem c)) cs)"
  unfolding advanced_def by (induction rule: list_all2_induct) (auto intro: add_mono length_filter_le)

lemma length_advanced_less:
  assumes "advanced e cs cs'" "c \<in> set cs" "x \<in> set (rem c)" "x < e"
  shows "sum_list (map (\<lambda>c. length (rem c)) cs') < sum_list (map (\<lambda>c. length (rem c)) cs)"
  using assms(1,2) unfolding advanced_def
proof (induction rule: list_all2_induct)
  case (Cons d ds d' ds')
  have le: "sum_list (map (\<lambda>c. length (rem c)) ds') \<le> sum_list (map (\<lambda>c. length (rem c)) ds)"
    using Cons(2) by (intro length_advanced[of e]) (simp add: advanced_def)
  have d: "length (rem d') \<le> length (rem d)" using Cons(1) by simp
  show ?case
  proof (cases "c \<in> set ds")
    case True
    with Cons(3) d show ?thesis by simp
  next
    case False
    with Cons(4) have "c = d" by simp
    with assms(3,4) Cons(1) have "length (rem d') < length (rem d)" by (auto intro!: length_filter_less)
    with le show ?thesis by simp
  qed
qed simp

text \<open>The loop of \<^verbatim>\<open>findMatch\<close> ends, at the first pair all cursors still have.\<close>

lemma findMatch_spec:
  assumes "cs \<noteq> []" "\<forall>c \<in> set cs. inv c"
  shows "\<exists>cs' v. findMatch ops cs = Some (cs', v) \<and> intersect_inv \<lparr>cursors = cs', ivalid = v\<rparr> \<and>
    intersect_rem \<lparr>cursors = cs', ivalid = v\<rparr> = common cs"
  using assms
proof (induction "sum_list (map (\<lambda>c. length (rem c)) cs)" arbitrary: cs rule: less_induct)
  case less
  show ?case
  proof (cases "list_all (cValid ops) cs")
    case False
    then obtain c where "c \<in> set cs" "rem c = []" using less.prems valid_rem by (auto simp: list_all_iff)
    then have "common cs = []" by (rule common_empty)
    with False less.prems show ?thesis
      by (subst findMatch.simps) (auto simp: intersect_inv_def intersect_rem_def)
  next
    case valid: True
    then have ne: "\<forall>c \<in> set cs. rem c \<noteq> []" using less.prems valid_rem by (auto simp: list_all_iff)
    define m where "m = max_loop ops cs 0 [1..<length cs]"
    define e where "e = cHead ops (cs ! m)"
    note m = max_loop_max[OF less.prems(1) m_def]
    have hd: "hd (rem c) \<le> e" if "c \<in> set cs" for c
      using m(2)[OF that] head_rem[of c] less.prems ne that by (simp add: e_def)
    have e32: "length (snd e) = 32"
      using m(1) less.prems ne head_in[of "cs ! m"] by (auto simp: e_def intro: rem_ids)
    have "\<exists>cs' r. seek_others ops e m 0 True cs = Some (cs', r) \<and> length cs' = length cs \<and> (\<forall>c \<in> set cs'. inv c) \<and>
      (case r of None \<Rightarrow> \<exists>c \<in> set cs. filter (\<lambda>x. \<not> x < e) (rem c) = []
       | Some v \<Rightarrow> advanced e cs cs' \<and> (\<forall>c \<in> set cs'. rem c \<noteq> []) \<and> (v \<longleftrightarrow> (\<forall>c \<in> set cs'. hd (rem c) = e)))"
      by (rule seek_others_spec[where b = True, unfolded simp_thms]) (use less.prems ne hd e32 e_def in auto)
    then obtain cs' r where so: "seek_others ops e m 0 True cs = Some (cs', r)" "length cs' = length cs" "\<forall>c \<in> set cs'. inv c"
      and r: "case r of None \<Rightarrow> \<exists>c \<in> set cs. filter (\<lambda>x. \<not> x < e) (rem c) = []
       | Some v \<Rightarrow> advanced e cs cs' \<and> (\<forall>c \<in> set cs'. rem c \<noteq> []) \<and> (v \<longleftrightarrow> (\<forall>c \<in> set cs'. hd (rem c) = e))"
      by blast
    have cs': "cs' \<noteq> []" using so(2) less.prems(1) by auto
    have unfold: "findMatch ops cs = (case r of None \<Rightarrow> Some (cs', False)
      | Some allMatch \<Rightarrow> if allMatch then Some (cs', True) else findMatch ops cs')"
      using valid so(1) by (subst findMatch.simps) (simp add: Let_def e_def m_def)
    have above: "e \<le> x" if "x \<in> set (common cs)" for x
      unfolding e_def using common_above[OF m(1) less.prems(2) that] .
    show ?thesis
    proof (cases r)
      case None
      with r obtain c where c: "c \<in> set cs" "filter (\<lambda>x. \<not> x < e) (rem c) = []" by auto
      have "x \<notin> set (common cs)" for x
        using above[of x] c less.prems(1) by (auto simp: set_common filter_empty_conv dest: leD)
      then have "common cs = []" by (metis list.set_intros(1) neq_Nil_conv)
      with None unfold so(3) cs' show ?thesis
        by (intro exI[of _ cs'] exI[of _ False]) (simp add: intersect_inv_def intersect_rem_def)
    next
      case (Some v)
      with r have adv: "advanced e cs cs'" "\<forall>c \<in> set cs'. rem c \<noteq> []" "v \<longleftrightarrow> (\<forall>c \<in> set cs'. hd (rem c) = e)" by simp_all
      have "filter (\<lambda>x. \<not> x < e) (common cs) = common cs" using above by (auto simp: filter_id_conv dest: leD)
      then have com: "common cs' = common cs" using common_advanced[OF adv(1) less.prems(1)] by simp
      show ?thesis
      proof (cases v)
        case True
        with Some unfold adv so(3) cs' com show ?thesis by (auto simp: intersect_inv_def intersect_rem_def)
      next
        case False
        with adv obtain c' where c': "c' \<in> set cs'" "hd (rem c') \<noteq> e" by blast
        then obtain j where j: "j < length cs'" "c' = cs' ! j" by (auto simp: in_set_conv_nth)
        let ?c = "cs ! j"
        have c: "?c \<in> set cs" "rem c' = filter (\<lambda>x. \<not> x < e) (rem ?c)"
          using j so(2) adv(1) by (auto simp: advanced_def list_all2_conv_all_nth)
        have "hd (rem ?c) < e"
        proof (rule ccontr)
          assume "\<not> hd (rem ?c) < e"
          with hd[OF c(1)] have "hd (rem ?c) = e" by simp
          then have "hd (rem c') = e" using ne c by (cases "rem ?c") auto
          with c'(2) show False ..
        qed
        with ne c have "sum_list (map (\<lambda>c. length (rem c)) cs') < sum_list (map (\<lambda>c. length (rem c)) cs)"
          by (intro length_advanced_less[OF adv(1), of ?c "hd (rem ?c)"]) auto
        from less.hyps[OF this cs' so(3)] show ?thesis using False Some unfold com by simp
      qed
    qed
  qed
qed

lemma newIntersectCursor_spec:
  assumes "cs \<noteq> []" "\<forall>c \<in> set cs. inv c"
  shows "\<exists>c. newIntersectCursor ops cs = Some c \<and> intersect_inv c \<and> intersect_rem c = common cs"
  using findMatch_spec[OF assms] by (auto simp: newIntersectCursor_def matched_def)

lemma valid_iff: "intersect_inv c \<Longrightarrow> ivalid c \<longleftrightarrow> intersect_rem c \<noteq> []"
proof
  assume c: "intersect_inv c" and v: "ivalid c"
  then obtain e where e: "\<forall>d \<in> set (cursors c). rem d \<noteq> [] \<and> hd (rem d) = e" and ne: "cursors c \<noteq> []"
    by (auto simp: intersect_inv_def)
  then have "e \<in> set (common (cursors c))" by (simp add: set_common) (metis list.set_sel(1))
  with v show "intersect_rem c \<noteq> []" by (auto simp: intersect_rem_def)
qed (simp add: intersect_rem_def split: if_splits)

lemma matched_spec:
  assumes "cs \<noteq> []" "\<forall>c \<in> set cs. inv c"
  shows "\<exists>c. matched (findMatch ops cs) = Some (c, intersect_rem c \<noteq> []) \<and> intersect_inv c \<and> intersect_rem c = common cs"
proof -
  from findMatch_spec[OF assms] obtain cs' v where m: "findMatch ops cs = Some (cs', v)"
    "intersect_inv \<lparr>cursors = cs', ivalid = v\<rparr>" "intersect_rem \<lparr>cursors = cs', ivalid = v\<rparr> = common cs" by blast
  moreover have "v \<longleftrightarrow> intersect_rem \<lparr>cursors = cs', ivalid = v\<rparr> \<noteq> []"
    using m(2) by (rule valid_iff[where c = "\<lparr>cursors = cs', ivalid = v\<rparr>", simplified])
  ultimately show ?thesis by (auto simp: matched_def)
qed

lemma seek_each_spec:
  assumes "\<And>c. c \<in> set cs \<Longrightarrow> inv c \<and> rem c \<noteq> [] \<and> hd (rem c) < e" "length (snd e) = 32"
  shows "\<exists>cs' r. seek_each ops e cs = Some (cs', r) \<and> length cs' = length cs \<and> (\<forall>c \<in> set cs'. inv c) \<and>
    (if r then advanced e cs cs' else \<exists>c \<in> set cs. filter (\<lambda>x. \<not> x < e) (rem c) = [])"
  using assms(1)
proof (induction cs)
  case (Cons c cs)
  from Cons.prems[of c] have c: "inv c" "rem c \<noteq> []" "hd (rem c) < e" by simp_all
  from seek_rem[OF c assms(2)] obtain c' where c': "cSeekGE ops e c = Some (c', rem c' \<noteq> [])" "inv c'"
    "rem c' = filter (\<lambda>x. \<not> x < e) (rem c)" using dropWhile_filter_sorted[OF rem_sorted[OF c(1)]] by metis
  from Cons obtain cs' r where IH: "seek_each ops e cs = Some (cs', r)" "length cs' = length cs" "\<forall>c \<in> set cs'. inv c"
    "if r then advanced e cs cs' else \<exists>c \<in> set cs. filter (\<lambda>x. \<not> x < e) (rem c) = []" by fastforce
  show ?case
  proof (cases "rem c' = []")
    case True
    with c' Cons.prems show ?thesis by (intro exI[of _ "c' # cs"] exI[of _ False]) auto
  next
    case False
    with c' IH show ?thesis by (intro exI[of _ "c' # cs'"] exI[of _ r]) (auto simp: advanced_def)
  qed
qed (auto simp: advanced_def intro!: exI[of _ True])

lemma intersect_cursor: "cursor (intersect_ops ops) intersect_inv intersect_rem"
proof
  fix c assume c: "intersect_inv c"
  then have ne: "cursors c \<noteq> []" and inv: "\<forall>d \<in> set (cursors c). inv d" by (simp_all add: intersect_inv_def)
  obtain d ds where cs: "cursors c = d # ds" using ne by (cases "cursors c") auto
  show "sorted (intersect_rem c)" using sorted_common[OF ne inv] by (simp add: intersect_rem_def)
  show "x \<in> set (intersect_rem c) \<Longrightarrow> length (snd x) = 32" for x
    using inv cs by (auto simp: intersect_rem_def set_common rem_ids split: if_splits)
  show "cValid (intersect_ops ops) c \<longleftrightarrow> intersect_rem c \<noteq> []"
    using valid_iff[OF c] by (simp add: intersect_ops_def)
  assume r: "intersect_rem c \<noteq> []"
  then have v: "ivalid c" using valid_iff[OF c] by simp
  with c obtain e where e: "\<forall>d \<in> set (cursors c). rem d \<noteq> [] \<and> hd (rem d) = e" by (auto simp: intersect_inv_def)
  then have mem: "\<forall>d \<in> set (cursors c). e \<in> set (rem d)" by (metis list.set_sel(1))
  have d: "inv d" "rem d = e # tl (rem d)" using inv e cs by (simp_all, metis list.collapse)
  have com: "common (cursors c) = e # filter (\<lambda>x. \<forall>c \<in> set (cursors c). x \<in> set (rem c)) (tl (rem d))"
  proof -
    let ?P = "\<lambda>x. \<forall>c \<in> set (cursors c). x \<in> set (rem c)"
    have "common (cursors c) = filter ?P (rem d)" by (simp add: common_def cs)
    also have "\<dots> = filter ?P (e # tl (rem d))" using d(2) by metis
    finally show ?thesis using mem by simp
  qed
  then show "cHead (intersect_ops ops) c = hd (intersect_rem c)"
    using v d e cs by (simp add: intersect_ops_def intersect_rem_def head_rem)
  show "\<exists>c'. cNext (intersect_ops ops) c = Some (c', intersect_rem c' \<noteq> []) \<and> intersect_inv c' \<and> intersect_rem c' = tl (intersect_rem c)"
  proof -
    have "rem d \<noteq> []" using d(2) by auto
    from next_rem[OF d(1) this] obtain d' where d': "cNext ops d = Some (d', rem d' \<noteq> [])" "inv d'" "rem d' = tl (rem d)" by blast
    have tl: "common (d' # ds) = tl (common (cursors c))"
    proof -
      have "common (d' # ds) = filter (\<lambda>x. \<forall>c \<in> set ds. x \<in> set (rem c)) (tl (rem d))"
        unfolding common_def list.sel d'(3)[symmetric] by (rule filter_cong) auto
      also have "\<dots> = filter (\<lambda>x. \<forall>c \<in> set (cursors c). x \<in> set (rem c)) (tl (rem d))"
        unfolding cs using \<open>rem d \<noteq> []\<close> by (intro filter_cong) (auto dest: list.set_sel(2))
      finally show ?thesis unfolding com by simp
    qed
    show ?thesis
    proof (cases "rem d' = []")
      case True
      then have "tl (common (cursors c)) = []" unfolding com using d' by simp
      with True d' v cs inv c show ?thesis
        by (auto simp: intersect_ops_def intersectNext_def intersect_rem_def intersect_inv_def)
    next
      case False
      with d' v cs inv matched_spec[of "d' # ds"] tl show ?thesis
        by (auto simp: intersect_ops_def intersectNext_def intersect_rem_def)
    qed
  qed
  fix t assume t: "hd (intersect_rem c) < t" "length (snd t) = 32"
  show "\<exists>c'. cSeekGE (intersect_ops ops) t c = Some (c', intersect_rem c' \<noteq> []) \<and> intersect_inv c' \<and>
      intersect_rem c' = dropWhile (\<lambda>x. x < t) (intersect_rem c)"
  proof -
    have "e < t" using t(1) com v by (simp add: intersect_rem_def)
    then have "d \<in> set (cursors c) \<Longrightarrow> inv d \<and> rem d \<noteq> [] \<and> hd (rem d) < t" for d using e inv by simp
    from seek_each_spec[OF this t(2)] obtain cs' r where s: "seek_each ops t (cursors c) = Some (cs', r)"
      "length cs' = length (cursors c)" "\<forall>c \<in> set cs'. inv c"
      "if r then advanced t (cursors c) cs' else \<exists>c \<in> set (cursors c). filter (\<lambda>x. \<not> x < t) (rem c) = []" by blast
    have dw: "dropWhile (\<lambda>x. x < t) (intersect_rem c) = filter (\<lambda>x. \<not> x < t) (common (cursors c))"
      using v dropWhile_filter_sorted[OF sorted_common[OF ne inv]] by (simp add: intersect_rem_def)
    have ne': "cs' \<noteq> []" using s(2) ne by auto
    show ?thesis
    proof (cases r)
      case True
      with s common_advanced[OF _ ne, of t cs'] matched_spec[OF ne' s(3)] dw show ?thesis
        by (auto simp: intersect_ops_def intersectSeekGE_def)
    next
      case False
      with s obtain d where "d \<in> set (cursors c)" "filter (\<lambda>x. \<not> x < t) (rem d) = []" by auto
      then have "filter (\<lambda>x. \<not> x < t) (common (cursors c)) = []"
        unfolding filter_empty_conv using ne by (auto simp: set_common)
      then have e0: "dropWhile (\<lambda>x. x < t) (intersect_rem c) = []" using dw by simp
      have "intersect_rem (c\<lparr>cursors := cs', ivalid := False\<rparr>) = []" by (simp add: intersect_rem_def)
      moreover have "intersect_inv (c\<lparr>cursors := cs', ivalid := False\<rparr>)" using s(3) ne' by (simp add: intersect_inv_def)
      ultimately show ?thesis unfolding e0 using False s(1) by (simp add: intersect_ops_def intersectSeekGE_def)
    qed
  qed
qed

end

end
