(* ===== verification/Cursor_Leaves.thy ===== *)
theory Cursor_Leaves
  imports Cursor_Contract Req_Filter
begin

text \<open>
  The leaves of the cursor tree satisfy the contract: a sorted slice searched by binary search, and
  a database iterator over the keys with a common prefix. From them the cursors of whole filters
  do, whatever the kind of leaf.
\<close>

section \<open>Binary search\<close>

lemma search_loop_spec:
  assumes "i \<le> j" "\<And>a b. a \<le> b \<Longrightarrow> b < n \<Longrightarrow> f a \<Longrightarrow> f b" "j \<le> n"
    and "\<And>a. a < i \<Longrightarrow> \<not> f a" "\<And>a. j \<le> a \<Longrightarrow> a < n \<Longrightarrow> f a"
  shows "search_loop f i j \<le> n \<and> (\<forall>a < search_loop f i j. \<not> f a) \<and> (\<forall>a. search_loop f i j \<le> a \<and> a < n \<longrightarrow> f a)"
  using assms
proof (induction f i j rule: search_loop.induct)
  case (1 f i j)
  define h where "h = (i + j) div 2"
  show ?case
  proof (cases "i < j")
    case True
    then have h: "i \<le> h" "h < j" by (auto simp: h_def)
    show ?thesis
    proof (cases "f h")
      case f: True
      have "search_loop f i h \<le> n \<and> (\<forall>a < search_loop f i h. \<not> f a) \<and> (\<forall>a. search_loop f i h \<le> a \<and> a < n \<longrightarrow> f a)"
        using h f 1(4,5,6) 1(4)[of h] by (intro 1(2)[OF True h_def]) (auto intro: 1(4))
      with True f show ?thesis by (subst (1 2 3) search_loop.simps) (simp add: h_def Let_def)
    next
      case f: False
      have "\<not> f a" if "a < h + 1" for a using 1(4)[of a h] f h that 1(5) by (metis Suc_eq_plus1 less_Suc_eq_le order_less_le_trans)
      then have "search_loop f (h + 1) j \<le> n \<and> (\<forall>a < search_loop f (h + 1) j. \<not> f a) \<and>
          (\<forall>a. search_loop f (h + 1) j \<le> a \<and> a < n \<longrightarrow> f a)"
        using h f by (intro 1(1)[OF True h_def]) (use 1(4-7) in auto)
      with True f show ?thesis by (subst (1 2 3) search_loop.simps) (simp add: h_def Let_def)
    qed
  next
    case False
    with 1(3-7) show ?thesis by (subst (1 2 3) search_loop.simps) auto
  qed
qed

text \<open>On a sorted list the search stops where \<open>dropWhile\<close> does.\<close>

lemma Search_dropWhile:
  assumes "sorted xs"
  shows "drop (sortSearch (length xs) (\<lambda>i. \<not> xs ! i < e)) xs = dropWhile (\<lambda>x. x < (e :: 'a::linorder)) xs"
    "sortSearch (length xs) (\<lambda>i. \<not> xs ! i < e) \<le> length xs"
proof -
  define s where "s = sortSearch (length xs) (\<lambda>i. \<not> xs ! i < e)"
  have "s \<le> length xs \<and> (\<forall>a < s. \<not> \<not> xs ! a < e) \<and> (\<forall>a. s \<le> a \<and> a < length xs \<longrightarrow> \<not> xs ! a < e)"
    unfolding s_def sortSearch_def
  proof (rule search_loop_spec)
    fix a b assume "a \<le> b" "b < length xs" "\<not> xs ! a < e"
    with assms show "\<not> xs ! b < e" by (metis order_le_less_trans sorted_nth_mono)
  qed auto
  then have s: "s \<le> length xs" "\<And>a. a < s \<Longrightarrow> xs ! a < e" "\<And>a. s \<le> a \<Longrightarrow> a < length xs \<Longrightarrow> \<not> xs ! a < e" by auto
  have "\<not> hd (drop s xs) < e" if "drop s xs \<noteq> []"
    using s(3)[of s] that by (simp add: hd_drop_conv_nth)
  then have "dropWhile (\<lambda>x. x < e) (drop s xs) = drop s xs" by (cases "drop s xs") auto
  moreover have "x < e" if "x \<in> set (take s xs)" for x using s(1,2) that by (auto simp: in_set_conv_nth)
  ultimately have "dropWhile (\<lambda>x. x < e) (take s xs @ drop s xs) = drop s xs"
    by (subst dropWhile_append2) simp_all
  then have "drop s xs = dropWhile (\<lambda>x. x < e) xs" by simp
  with s(1) show "drop (sortSearch (length xs) (\<lambda>i. \<not> xs ! i < e)) xs = dropWhile (\<lambda>x. x < e) xs"
    "sortSearch (length xs) (\<lambda>i. \<not> xs ! i < e) \<le> length xs" by (simp_all add: s_def)
qed

section \<open>The slice cursor\<close>

definition slice_inv :: "sliceCursor \<Rightarrow> bool" where
  "slice_inv c \<longleftrightarrow> sorted (entries c) \<and> pos c \<le> length (entries c) \<and> (\<forall>x \<in> set (entries c). length (snd x) = 32)"

definition slice_rem :: "sliceCursor \<Rightarrow> entry list" where
  "slice_rem c = drop (pos c) (entries c)"

interpretation slice: cursor slice_ops slice_inv slice_rem
proof
  fix c assume c: "slice_inv c"
  show "sorted (slice_rem c)" using c by (simp add: slice_inv_def slice_rem_def sorted_wrt_drop)
  show "x \<in> set (slice_rem c) \<Longrightarrow> length (snd x) = 32" for x
    using c by (auto simp: slice_inv_def slice_rem_def dest: in_set_dropD)
  show "cValid slice_ops c \<longleftrightarrow> slice_rem c \<noteq> []" by (simp add: slice_ops_def slice_rem_def not_le)
  assume r: "slice_rem c \<noteq> []"
  then show "cHead slice_ops c = hd (slice_rem c)" by (simp add: slice_ops_def slice_rem_def hd_drop_conv_nth)
  show "\<exists>c'. cNext slice_ops c = Some (c', slice_rem c' \<noteq> []) \<and> slice_inv c' \<and> slice_rem c' = tl (slice_rem c)"
    using r c by (simp add: slice_ops_def sliceNext_def slice_rem_def slice_inv_def Let_def tl_drop drop_Suc[symmetric] not_le)
  fix e assume e: "hd (slice_rem c) < e" "length (snd e) = 32"
  have ge: "(if fst x \<noteq> fst e then fst x \<ge> fst e else snd x \<ge> snd e) \<longleftrightarrow> \<not> x < e" for x :: entry
    by (auto simp: less_prod_def not_less)
  have p: "\<not> length (entries c) < pos c" using c by (simp add: slice_inv_def)
  define idx where "idx = sortSearch (length (slice_rem c)) (\<lambda>i. \<not> slice_rem c ! i < e)"
  define c' where "c' = c\<lparr>pos := pos c + idx\<rparr>"
  have "sorted (slice_rem c)" using c by (simp add: slice_inv_def slice_rem_def sorted_wrt_drop)
  from Search_dropWhile[OF this, of e]
  have i: "drop idx (slice_rem c) = dropWhile (\<lambda>x. x < e) (slice_rem c)" "idx \<le> length (slice_rem c)"
    by (simp_all add: idx_def)
  have "slice_rem c' = drop idx (slice_rem c)" by (simp add: c'_def slice_rem_def add.commute)
  with i have "slice_rem c' = dropWhile (\<lambda>x. x < e) (slice_rem c)" by simp
  moreover have "slice_inv c'" using c i(2) by (auto simp: c'_def slice_inv_def slice_rem_def)
  moreover have "cSeekGE slice_ops e c = Some (c', slice_rem c' \<noteq> [])"
    using p unfolding slice_ops_def sliceSeekGE_def ge c'_def idx_def slice_rem_def
    by (simp add: Let_def ge not_le)
  ultimately show "\<exists>c'. cSeekGE slice_ops e c = Some (c', slice_rem c' \<noteq> []) \<and> slice_inv c' \<and>
      slice_rem c' = dropWhile (\<lambda>x. x < e) (slice_rem c)" by blast
qed

lemma newSliceCursor_spec:
  "sorted es \<Longrightarrow> \<forall>x \<in> set es. length (snd x) = 32 \<Longrightarrow> slice_inv (newSliceCursor es) \<and> slice_rem (newSliceCursor es) = es"
  by (simp add: slice_inv_def slice_rem_def newSliceCursor_def)

section \<open>The index cursor\<close>

text \<open>
  What \<^verbatim>\<open>pebble\<close> documents of its iterators, without I/O errors: an iterator stands in the ascending
  list of the keys within its bounds.
\<close>

definition iter_laws :: "('it, 'z) iter_ops_scheme \<Rightarrow> ('it \<Rightarrow> string list \<times> nat) \<Rightarrow> bool" where
  "iter_laws I view \<longleftrightarrow>
     (\<forall>it xs p. view it = (xs, p) \<longrightarrow>
        view (fst (itFirst I it)) = (xs, 0) \<and> snd (itFirst I it) = (xs \<noteq> []) \<and>
        (p < length xs \<longrightarrow> itKey I it = xs ! p \<and>
           view (fst (itNext I it)) = (xs, Suc p) \<and> snd (itNext I it) = (Suc p < length xs)) \<and>
        (\<forall>k. view (fst (itSeekGE I k it)) = (xs, length (takeWhile (\<lambda>x. x < k) xs)) \<and>
           snd (itSeekGE I k it) = (length (takeWhile (\<lambda>x. x < k) xs) < length xs)))"

lemma iter_lawsD:
  assumes "iter_laws I view" "view it = (xs, p)"
  shows "view (fst (itFirst I it)) = (xs, 0)" "snd (itFirst I it) = (xs \<noteq> [])"
    "p < length xs \<Longrightarrow> itKey I it = xs ! p" "p < length xs \<Longrightarrow> view (fst (itNext I it)) = (xs, Suc p)"
    "p < length xs \<Longrightarrow> snd (itNext I it) = (Suc p < length xs)"
    "view (fst (itSeekGE I k it)) = (xs, length (takeWhile (\<lambda>x. x < k) xs))"
    "snd (itSeekGE I k it) = (length (takeWhile (\<lambda>x. x < k) xs) < length xs)"
  using assms unfolding iter_laws_def by blast+

definition index_key :: "string \<Rightarrow> string \<Rightarrow> bool" where
  "index_key pfx k \<longleftrightarrow> (\<exists>w b. length b = 32 \<and> k = pfx @ PutUint64 w @ b)"

definition key_entry :: "nat \<Rightarrow> string \<Rightarrow> entry" where
  "key_entry n k = (Uint64 (take 8 (drop n k)), take 32 (drop (n + 8) k))"

lemma key_entry_key [simp]: "length b = 32 \<Longrightarrow> key_entry (length pfx) (pfx @ PutUint64 w @ b) = (w, b)"
  by (simp add: key_entry_def)

lemma key_entry_less:
  "index_key pfx k \<Longrightarrow> index_key pfx k' \<Longrightarrow> k < k' \<longleftrightarrow> key_entry (length pfx) k < key_entry (length pfx) k'"
  by (auto simp: index_key_def append_less_append less_prod_def)

definition index_inv :: "('it, 'z) iter_ops_scheme \<Rightarrow> ('it \<Rightarrow> string list \<times> nat) \<Rightarrow> 'it indexCursor \<Rightarrow> bool" where
  "index_inv I view c \<longleftrightarrow> iter_laws I view \<and>
     timestampOffset c = length (seekPrefix c) \<and> eventIDOffset c = length (seekPrefix c) + 8 \<and>
     (case view (ixIter c) of (xs, p) \<Rightarrow> sorted_wrt (<) xs \<and> (\<forall>k \<in> set xs. index_key (seekPrefix c) k) \<and>
        (curValid c \<longrightarrow> p < length xs \<and> curEntry c = key_entry (length (seekPrefix c)) (xs ! p)))"

definition index_rem :: "('it \<Rightarrow> string list \<times> nat) \<Rightarrow> 'it indexCursor \<Rightarrow> entry list" where
  "index_rem view c =
     (if curValid c then (case view (ixIter c) of (xs, p) \<Rightarrow> map (key_entry (length (seekPrefix c))) (drop p xs)) else [])"

definition index_seekable :: "('it \<Rightarrow> string list \<times> nat) \<Rightarrow> entry \<Rightarrow> 'it indexCursor \<Rightarrow> bool" where
  "index_seekable view e c =
     (case view (ixIter c) of (xs, p) \<Rightarrow> \<forall>k \<in> set (take p xs). key_entry (length (seekPrefix c)) k < e)"

lemma sorted_entries:
  assumes "sorted_wrt (<) xs" "\<forall>k \<in> set xs. index_key pfx k"
  shows "sorted_wrt (<) (map (key_entry (length pfx)) xs)"
  using assms by (induction xs) (auto simp: key_entry_less)

lemma index_moved_spec:
  assumes c: "iter_laws I view" "timestampOffset c = length (seekPrefix c)" "eventIDOffset c = length (seekPrefix c) + 8"
    and xs: "sorted_wrt (<) xs" "\<forall>k \<in> set xs. index_key (seekPrefix c) k"
    and r: "view (fst r) = (xs, p)" "snd r = (p < length xs)"
  shows "\<exists>c'. index_moved I c r = Some (c', index_rem view c' \<noteq> []) \<and> index_inv I view c' \<and>
    index_rem view c' = map (key_entry (length (seekPrefix c))) (drop p xs) \<and>
    view (ixIter c') = (xs, p) \<and> seekPrefix c' = seekPrefix c"
proof (cases "p < length xs")
  case True
  then have "index_key (seekPrefix c) (xs ! p)" using xs(2) by simp
  then obtain w b where k: "length b = 32" "xs ! p = seekPrefix c @ PutUint64 w @ b" by (auto simp: index_key_def)
  have key: "itKey I (fst r) = xs ! p" using iter_lawsD(3)[OF c(1) r(1) True] .
  have rc: "readCurrent I (c\<lparr>ixIter := fst r\<rparr>) = Some (c\<lparr>ixIter := fst r, curEntry := (w, b), curValid := True\<rparr>)"
    using c(2,3) k by (simp add: readCurrent_def key Let_def)
  show ?thesis
    using True r c xs k rc
    by (intro exI[of _ "c\<lparr>ixIter := fst r, curEntry := (w, b), curValid := True\<rparr>"])
      (auto simp: index_moved_def index_inv_def index_rem_def split: prod.splits)
next
  case False
  then show ?thesis
    using r c xs by (intro exI[of _ "c\<lparr>ixIter := fst r, curValid := False\<rparr>"])
      (auto simp: index_moved_def index_inv_def index_rem_def split: prod.splits)
qed

interpretation index: leaf_cursor "index_ops I" "index_inv I view" "index_rem view" "index_seekable view" for I view
proof
  fix c assume c: "index_inv I view c"
  obtain xs p where v: "view (ixIter c) = (xs, p)" by fastforce
  let ?e = "key_entry (length (seekPrefix c))"
  have xs: "sorted_wrt (<) xs" "\<forall>k \<in> set xs. index_key (seekPrefix c) k"
    and I: "iter_laws I view" "timestampOffset c = length (seekPrefix c)" "eventIDOffset c = length (seekPrefix c) + 8"
    using c v by (simp_all add: index_inv_def)
  have es: "sorted_wrt (<) (map ?e xs)" using sorted_entries[OF xs] .
  then have ess: "sorted_wrt (<) (map ?e (drop p xs))" by (simp add: drop_map[symmetric] sorted_wrt_drop)
  then show "sorted (index_rem view c)"
    by (auto simp: index_rem_def v intro: strict_sorted_imp_sorted)
  show "length (snd x) = 32" if "x \<in> set (index_rem view c)" for x
  proof -
    have "set (index_rem view c) \<subseteq> ?e ` set xs"
    proof (cases "curValid c")
      case True
      then have "set (index_rem view c) = ?e ` set (drop p xs)" by (simp add: index_rem_def v)
      then show ?thesis by (metis image_mono set_drop_subset)
    next
      case False
      then have "index_rem view c = []" by (simp add: index_rem_def)
      then show ?thesis by simp
    qed
    with that obtain k where "k \<in> set xs" "x = ?e k" by blast
    with xs(2) show ?thesis by (auto simp: index_key_def)
  qed
  show "cValid (index_ops I) c \<longleftrightarrow> index_rem view c \<noteq> []"
    using c by (auto simp: index_ops_def index_rem_def index_inv_def v)
  assume r: "index_rem view c \<noteq> []"
  then have cv: "curValid c" "p < length xs" "curEntry c = ?e (xs ! p)" 
    using c by (auto simp: index_rem_def index_inv_def v split: if_splits)
  then have rem: "index_rem view c = map ?e (drop p xs)" by (simp add: index_rem_def v)
  then have hd: "hd (index_rem view c) = ?e (xs ! p)" using cv(2) by (simp add: hd_map hd_drop_conv_nth)
  then show "cHead (index_ops I) c = hd (index_rem view c)" using cv by (simp add: index_ops_def)
  note law = iter_lawsD[OF I(1) v]
  from index_moved_spec[OF I xs law(4)[OF cv(2)]] law(5)[OF cv(2)] obtain c' where
    n: "indexNext I c = Some (c', index_rem view c' \<noteq> [])" "index_inv I view c'"
       "index_rem view c' = map ?e (drop (Suc p) xs)" "view (ixIter c') = (xs, Suc p)" "seekPrefix c' = seekPrefix c"
    unfolding indexNext_def by blast
  moreover have "map ?e (drop (Suc p) xs) = tl (index_rem view c)"
    unfolding rem map_tl[symmetric] tl_drop[symmetric] drop_Suc by (simp add: tl_drop)
  ultimately show "\<exists>c'. cNext (index_ops I) c = Some (c', index_rem view c' \<noteq> []) \<and> index_inv I view c' \<and>
      index_rem view c' = tl (index_rem view c)"
    by (simp add: index_ops_def)
  show "index_seekable view e c" if "hd (index_rem view c) < e" for e
  proof -
    have "?e k < ?e (xs ! p)" if "k \<in> set (take p xs)" for k
    proof -
      from that cv(2) obtain i where "i < p" "k = xs ! i" by (auto simp: in_set_conv_nth)
      with sorted_wrt_nth_less[OF es, of i p] cv(2) show ?thesis by simp
    qed
    with hd that show ?thesis unfolding index_seekable_def v prod.case by (metis order.strict_trans)
  qed
  then show "index_seekable view e c''"
    if "cNext (index_ops I) c = Some (c'', ok)" "hd (index_rem view c) < e" for c'' ok e
  proof -
    have "c'' = c'" using that(1) n(1) by (simp add: index_ops_def)
    moreover have "index_seekable view e c" using that(2) \<open>\<And>e. hd (index_rem view c) < e \<Longrightarrow> index_seekable view e c\<close> by blast
    ultimately show ?thesis using n(4,5) that(2) hd cv(2) by (auto simp: index_seekable_def v take_Suc_conv_app_nth)
  qed
  fix e assume e: "index_seekable view e c" "length (snd e) = 32"
  define key where "key = seekPrefix c @ PutUint64 (fst e) @ snd e"
  have ke: "index_key (seekPrefix c) key" "?e key = e" using e(2) by (auto simp: key_def index_key_def)
  define q where "q = length (takeWhile (\<lambda>x. x < key) xs)"
  from index_moved_spec[OF I xs law(6)[of key] law(7)[of key]] obtain s where
    s: "indexSeekGE I e c = Some (s, index_rem view s \<noteq> [])" "index_inv I view s"
       "index_rem view s = map ?e (drop q xs)" "view (ixIter s) = (xs, q)" "seekPrefix s = seekPrefix c"
    unfolding indexSeekGE_def key_def q_def using e(2) by (auto simp: Let_def)
  have lt: "x < key \<longleftrightarrow> ?e x < e" if "x \<in> set xs" for x using key_entry_less[OF _ ke(1)] xs(2) that ke(2) by auto
  have "drop q xs = dropWhile (\<lambda>x. x < key) xs" by (simp add: q_def dropWhile_eq_drop)
  also have "\<dots> = dropWhile (\<lambda>x. ?e x < e) xs" using lt by (intro dropWhile_cong) auto
  also have "\<dots> = dropWhile (\<lambda>x. ?e x < e) (take p xs @ drop p xs)" by simp
  also have "\<dots> = dropWhile (\<lambda>x. ?e x < e) (drop p xs)"
    by (rule dropWhile_append2) (use e(1) v in \<open>auto simp: index_seekable_def\<close>)
  finally have "index_rem view s = dropWhile (\<lambda>x. x < e) (index_rem view c)"
    unfolding s(3) rem by (simp add: dropWhile_map comp_def)
  moreover have "take q xs = takeWhile (\<lambda>x. x < key) xs" by (simp add: q_def takeWhile_eq_take[symmetric])
  then have "index_seekable view e s" using lt by (auto simp: index_seekable_def s(4,5) dest: set_takeWhileD)
  ultimately show "\<exists>c'. cSeekGE (index_ops I) e c = Some (c', index_rem view c' \<noteq> []) \<and> index_inv I view c' \<and>
      index_seekable view e c' \<and> index_rem view c' = dropWhile (\<lambda>x. x < e) (index_rem view c)"
    using s by (auto simp: index_ops_def)
next
  fix c e e' assume "index_inv I view c" "index_seekable view e c" "e \<le> e'"
  then show "index_seekable view e' c" by (auto simp: index_seekable_def split: prod.splits)
qed

section \<open>The cursor of a filter\<close>

sublocale leaf_cursor \<subseteq> wrapped: cursor "wrapped_ops ops" wrapped_inv wrapped_rem
  by (rule wrapped_cursor)

sublocale leaf_cursor \<subseteq> joined: cursor "intersect_ops (wrapped_ops ops)" wrapped.intersect_inv wrapped.intersect_rem
  by (rule wrapped.intersect_cursor)

context leaf_cursor
begin

definition query_inv :: "'c queryCursor \<Rightarrow> bool" where
  "query_inv q = (case q of ByIDs s \<Rightarrow> slice_inv s | OneCondition w \<Rightarrow> wrapped_inv w
     | AllConditions c \<Rightarrow> wrapped.intersect_inv c)"

definition query_rem :: "'c queryCursor \<Rightarrow> entry list" where
  "query_rem q = (case q of ByIDs s \<Rightarrow> slice_rem s | OneCondition w \<Rightarrow> wrapped_rem w
     | AllConditions c \<Rightarrow> wrapped.intersect_rem c)"

lemma query_cursor: "cursor (query_ops ops) query_inv query_rem"
proof
  fix q assume q: "query_inv q"
  show "sorted (query_rem q)"
    using q slice.rem_sorted wrapped.rem_sorted joined.rem_sorted
    by (auto simp: query_inv_def query_rem_def split: queryCursor.splits)
  show "length (snd x) = 32" if "x \<in> set (query_rem q)" for x
  proof -
    note q' = q that
    show ?thesis
      using q' unfolding query_inv_def query_rem_def
      by (cases q; simp only: queryCursor.case) (blast intro: slice.rem_ids wrapped.rem_ids joined.rem_ids)+
  qed
  show "cValid (query_ops ops) q \<longleftrightarrow> query_rem q \<noteq> []"
    using q slice.valid_rem wrapped.valid_rem joined.valid_rem
    by (auto simp: query_ops_def query_inv_def query_rem_def split: queryCursor.splits)
  assume r: "query_rem q \<noteq> []"
  then show "cHead (query_ops ops) q = hd (query_rem q)"
    using q slice.head_rem wrapped.head_rem joined.head_rem
    by (auto simp: query_ops_def query_inv_def query_rem_def split: queryCursor.splits)
  show "\<exists>c'. cNext (query_ops ops) q = Some (c', query_rem c' \<noteq> []) \<and> query_inv c' \<and> query_rem c' = tl (query_rem q)"
  proof (cases q)
    case (ByIDs s)
    with q r slice.next_rem[of s] show ?thesis
      by (auto simp: query_ops_def query_inv_def query_rem_def lift_cursor_def)
  next
    case (OneCondition w)
    with q r wrapped.next_rem[of w] show ?thesis
      by (auto simp: query_ops_def query_inv_def query_rem_def lift_cursor_def)
  next
    case (AllConditions c)
    with q r joined.next_rem[of c] show ?thesis
      by (auto simp: query_ops_def query_inv_def query_rem_def lift_cursor_def)
  qed
  fix e assume e: "hd (query_rem q) < e" "length (snd e) = 32"
  show "\<exists>c'. cSeekGE (query_ops ops) e q = Some (c', query_rem c' \<noteq> []) \<and> query_inv c' \<and>
      query_rem c' = dropWhile (\<lambda>x. x < e) (query_rem q)"
  proof (cases q)
    case (ByIDs s)
    with q r e slice.seek_rem[of s e] show ?thesis
      by (fastforce simp: query_ops_def query_inv_def query_rem_def lift_cursor_def)
  next
    case (OneCondition w)
    with q r e wrapped.seek_rem[of w e] show ?thesis
      by (fastforce simp: query_ops_def query_inv_def query_rem_def lift_cursor_def)
  next
    case (AllConditions c)
    with q r e joined.seek_rem[of c e] show ?thesis
      by (fastforce simp: query_ops_def query_inv_def query_rem_def lift_cursor_def)
  qed
qed

end

sublocale leaf_cursor \<subseteq> query: cursor "query_ops ops" query_inv query_rem
  by (rule query_cursor)

end
