(* ===== verification/Filter_Merge.thy ===== *)
theory Filter_Merge
  imports Cursor_Leaves In_Memory_Storage
begin

text \<open>
  The merge over the filters of a request in \<^verbatim>\<open>PebbleStorage.Query\<close>: a heap of cursors with their
  filters, popped at the smallest pair, each event fetched and matched again, reported once and
  at most \<^verbatim>\<open>limit\<close> times. The lemma says what the loop yields for any cursors that satisfy the
  contract, and that it ends.
\<close>

definition filterCursor_lt :: "'c cursor_ops \<Rightarrow> 'c \<times> 'f \<Rightarrow> 'c \<times> 'f \<Rightarrow> bool" where
  "filterCursor_lt ops a b =
     (if fst (cHead ops (fst a)) \<noteq> fst (cHead ops (fst b))
      then fst (cHead ops (fst a)) < fst (cHead ops (fst b))
      else bytesLess (snd (cHead ops (fst a))) (snd (cHead ops (fst b))))"

abbreviation pair_key :: "'c cursor_ops \<Rightarrow> 'c \<times> 'f \<Rightarrow> entry" where
  "pair_key ops p \<equiv> cHead ops (fst p)"

lemma filterCursor_lt_key: "filterCursor_lt ops = by_key (\<lambda>p. pair_key ops p)"
  by (intro ext) (auto simp: filterCursor_lt_def bytesLess_less less_prod_def)

text \<open>
  One round of the loop: an error of the snapshot, or the event to yield, if any, with the heap
  after the cursor moved on. \<open>get\<close> is \<^verbatim>\<open>getEventByIDFromSnapshot\<close> on the snapshot.
\<close>

datatype 'c query_round = ReadFailed go_error | Skipped "('c \<times> ReqFilter) list" | Yielded Event string "('c \<times> ReqFilter) list"

definition query_round ::
    "'c cursor_ops \<Rightarrow> (string \<Rightarrow> go_error + Event option) \<Rightarrow> string set \<Rightarrow> ('c \<times> ReqFilter) list \<Rightarrow> 'c query_round option" where
  "query_round ops get seen fh =
     (let (pair, fh1) = heap_pop (filterCursor_lt ops) fh;
          eventID = snd (cHead ops (fst pair));
          eventIDHex = bytesToHex eventID;
          event = (if eventIDHex \<in> seen then Inr None else get eventID) in
      case event of Inl err \<Rightarrow> Some (ReadFailed err)
      | Inr ev \<Rightarrow>
          (case cNext ops (fst pair) of None \<Rightarrow> None
           | Some (c', ok) \<Rightarrow>
               (let fh2 = (if ok then heap_push (filterCursor_lt ops) fh1 (c', snd pair) else fh1) in
                case ev of None \<Rightarrow> Some (Skipped fh2)
                | Some e \<Rightarrow> Some (if Match (snd pair) e then Yielded e eventIDHex fh2 else Skipped fh2))))"

text \<open>
  The loop: the events yielded and \<^verbatim>\<open>queryErr\<close>. \<open>None\<close> is a panic or a loop that does not end.
\<close>

partial_function (option) query_loop ::
    "'c cursor_ops \<Rightarrow> (string \<Rightarrow> go_error + Event option) \<Rightarrow> int \<Rightarrow> int \<Rightarrow> string set \<Rightarrow>
     ('c \<times> ReqFilter) list \<Rightarrow> (Event list \<times> go_error option) option" where
  "query_loop ops get limit cnt seen fh =
     (if length fh = 0 then Some ([], None)
      else if limit \<ge> 0 \<and> cnt \<ge> limit then Some ([], None)
      else case query_round ops get seen fh of None \<Rightarrow> None
      | Some r \<Rightarrow>
          (case r of ReadFailed err \<Rightarrow> Some ([], Some err)
           | Skipped fh2 \<Rightarrow> query_loop ops get limit cnt seen fh2
           | Yielded event eventIDHex fh2 \<Rightarrow>
               Option.bind (query_loop ops get limit (cnt + 1) (insert eventIDHex seen) fh2)
                 (\<lambda>p. Some (event # fst p, snd p))))"

lemma bytesToHex_inject: "bytesToHex a = bytesToHex b \<longleftrightarrow> a = b"
  by (metis DecodeString_EncodeToString bytesToHex_Encode option.inject)

context cursor
begin

text \<open>The pairs that are still to be reported, \<open>look\<close> finding the event of an identifier.\<close>

definition due :: "(string \<Rightarrow> Event option) \<Rightarrow> string set \<Rightarrow> ('c \<times> ReqFilter) list \<Rightarrow> entry set" where
  "due look seen fh = {x. bytesToHex (snd x) \<notin> seen \<and>
     (\<exists>(c, f) \<in> set fh. x \<in> set (rem c) \<and> (\<exists>ev. look (snd x) = Some ev \<and> Match f ev))}"

lemma due_iff: "x \<in> due look seen fh \<longleftrightarrow> bytesToHex (snd x) \<notin> seen \<and>
    (\<exists>c f ev. (c, f) \<in> set fh \<and> x \<in> set (rem c) \<and> look (snd x) = Some ev \<and> Match f ev)"
  unfolding due_def by blast

definition heap_inv :: "('c \<times> ReqFilter) list \<Rightarrow> bool" where
  "heap_inv fh \<longleftrightarrow> is_heap (\<lambda>p. pair_key ops p) fh \<and> (\<forall>(c, f) \<in> set fh. inv c \<and> rem c \<noteq> [])"

definition work :: "('c \<times> ReqFilter) list \<Rightarrow> nat" where
  "work fh = \<Sum>\<^sub># (image_mset (\<lambda>(c, f). length (rem c)) (mset fh))"

text \<open>One round: the smallest pair leaves the heap and its cursor moves on.\<close>

lemma pop_round:
  assumes h: "heap_inv fh" "fh \<noteq> []" and pop: "heap_pop (filterCursor_lt ops) fh = ((c, f), fh1)"
  obtains c' where "cNext ops c = Some (c', rem c' \<noteq> [])"
    and "heap_inv (if rem c' \<noteq> [] then heap_push (filterCursor_lt ops) fh1 (c', f) else fh1)"
    and "work (if rem c' \<noteq> [] then heap_push (filterCursor_lt ops) fh1 (c', f) else fh1) < work fh"
    and "rem c = cHead ops c # rem c'" "inv c"
    and "\<And>d g. (d, g) \<in> set fh \<longleftrightarrow> (d, g) = (c, f) \<or> (d, g) \<in> set fh1"
    and "\<And>d g. (d, g) \<in> set (if rem c' \<noteq> [] then heap_push (filterCursor_lt ops) fh1 (c', f) else fh1) \<longleftrightarrow>
      (d, g) = (c', f) \<and> rem c' \<noteq> [] \<or> (d, g) \<in> set fh1"
    and "\<And>d g x. (d, g) \<in> set fh \<Longrightarrow> x \<in> set (rem d) \<Longrightarrow> cHead ops c \<le> x"
proof -
  let ?k = "\<lambda>p. pair_key ops p"
  have heap: "is_heap ?k fh" using h(1) by (simp add: heap_inv_def)
  from heap_pop[OF is_heap_weaken[OF heap] h(2)] pop
  have p: "(c, f) = fh ! 0" "is_heap ?k fh1" "mset fh = add_mset (c, f) (mset fh1)"
    by (simp_all add: filterCursor_lt_key)
  have s: "(d, g) \<in> set fh \<longleftrightarrow> (d, g) = (c, f) \<or> (d, g) \<in> set fh1" for d g
    using arg_cong[OF p(3), of set_mset] by auto
  have all: "(d, g) \<in> set fh \<Longrightarrow> inv d \<and> rem d \<noteq> []" for d g using h(1) by (auto simp: heap_inv_def)
  have c: "inv c" "rem c \<noteq> []" using all[of c f] s by auto
  from next_rem[OF c] obtain c' where n: "cNext ops c = Some (c', rem c' \<noteq> [])" "inv c'" "rem c' = tl (rem c)" by blast
  let ?fh2 = "if rem c' \<noteq> [] then heap_push (filterCursor_lt ops) fh1 (c', f) else fh1"
  have m2: "mset ?fh2 = (if rem c' \<noteq> [] then add_mset (c', f) (mset fh1) else mset fh1)"
    using heap_push(2)[OF p(2)] by (simp add: filterCursor_lt_key)
  have s2: "(d, g) \<in> set ?fh2 \<longleftrightarrow> (d, g) = (c', f) \<and> rem c' \<noteq> [] \<or> (d, g) \<in> set fh1" for d g
    using arg_cong[OF m2, of set_mset] by auto
  have "is_heap ?k ?fh2" using heap_push(1)[OF p(2)] p(2) by (simp add: filterCursor_lt_key)
  moreover have "inv d \<and> rem d \<noteq> []" if "(d, g) \<in> set ?fh2" for d g
    using that[unfolded s2] n(2) all[of d g] s[of d g] by blast
  ultimately have inv2: "heap_inv ?fh2" unfolding heap_inv_def by blast
  have remc: "rem c = cHead ops c # rem c'" using rem_head_tl[OF c] n(3) by simp
  have "work ?fh2 < work fh"
  proof -
    have "length (rem c) = Suc (length (rem c'))" by (subst remc) simp
    then show ?thesis unfolding work_def m2 p(3) by simp
  qed
  moreover have "cHead ops c \<le> x" if "(d, g) \<in> set fh" "x \<in> set (rem d)" for d g x
  proof -
    have "cHead ops c \<le> cHead ops d" using is_heap_least[OF heap that(1)] p(1) by (metis fst_conv)
    also have "\<dots> \<le> x" using all[OF that(1)] that(2) by (simp add: head_least)
    finally show ?thesis .
  qed
  ultimately show thesis using that[OF n(1) inv2 _ remc c(1) s s2] by blast
qed

text \<open>
  What the loop yields: the due pairs in ascending order, cut at the limit, unless a read failed;
  and it always ends.
\<close>

lemma query_loop_spec:
  assumes "heap_inv fh"
    and "\<And>c f d g x y. (c, f) \<in> set fh \<Longrightarrow> (d, g) \<in> set fh \<Longrightarrow> x \<in> set (rem c) \<Longrightarrow> y \<in> set (rem d) \<Longrightarrow>
      snd x = snd y \<Longrightarrow> x = y"
    and "\<And>c f x ev. (c, f) \<in> set fh \<Longrightarrow> x \<in> set (rem c) \<Longrightarrow> get (snd x) = Inr ev \<Longrightarrow> ev = look (snd x)"
  shows "\<exists>es err. query_loop ops get limit cnt seen fh = Some (es, err) \<and>
    (err = None \<longrightarrow> (\<exists>xs. sorted_wrt (<) xs \<and> set xs = due look seen fh \<and>
       es = map (\<lambda>x. the (look (snd x))) (if limit \<ge> 0 then take (nat (limit - cnt)) xs else xs)))"
  using assms
proof (induction "work fh" arbitrary: fh cnt seen rule: less_induct)
  case less
  show ?case
  proof (cases "fh = [] \<or> limit \<ge> 0 \<and> cnt \<ge> limit")
    case True
    have "finite (due look seen fh)"
      by (rule finite_subset[of _ "\<Union>(c, f) \<in> set fh. set (rem c)"]) (auto simp: due_def)
    then obtain xs where xs: "sorted_wrt (<) xs" "set xs = due look seen fh"
      by (metis finite_sorted_distinct_unique strict_sorted_iff)
    moreover have "xs = []" if "fh = []" using xs(2) that by (simp add: due_def)
    ultimately show ?thesis using True by (subst query_loop.simps) (auto intro!: exI[of _ xs])
  next
    case False
    then have ne: "fh \<noteq> []" by simp
    obtain c f fh1 where pop: "heap_pop (filterCursor_lt ops) fh = ((c, f), fh1)" by (metis prod.collapse)
    obtain c' where n: "cNext ops c = Some (c', rem c' \<noteq> [])"
      and fh2: "heap_inv (if rem c' \<noteq> [] then heap_push (filterCursor_lt ops) fh1 (c', f) else fh1)"
        "work (if rem c' \<noteq> [] then heap_push (filterCursor_lt ops) fh1 (c', f) else fh1) < work fh"
      and c: "rem c = cHead ops c # rem c'" "inv c"
      and s: "\<And>d g. (d, g) \<in> set fh \<longleftrightarrow> (d, g) = (c, f) \<or> (d, g) \<in> set fh1"
      and s2: "\<And>d g. (d, g) \<in> set (if rem c' \<noteq> [] then heap_push (filterCursor_lt ops) fh1 (c', f) else fh1) \<longleftrightarrow>
        (d, g) = (c', f) \<and> rem c' \<noteq> [] \<or> (d, g) \<in> set fh1"
      and low: "\<And>d g x. (d, g) \<in> set fh \<Longrightarrow> x \<in> set (rem d) \<Longrightarrow> cHead ops c \<le> x"
      using pop_round[OF less.prems(1) ne pop] by blast
    define p where "p = cHead ops c"
    define h2 where "h2 = (if rem c' \<noteq> [] then heap_push (filterCursor_lt ops) fh1 (c', f) else fh1)"
    note fh2 = fh2[folded h2_def] and s2 = s2[folded h2_def]
    have sub: "\<exists>d'. (d', g) \<in> set fh \<and> x \<in> set (rem d')" if "(d, g) \<in> set h2" "x \<in> set (rem d)" for d g x
      using that s2[of d g] s c(1) by fastforce
    have uniq: "x = y" if "(d, g) \<in> set h2" "(d', g') \<in> set h2" "x \<in> set (rem d)" "y \<in> set (rem d')" "snd x = snd y"
      for d g d' g' x y
      using sub[OF that(1,3)] sub[OF that(2,4)] less.prems(2) that(5) by blast
    have pin: "p \<in> set (rem c)" "(c, f) \<in> set fh" using c(1) s by (auto simp: p_def)
    have due_h2: "due look seen' h2 \<subseteq> due look seen' fh" for seen'
      unfolding due_def using sub by blast
    have due_fh: "due look seen' fh \<subseteq> insert p (due look seen' h2)" for seen'
    proof
      fix x assume x: "x \<in> due look seen' fh"
      then obtain d g where d: "(d, g) \<in> set fh" "x \<in> set (rem d)" "\<exists>ev. look (snd x) = Some ev \<and> Match g ev"
        "bytesToHex (snd x) \<notin> seen'" by (auto simp: due_def)
      have "x = p \<or> (\<exists>d'. (d', g) \<in> set h2 \<and> x \<in> set (rem d'))"
        using d(1,2) s[of d g] s2 c(1) unfolding p_def by (metis Pair_inject empty_iff empty_set set_ConsD)
      with d show "x \<in> insert p (due look seen' h2)" unfolding due_def by blast
    qed
    have IH: "\<exists>es err. query_loop ops get limit cnt' seen' h2 = Some (es, err) \<and>
      (err = None \<longrightarrow> (\<exists>xs. sorted_wrt (<) xs \<and> set xs = due look seen' h2 \<and>
       es = map (\<lambda>x. the (look (snd x))) (if limit \<ge> 0 then take (nat (limit - cnt')) xs else xs)))" for cnt' seen'
    proof (rule less.hyps[OF fh2(2,1)])
      show "x = y" if "(d, g) \<in> set h2" "(d', g') \<in> set h2" "x \<in> set (rem d)" "y \<in> set (rem d')" "snd x = snd y"
        for d g d' g' x y using uniq that by blast
      show "ev = look (snd x)" if "(d, g) \<in> set h2" "x \<in> set (rem d)" "get (snd x) = Inr ev" for d g x ev
        using sub[OF that(1,2)] less.prems(3) that(3) by blast
    qed
    have loop: "query_loop ops get limit cnt seen fh =
      (case query_round ops get seen fh of None \<Rightarrow> None
      | Some r \<Rightarrow>
          (case r of ReadFailed err \<Rightarrow> Some ([], Some err)
           | Skipped fh2 \<Rightarrow> query_loop ops get limit cnt seen fh2
           | Yielded event eventIDHex fh2 \<Rightarrow>
               Option.bind (query_loop ops get limit (cnt + 1) (insert eventIDHex seen) fh2)
                 (\<lambda>p. Some (event # fst p, snd p))))"
      using False by (subst query_loop.simps) auto
    have round: "query_round ops get seen fh =
      (case (if bytesToHex (snd p) \<in> seen then Inr None else get (snd p)) of Inl err \<Rightarrow> Some (ReadFailed err)
       | Inr None \<Rightarrow> Some (Skipped h2)
       | Inr (Some e) \<Rightarrow> Some (if Match f e then Yielded e (bytesToHex (snd p)) h2 else Skipped h2))"
      using n by (auto simp: query_round_def pop p_def h2_def split: sum.splits option.splits)
    have skip: ?thesis if "query_round ops get seen fh = Some (Skipped h2)" "p \<in> due look seen fh \<Longrightarrow> p \<in> due look seen h2"
    proof -
      have "due look seen h2 = due look seen fh" using due_h2 due_fh that(2) by blast
      with IH[of cnt seen] that(1) show ?thesis by (simp add: loop)
    qed
    have other: "p \<in> due look seen h2" if "p \<in> due look seen fh" "\<not> (\<exists>ev. look (snd p) = Some ev \<and> Match f ev)"
    proof -
      from that obtain d g where "(d, g) \<in> set fh" "p \<in> set (rem d)" "\<exists>ev. look (snd p) = Some ev \<and> Match g ev"
        "bytesToHex (snd p) \<notin> seen" by (auto simp: due_def)
      moreover from this that have "(d, g) \<in> set h2" using s[of d g] s2[of d g] by auto
      ultimately show ?thesis unfolding due_def by blast
    qed
    show ?thesis
    proof (cases "bytesToHex (snd p) \<in> seen")
      case True
      then have "p \<notin> due look seen fh" by (simp add: due_def)
      with True skip show ?thesis by (simp add: round)
    next
      case unseen: False
      show ?thesis
      proof (cases "get (snd p)")
        case (Inl e)
        with unseen round show ?thesis by (simp add: loop)
      next
        case (Inr evo)
        with less.prems(3) pin have lp: "look (snd p) = evo" by blast
        show ?thesis
        proof (cases "\<exists>ev. evo = Some ev \<and> Match f ev")
          case False
          then have "query_round ops get seen fh = Some (Skipped h2)"
            using unseen Inr by (auto simp: round split: option.splits)
          moreover have "\<not> (\<exists>ev. look (snd p) = Some ev \<and> Match f ev)" using False lp by simp
          ultimately show ?thesis using skip other by blast
        next
          case True
          then obtain ev where ev: "evo = Some ev" "Match f ev" by blast
          let ?seen = "insert (bytesToHex (snd p)) seen"
          have r: "query_round ops get seen fh = Some (Yielded ev (bytesToHex (snd p)) h2)"
            using unseen Inr ev by (simp add: round)
          have pd: "p \<in> due look seen fh" using unseen lp ev pin by (auto simp: due_iff)
          have "due look ?seen fh = due look seen fh - {p}"
          proof -
            have "x = p" if "bytesToHex (snd x) = bytesToHex (snd p)" "(d, g) \<in> set fh" "x \<in> set (rem d)" for x d g
              using that pin less.prems(2) unfolding bytesToHex_inject by blast
            then show ?thesis by (intro set_eqI) (unfold Diff_iff due_iff, blast)
          qed
          moreover have "p \<notin> due look ?seen fh" by (simp add: due_iff)
          then have "due look ?seen h2 = due look ?seen fh"
            using due_h2[of ?seen] due_fh[of ?seen] by blast
          ultimately have due: "due look seen fh = insert p (due look ?seen h2)" "p \<notin> due look ?seen h2" using pd by auto
          have above: "p < x" if "x \<in> due look ?seen h2" for x
          proof -
            have "x \<in> due look seen fh" "x \<noteq> p" using due that by auto
            then have "p \<le> x" using low unfolding due_def p_def by blast
            with \<open>x \<noteq> p\<close> show ?thesis by simp
          qed
          from IH[of "cnt + 1" ?seen] obtain es err where l: "query_loop ops get limit (cnt + 1) ?seen h2 = Some (es, err)"
            and spec: "err = None \<longrightarrow> (\<exists>xs. sorted_wrt (<) xs \<and> set xs = due look ?seen h2 \<and>
              es = map (\<lambda>x. the (look (snd x))) (if limit \<ge> 0 then take (nat (limit - (cnt + 1))) xs else xs))" by blast
          have "\<exists>xs. sorted_wrt (<) xs \<and> set xs = due look seen fh \<and>
              ev # es = map (\<lambda>x. the (look (snd x))) (if limit \<ge> 0 then take (nat (limit - cnt)) xs else xs)"
            if none: "err = None"
          proof -
            from spec none obtain xs where xs: "sorted_wrt (<) xs" "set xs = due look ?seen h2"
              "es = map (\<lambda>x. the (look (snd x))) (if limit \<ge> 0 then take (nat (limit - (cnt + 1))) xs else xs)" by blast
            have "the (look (snd p)) = ev" using lp ev by simp
            moreover have "nat (limit - cnt) = Suc (nat (limit - (cnt + 1)))" if "limit \<ge> 0" using that False by auto
            ultimately show ?thesis using xs due above by (intro exI[of _ "p # xs"]) auto
          qed
          then show ?thesis using l r by (simp add: loop)
        qed
      qed
    qed
  qed
qed

end

end
