(* ===== verification/Json.thy ===== *)
theory Json
  imports Text_Encoding
begin

text \<open>
  The parts of Go's \<^verbatim>\<open>encoding/json/v2\<close> and \<^verbatim>\<open>encoding/json/jsontext\<close> the wire formats rest on: the
  tokens of a JSON text, the decoder as a machine with a stack of open arrays and objects, and
  the encoder. The decoder is strict as in its default options: strings are valid UTF-8, names in an
  object are unique. (Its limit of 10000 on the nesting depth is left out; no value the relay
  accepts is nested deeper than three levels.) The lemmas show that the decoder reads what the
  encoder writes, whatever follows.
\<close>

section \<open>Values\<close>

text \<open>A number is its text.\<close>

datatype json =
  JNull | JBool bool | JNum string | JStr string | JArr "json list" | JObj "(string \<times> json) list"

section \<open>Tokens\<close>

definition is_ws :: "char \<Rightarrow> bool" where
  "is_ws c \<longleftrightarrow> c = CHR '' '' \<or> c = CHR 0x09 \<or> c = CHR 0x0A \<or> c = CHR 0x0D"

definition skip_ws :: "string \<Rightarrow> string" where
  "skip_ws s = dropWhile is_ws s"

text \<open>The UTF-8 encoding of a code point.\<close>

definition utf8_encode :: "nat \<Rightarrow> string" where
  "utf8_encode n =
     (if n < 128 then [char_of n]
      else if n < 2048 then [char_of (192 + n div 64), char_of (128 + n mod 64)]
      else if n < 65536 then [char_of (224 + n div 4096), char_of (128 + n div 64 mod 64), char_of (128 + n mod 64)]
      else [char_of (240 + n div 262144), char_of (128 + n div 4096 mod 64), char_of (128 + n div 64 mod 64),
            char_of (128 + n mod 64)])"

definition hex4 :: "char \<Rightarrow> char \<Rightarrow> char \<Rightarrow> char \<Rightarrow> nat option" where
  "hex4 a b c d =
     (case (hex_val a, hex_val b, hex_val c, hex_val d) of
        (Some w, Some x, Some y, Some z) \<Rightarrow> Some (4096 * w + 256 * x + 16 * y + z)
      | _ \<Rightarrow> None)"

text \<open>An escape after its backslash: the bytes it stands for. A surrogate must be one of a pair.\<close>

fun read_escape :: "string \<Rightarrow> (string \<times> string) option" where
  "read_escape [] = None"
| "read_escape (c # cs) =
     (if c = CHR 0x22 \<or> c = CHR 0x5C \<or> c = CHR ''/'' then Some ([c], cs)
      else if c = CHR ''b'' then Some ([CHR 0x08], cs)
      else if c = CHR ''f'' then Some ([CHR 0x0C], cs)
      else if c = CHR ''n'' then Some ([CHR 0x0A], cs)
      else if c = CHR ''r'' then Some ([CHR 0x0D], cs)
      else if c = CHR ''t'' then Some ([CHR 0x09], cs)
      else if c = CHR ''u'' then
        (case cs of h1 # h2 # h3 # h4 # ds \<Rightarrow>
           (case hex4 h1 h2 h3 h4 of None \<Rightarrow> None
            | Some n \<Rightarrow>
                if n < 55296 \<or> 57344 \<le> n then Some (utf8_encode n, ds)
                else if n < 56320 then
                  (case ds of b # u # k1 # k2 # k3 # k4 # es \<Rightarrow>
                     if b = CHR 0x5C \<and> u = CHR ''u'' then
                       (case hex4 k1 k2 k3 k4 of None \<Rightarrow> None
                        | Some m \<Rightarrow>
                            if 56320 \<le> m \<and> m < 57344
                            then Some (utf8_encode (65536 + (n - 55296) * 1024 + (m - 56320)), es) else None)
                     else None
                   | _ \<Rightarrow> None)
                else None)
         | _ \<Rightarrow> None)
      else None)"

lemma read_escape_shorter: "read_escape s = Some (b, r) \<Longrightarrow> length r < length s"
  by (cases s) (auto split: if_splits list.splits option.splits)

text \<open>A string after its opening quote.\<close>

function read_body :: "string \<Rightarrow> (string \<times> string) option" where
  "read_body s =
     (case s of [] \<Rightarrow> None
      | c # cs \<Rightarrow>
          if c = CHR 0x22 then Some ([], cs)
          else if c = CHR 0x5C then
            (case read_escape cs of None \<Rightarrow> None
             | Some (b, r) \<Rightarrow> map_option (apfst (\<lambda>t. b @ t)) (read_body r))
          else if byte_of c < 32 then None
          else (case rune_width s of None \<Rightarrow> None
                | Some w \<Rightarrow> map_option (apfst (\<lambda>t. take w s @ t)) (read_body (drop w s))))"
  by pat_completeness auto
termination
  by (relation "measure length") (auto simp del: rune_width.simps dest: read_escape_shorter rune_width_pos)

declare read_body.simps [simp del]

lemma read_body_Cons:
  "read_body (c # cs) =
     (if c = CHR 0x22 then Some ([], cs)
      else if c = CHR 0x5C then
        (case read_escape cs of None \<Rightarrow> None
         | Some (b, r) \<Rightarrow> map_option (apfst (\<lambda>t. b @ t)) (read_body r))
      else if byte_of c < 32 then None
      else (case rune_width (c # cs) of None \<Rightarrow> None
            | Some w \<Rightarrow> map_option (apfst (\<lambda>t. take w (c # cs) @ t)) (read_body (drop w (c # cs)))))"
  by (subst read_body.simps) (simp only: list.case)

definition read_digits :: "string \<Rightarrow> (string \<times> string) option" where
  "read_digits s = (let d = takeWhile is_digit s in if d = [] then None else Some (d, dropWhile is_digit s))"

text \<open>The integer part, the fraction and the exponent of a number.\<close>

fun read_int_part :: "string \<Rightarrow> (string \<times> string) option" where
  "read_int_part [] = None"
| "read_int_part (c # cs) = (if c = CHR ''0'' then Some ([c], cs) else read_digits (c # cs))"

fun read_frac :: "string \<Rightarrow> (string \<times> string) option" where
  "read_frac [] = Some ([], [])"
| "read_frac (c # cs) =
     (if c = CHR ''.'' then map_option (apfst (Cons c)) (read_digits cs) else Some ([], c # cs))"

fun read_exp :: "string \<Rightarrow> (string \<times> string) option" where
  "read_exp [] = Some ([], [])"
| "read_exp (c # cs) =
     (if c = CHR ''e'' \<or> c = CHR ''E'' then
        (case cs of [] \<Rightarrow> None
         | s # ds \<Rightarrow>
             if s = CHR ''+'' \<or> s = CHR ''-'' then map_option (apfst (\<lambda>d. c # s # d)) (read_digits ds)
             else map_option (apfst (Cons c)) (read_digits cs))
      else Some ([], c # cs))"

definition read_number :: "string \<Rightarrow> (string \<times> string) option" where
  "read_number s =
     (case (case s of c # cs \<Rightarrow> if c = CHR ''-'' then ([c], cs) else ([], s) | [] \<Rightarrow> ([], s)) of (sign, s1) \<Rightarrow>
        (case read_int_part s1 of None \<Rightarrow> None
         | Some (i, s2) \<Rightarrow>
             (case read_frac s2 of None \<Rightarrow> None
              | Some (f, s3) \<Rightarrow>
                  (case read_exp s3 of None \<Rightarrow> None
                   | Some (e, s4) \<Rightarrow> Some (sign @ i @ f @ e, s4)))))"

datatype token = TPunct char | TScalar json

definition strip_prefix :: "string \<Rightarrow> string \<Rightarrow> string option" where
  "strip_prefix p s = (if take (length p) s = p then Some (drop (length p) s) else None)"

definition next_token :: "string \<Rightarrow> (token \<times> string) option" where
  "next_token s =
     (case skip_ws s of [] \<Rightarrow> None
      | c # cs \<Rightarrow>
          if c \<in> set ''{}[],:'' then Some (TPunct c, cs)
          else if c = CHR 0x22 then map_option (apfst (\<lambda>b. TScalar (JStr b))) (read_body cs)
          else if c = CHR ''n'' then map_option (Pair (TScalar JNull)) (strip_prefix ''ull'' cs)
          else if c = CHR ''t'' then map_option (Pair (TScalar (JBool True))) (strip_prefix ''rue'' cs)
          else if c = CHR ''f'' then map_option (Pair (TScalar (JBool False))) (strip_prefix ''alse'' cs)
          else map_option (apfst (\<lambda>n. TScalar (JNum n))) (read_number (c # cs)))"

lemma read_body_shorter: "read_body s = Some (b, r) \<Longrightarrow> length r < length s"
proof (induction s arbitrary: b r rule: read_body.induct)
  case (1 s)
  show ?case
  proof (cases s)
    case (Cons c cs)
    note step = 1(3)[unfolded Cons read_body_Cons]
    consider "c = CHR 0x22" | "c = CHR 0x5C" | "c \<noteq> CHR 0x22" "c \<noteq> CHR 0x5C" by blast
    then show ?thesis
    proof cases
      case 1
      with step Cons show ?thesis by simp
    next
      case 2
      with step obtain e r1 t where e: "read_escape cs = Some (e, r1)" "read_body r1 = Some (t, r)"
        by (auto split: option.splits)
      from "1.IH"(1)[OF Cons _ 2 e(1) refl e(2)] read_escape_shorter[OF e(1)] Cons 2 show ?thesis by simp
    next
      case 3
      with step obtain w t where w: "\<not> byte_of c < 32" "rune_width (c # cs) = Some w" "read_body (drop w (c # cs)) = Some (t, r)"
        by (auto simp del: rune_width.simps split: option.splits if_splits)
      from "1.IH"(2)[OF Cons 3 w(1)] w(2,3) Cons show ?thesis by fastforce
    qed
  qed (use 1 in \<open>simp add: read_body.simps\<close>)
qed

lemma read_digits_shorter: "read_digits s = Some (d, r) \<Longrightarrow> length r < length s"
proof -
  assume r: "read_digits s = Some (d, r)"
  then have "takeWhile is_digit s \<noteq> []" "r = dropWhile is_digit s" by (auto simp: read_digits_def Let_def split: if_splits)
  moreover have "length (takeWhile is_digit s @ dropWhile is_digit s) = length s" by simp
  ultimately show ?thesis by (cases "takeWhile is_digit s") simp_all
qed

lemma read_int_part_shorter: "read_int_part s = Some (d, r) \<Longrightarrow> length r < length s"
  by (cases s) (auto split: if_splits dest: read_digits_shorter)

lemma read_frac_shorter: "read_frac s = Some (d, r) \<Longrightarrow> length r \<le> length s"
  by (cases s) (auto split: if_splits dest: read_digits_shorter)

lemma read_exp_shorter: "read_exp s = Some (d, r) \<Longrightarrow> length r \<le> length s"
  by (cases s) (auto split: if_splits list.splits dest!: read_digits_shorter)

lemma read_number_shorter: "read_number s = Some (d, r) \<Longrightarrow> length r < length s"
proof -
  assume n: "read_number s = Some (d, r)"
  obtain sign s1 where s1: "(case s of c # cs \<Rightarrow> if c = CHR ''-'' then ([c], cs) else ([], s) | [] \<Rightarrow> ([], s)) = (sign, s1)"
    by fastforce
  then have "length s1 \<le> length s" by (auto split: list.splits if_splits)
  moreover obtain i s2 f s3 e where "read_int_part s1 = Some (i, s2)" "read_frac s2 = Some (f, s3)" "read_exp s3 = Some (e, r)"
    using n unfolding read_number_def s1 by (auto split: option.splits)
  ultimately show ?thesis using read_int_part_shorter[of s1] read_frac_shorter[of s2] read_exp_shorter[of s3] by fastforce
qed

lemma skip_ws_length: "length (skip_ws s) \<le> length s"
  by (simp add: skip_ws_def length_dropWhile_le)

lemma strip_prefix_Some: "strip_prefix p s = Some r \<Longrightarrow> s = p @ r"
  by (simp add: strip_prefix_def split: if_splits) (metis append_take_drop_id)

lemma next_token_shorter: "next_token s = Some (t, r) \<Longrightarrow> length r < length s"
proof -
  assume n: "next_token s = Some (t, r)"
  then obtain c cs where s: "skip_ws s = c # cs" by (auto simp: next_token_def split: list.splits)
  have "length r < Suc (length cs)"
    using n unfolding next_token_def s
    by (auto split: if_splits dest!: read_body_shorter read_number_shorter strip_prefix_Some)
  with skip_ws_length[of s] s show ?thesis by simp
qed

section \<open>The decoder\<close>

text \<open>An open array with its elements so far, an open object with its members and the pending name.\<close>

datatype container = FArr "json list" | FObj "(string \<times> json) list" "string option"

datatype expect = WantValue | WantValueOrEnd | WantName | WantNameOrEnd | WantColon | WantDelim

datatype parse_step = Bad | Finished json | Continue "container list" expect

fun add_value :: "json \<Rightarrow> container list \<Rightarrow> parse_step" where
  "add_value v [] = Finished v"
| "add_value v (FArr vs # fs) = Continue (FArr (vs @ [v]) # fs) WantDelim"
| "add_value v (FObj ms (Some k) # fs) = Continue (FObj (ms @ [(k, v)]) None # fs) WantDelim"
| "add_value v (FObj ms None # fs) = Bad"

fun close_frame :: "char \<Rightarrow> container list \<Rightarrow> parse_step" where
  "close_frame c (FArr vs # fs) = (if c = CHR '']'' then add_value (JArr vs) fs else Bad)"
| "close_frame c (FObj ms None # fs) = (if c = CHR ''}'' then add_value (JObj ms) fs else Bad)"
| "close_frame c fs = Bad"

fun open_value :: "token \<Rightarrow> container list \<Rightarrow> parse_step" where
  "open_value (TScalar v) fs = add_value v fs"
| "open_value (TPunct c) fs =
     (if c = CHR ''['' then Continue (FArr [] # fs) WantValueOrEnd
      else if c = CHR ''{'' then Continue (FObj [] None # fs) WantNameOrEnd
      else Bad)"

fun add_name :: "token \<Rightarrow> container list \<Rightarrow> parse_step" where
  "add_name (TScalar (JStr k)) (FObj ms None # fs) =
     (if k \<in> fst ` set ms then Bad else Continue (FObj ms (Some k) # fs) WantColon)"
| "add_name t fs = Bad"

fun parse_token :: "token \<Rightarrow> expect \<Rightarrow> container list \<Rightarrow> parse_step" where
  "parse_token t WantValue fs = open_value t fs"
| "parse_token t WantValueOrEnd fs = (if t = TPunct (CHR '']'') then close_frame (CHR '']'') fs else open_value t fs)"
| "parse_token t WantName fs = add_name t fs"
| "parse_token t WantNameOrEnd fs = (if t = TPunct (CHR ''}'') then close_frame (CHR ''}'') fs else add_name t fs)"
| "parse_token t WantColon fs = (if t = TPunct (CHR '':'') then Continue fs WantValue else Bad)"
| "parse_token t WantDelim fs =
     (case t of TPunct c \<Rightarrow>
        if c = CHR '','' then (case fs of FArr vs # fs' \<Rightarrow> Continue fs WantValue | _ \<Rightarrow> Continue fs WantName)
        else close_frame c fs
      | TScalar v \<Rightarrow> Bad)"

function read_loop :: "container list \<Rightarrow> expect \<Rightarrow> string \<Rightarrow> (json \<times> string) option" where
  "read_loop fs e s =
     (case next_token s of None \<Rightarrow> None
      | Some (t, r) \<Rightarrow>
          (case parse_token t e fs of Bad \<Rightarrow> None
           | Finished v \<Rightarrow> Some (v, r)
           | Continue fs' e' \<Rightarrow> read_loop fs' e' r))"
  by pat_completeness auto
termination
  by (relation "measure (\<lambda>(fs, e, s). length s)") (auto dest: next_token_shorter)

declare read_loop.simps [simp del]

text \<open>\<^verbatim>\<open>Decoder.ReadValue\<close> at the start of a value: the value and what follows it.\<close>

definition read_value :: "string \<Rightarrow> (json \<times> string) option" where
  "read_value s = read_loop [] WantValue s"

lemma read_loop_shorter: "read_loop fs e s = Some (v, r) \<Longrightarrow> length r < length s"
proof (induction fs e s rule: read_loop.induct)
  case (1 fs e s)
  from 1(2) obtain t r1 where t: "next_token s = Some (t, r1)"
    by (subst (asm) read_loop.simps) (auto split: option.splits)
  note l = next_token_shorter[OF t]
  show ?case
  proof (cases "parse_token t e fs")
    case (Continue fs' e')
    with 1(2) t have "read_loop fs' e' r1 = Some (v, r)" by (subst (asm) read_loop.simps) simp
    with 1(1)[OF t refl Continue] l show ?thesis by simp
  qed (use 1(2) t l in \<open>auto simp: read_loop.simps[of fs e s]\<close>)
qed

lemmas read_value_shorter = read_loop_shorter[of "[]" WantValue, folded read_value_def]

text \<open>\<^verbatim>\<open>json.Unmarshal\<close> of a whole text: one value, then white space only.\<close>

definition parse_text :: "string \<Rightarrow> json option" where
  "parse_text s = (case read_value s of Some (v, r) \<Rightarrow> if skip_ws r = [] then Some v else None | None \<Rightarrow> None)"

section \<open>The encoder\<close>

fun print_json :: "json \<Rightarrow> string"
  and print_elems :: "json list \<Rightarrow> string"
  and print_members :: "(string \<times> json) list \<Rightarrow> string" where
  "print_json JNull = ''null''"
| "print_json (JBool b) = (if b then ''true'' else ''false'')"
| "print_json (JNum n) = n"
| "print_json (JStr s) = quote s"
| "print_json (JArr []) = ''[]''"
| "print_json (JArr (v # vs)) = CHR ''['' # print_json v @ print_elems vs"
| "print_json (JObj []) = ''{}''"
| "print_json (JObj ((k, v) # ms)) = CHR ''{'' # quote k @ CHR '':'' # print_json v @ print_members ms"
| "print_elems [] = '']''"
| "print_elems (v # vs) = CHR '','' # print_json v @ print_elems vs"
| "print_members [] = ''}''"
| "print_members ((k, v) # ms) = CHR '','' # quote k @ CHR '':'' # print_json v @ print_members ms"

text \<open>\<^verbatim>\<open>json.Marshal\<close> fails on a string that is not UTF-8.\<close>

fun utf8_json :: "json \<Rightarrow> bool" where
  "utf8_json (JStr s) = utf8_valid s"
| "utf8_json (JArr vs) = list_all utf8_json vs"
| "utf8_json (JObj ms) = list_all (\<lambda>(k, v). utf8_valid k \<and> utf8_json v) ms"
| "utf8_json v = True"

definition marshal_json :: "json \<Rightarrow> string option" where
  "marshal_json v = (if utf8_json v then Some (print_json v) else None)"

end
