(* ===== verification/Json_Round_Trip.thy ===== *)
theory Json_Round_Trip
  imports Json
begin

text \<open>
  The decoder of \<open>Json\<close> reads back what the encoder writes and stops right after it.
\<close>

section \<open>Strings\<close>

lemma rune_width_take:
  assumes "rune_width s = Some w"
  shows "length (take w s) = w \<and> rune_width (take w s @ x) = Some w \<and> (w = 1 \<or> (\<forall>c \<in> set (take w s). 128 \<le> byte_of c))"
proof (cases s)
  case (Cons c cs)
  from assms Cons consider "w = 1" "byte_of c < 128"
    | c1 ds where "w = 2" "cs = c1 # ds" "in_range 128 191 c1" "194 \<le> byte_of c" "byte_of c \<le> 223"
    | c1 c2 ds where "w = 3" "cs = c1 # c2 # ds" "224 \<le> byte_of c" "byte_of c \<le> 239"
        "in_range (if byte_of c = 224 then 160 else 128) (if byte_of c = 237 then 159 else 191) c1" "in_range 128 191 c2"
    | c1 c2 c3 ds where "w = 4" "cs = c1 # c2 # c3 # ds" "240 \<le> byte_of c" "byte_of c \<le> 244"
        "in_range (if byte_of c = 240 then 144 else 128) (if byte_of c = 244 then 143 else 191) c1"
        "in_range 128 191 c2" "in_range 128 191 c3"
    by (auto simp: Let_def split: if_splits list.splits)
  then show ?thesis
  proof cases
    case 1 with Cons show ?thesis by (simp add: Let_def)
  next
    case 2
    then have "128 \<le> byte_of c1" by (simp add: in_range_def)
    with 2 Cons show ?thesis by (simp add: Let_def)
  next
    case 3
    then have "128 \<le> byte_of c1" "128 \<le> byte_of c2" by (simp_all add: in_range_def split: if_splits)
    with 3 Cons show ?thesis by (simp add: Let_def)
  next
    case 4
    then have "128 \<le> byte_of c1" "128 \<le> byte_of c2" "128 \<le> byte_of c3" by (simp_all add: in_range_def split: if_splits)
    with 4 Cons show ?thesis by (simp add: Let_def)
  qed
qed (use assms in simp)

lemma rune_width_one: "rune_width (c # cs) = Some 1 \<longleftrightarrow> byte_of c < 128"
  by (auto simp: Let_def split: list.splits)

lemma escape_plain: "128 \<le> byte_of c \<Longrightarrow> escape c = [c]"
proof -
  assume "128 \<le> byte_of c"
  then have "c \<noteq> CHR 0x22" "c \<noteq> CHR 0x5C" "c \<noteq> CHR 0x08" "c \<noteq> CHR 0x0C" "c \<noteq> CHR 0x0A" "c \<noteq> CHR 0x0D" "c \<noteq> CHR 0x09"
    "\<not> byte_of c < 32" by auto
  then show ?thesis by (simp add: escape_def)
qed

lemma apfst_append: "apfst ((@) [c]) = apfst (Cons c)"
  by (simp add: fun_eq_iff apfst_def)

declare rune_width.simps [simp del]

lemma hex4_low: "n < 256 \<Longrightarrow> hex4 (CHR ''0'') (CHR ''0'') (nibble_char (n div 16)) (nibble_char (n mod 16)) = Some n"
  using hex_val_nibble_char[of 0] by (simp add: hex4_def less_mult_imp_div_less)

lemma read_escape_u:
  "n < 128 \<Longrightarrow> read_escape (CHR ''u'' # CHR ''0'' # CHR ''0'' # nibble_char (n div 16) # nibble_char (n mod 16) # r) = Some ([char_of n], r)"
  by (simp add: hex4_low utf8_encode_def)

lemma read_body_escape:
  assumes "byte_of c < 128"
  shows "read_body (escape c @ r) = map_option (apfst (Cons c)) (read_body r)"
proof (cases "byte_of c < 32 \<or> c = CHR 0x22 \<or> c = CHR 0x5C")
  case True
  consider "c \<in> {CHR 0x22, CHR 0x5C, CHR 0x08, CHR 0x0C, CHR 0x0A, CHR 0x0D, CHR 0x09}"
    | "c \<notin> {CHR 0x22, CHR 0x5C, CHR 0x08, CHR 0x0C, CHR 0x0A, CHR 0x0D, CHR 0x09}" by blast
  then show ?thesis
  proof cases
    case 1
    have esc: "read_body (CHR 0x5C # d # r) = map_option (apfst (\<lambda>t. b @ t)) (read_body r)"
      if "read_escape (d # r) = Some (b, r)" for d b
      using that by (simp add: read_body_Cons del: read_escape.simps)
    show ?thesis using 1 by (elim insertE emptyE) (simp_all add: escape_def esc apfst_append)
  next
    case 2
    with True have "escape c = [CHR 0x5C, CHR ''u'', CHR ''0'', CHR ''0'', nibble_char (byte_of c div 16), nibble_char (byte_of c mod 16)]"
      by (auto simp: escape_def)
    then show ?thesis using read_escape_u[OF assms] by (simp add: read_body_Cons apfst_append del: read_escape.simps)
  qed
next
  case False
  then have "escape c = [c]" by (auto simp: escape_def)
  moreover have "rune_width (c # r) = Some 1" using assms rune_width_one by blast
  ultimately show ?thesis using False by (simp add: read_body_Cons apfst_append)
qed

lemma read_body_wide:
  assumes "\<forall>c \<in> set b. 128 \<le> byte_of c" "b \<noteq> []" "rune_width (b @ r) = Some (length b)"
  shows "read_body (b @ r) = map_option (apfst (\<lambda>t. b @ t)) (read_body r)"
proof -
  obtain c cs where b: "b = c # cs" using assms(2) by (cases b) auto
  then have "128 \<le> byte_of c" using assms(1) by simp
  then have "c \<noteq> CHR 0x22" "c \<noteq> CHR 0x5C" "\<not> byte_of c < 32" by auto
  moreover have "read_body (b @ r) = read_body (c # (cs @ r))" by (simp add: b)
  moreover have "rune_width (c # (cs @ r)) = Some (length b)" using assms(3) b by simp
  moreover have "take (length b) (c # (cs @ r)) = b" "drop (length b) (c # (cs @ r)) = r" by (simp_all add: b)
  ultimately show ?thesis by (simp only: read_body_Cons if_False option.case)
qed

lemma concat_escape_plain: "\<forall>c \<in> set b. 128 \<le> byte_of c \<Longrightarrow> concat (map escape b) = b"
  by (induction b) (simp_all add: escape_plain)

lemma read_body_quote:
  "utf8_valid s \<Longrightarrow> read_body (concat (map escape s) @ CHR 0x22 # r) = Some (s, r)"
proof (induction s rule: utf8_valid.induct)
  case (1 s)
  show ?case
  proof (cases "s = []")
    case True
    then show ?thesis by (simp add: read_body_Cons)
  next
    case False
    with 1(2) obtain w where w: "rune_width s = Some w" "utf8_valid (drop w s)"
      by (subst (asm) utf8_valid.simps) (auto split: option.splits)
    note t = rune_width_take[OF w(1)]
    have IH: "read_body (concat (map escape (drop w s)) @ CHR 0x22 # r) = Some (drop w s, r)"
      by (rule 1(1)[OF False w])
    have esc: "concat (map escape s) = concat (map escape (take w s)) @ concat (map escape (drop w s))"
      by (metis append_take_drop_id concat_append map_append)
    show ?thesis
    proof (cases "w = 1")
      case True
      then obtain c cs where s: "s = c # cs" using False by (cases s) auto
      then have "byte_of c < 128" using w(1) True rune_width_one by blast
      with IH s True show ?thesis by (simp add: read_body_escape)
    next
      case False
      then have hi: "\<forall>c \<in> set (take w s). 128 \<le> byte_of c" using t by blast
      then have "concat (map escape (take w s)) = take w s"
        by (rule concat_escape_plain)
      moreover have "take w s \<noteq> []" using rune_width_pos[OF w(1)] by auto
      moreover have "rune_width (take w s @ concat (map escape (drop w s)) @ CHR 0x22 # r) = Some (length (take w s))" using t by simp
      ultimately show ?thesis using read_body_wide[OF hi] IH by (simp add: esc)
    qed
  qed
qed
section \<open>Numbers\<close>

definition number_end :: "string \<Rightarrow> bool" where
  "number_end r \<longleftrightarrow> (case r of [] \<Rightarrow> True | c # _ \<Rightarrow> \<not> is_digit c \<and> c \<noteq> CHR ''.'' \<and> c \<noteq> CHR ''e'' \<and> c \<noteq> CHR ''E'')"

lemma number_end_simps [simp]:
  "number_end []" "number_end (CHR '','' # r)" "number_end (CHR '']'' # r)" "number_end (CHR ''}'' # r)"
  by (simp_all add: number_end_def is_digit_iff)

lemma takeWhile_digits:
  "list_all is_digit d \<Longrightarrow> number_end r \<Longrightarrow> takeWhile is_digit (d @ r) = d \<and> dropWhile is_digit (d @ r) = r"
  by (induction d) (auto simp: number_end_def split: list.splits)

lemma hd_nat_digits_zero: "hd (nat_digits n) = CHR ''0'' \<Longrightarrow> n = 0"
proof (induction n rule: nat_digits.induct)
  case (1 n)
  show ?case
  proof (cases "n < 10")
    case True
    then have "digit n = CHR ''0''" using 1(2) by (simp add: nat_digits.simps)
    moreover have "of_char (CHR ''0'') = (48 :: nat)" by simp
    ultimately show ?thesis using of_char_digit[OF True] by simp
  next
    case False
    then have "hd (nat_digits (n div 10)) = CHR ''0''"
      using 1(2) by (subst (asm) nat_digits.simps) simp
    with 1(1)[OF False] False show ?thesis by simp
  qed
qed

lemma read_int_part_digits: "number_end r \<Longrightarrow> read_int_part (nat_digits n @ r) = Some (nat_digits n, r)"
proof (cases "n = 0")
  case True
  then have "nat_digits n = ''0''" by (simp add: nat_digits.simps)
  then show ?thesis by simp
next
  case False
  assume r: "number_end r"
  obtain c cs where d: "nat_digits n = c # cs" by (metis nat_digits_nonempty neq_Nil_conv)
  with hd_nat_digits_zero[of n] False have "c \<noteq> CHR ''0''" by auto
  moreover have "read_digits (nat_digits n @ r) = Some (nat_digits n, r)"
    using takeWhile_digits[OF nat_digits_all r, of n] by (simp add: read_digits_def)
  ultimately show ?thesis using d by simp
qed

lemma read_tail: "number_end r \<Longrightarrow> read_frac r = Some ([], r) \<and> read_exp r = Some ([], r)"
  by (cases r) (auto simp: number_end_def)

lemma read_number_FormatInt: "number_end r \<Longrightarrow> read_number (FormatInt i @ r) = Some (FormatInt i, r)"
proof -
  assume r: "number_end r"
  show ?thesis
  proof (cases "i < 0")
    case True
    then show ?thesis using read_int_part_digits[OF r] read_tail[OF r] by (simp add: read_number_def FormatInt_def)
  next
    case False
    obtain c cs where d: "nat_digits (nat i) = c # cs" by (metis nat_digits_nonempty neq_Nil_conv)
    then have "c \<noteq> CHR ''-''" using nat_digits_no_sign(1)[of "nat i"] by simp
    with False d show ?thesis using read_int_part_digits[OF r, of "nat i"] read_tail[OF r]
      by (simp add: read_number_def FormatInt_def del: read_int_part.simps)
  qed
qed

section \<open>Tokens\<close>

lemma next_token_punct:
  "c \<in> set ''{}[],:'' \<Longrightarrow> next_token (c # r) = Some (TPunct c, r)"
  by (auto simp: next_token_def skip_ws_def is_ws_def)

lemma next_token_quote: "utf8_valid s \<Longrightarrow> next_token (quote s @ r) = Some (TScalar (JStr s), r)"
  by (simp add: next_token_def skip_ws_def is_ws_def quote_def read_body_quote)

lemma FormatInt_hd: "\<exists>c cs. FormatInt i = c # cs \<and> (is_digit c \<or> c = CHR ''-'')"
proof (cases "i < 0")
  case False
  obtain c cs where "nat_digits (nat i) = c # cs" by (metis nat_digits_nonempty neq_Nil_conv)
  with hd_nat_digits[of "nat i"] False show ?thesis by (simp add: FormatInt_def)
qed (simp add: FormatInt_def)

lemma next_token_number: "number_end r \<Longrightarrow> next_token (FormatInt i @ r) = Some (TScalar (JNum (FormatInt i)), r)"
proof -
  assume r: "number_end r"
  obtain c cs where c: "FormatInt i = c # cs" "is_digit c \<or> c = CHR ''-''" using FormatInt_hd by blast
  have "\<not> is_ws c \<and> c \<notin> set ''{}[],:'' \<and> c \<noteq> CHR 0x22 \<and> c \<notin> set ''ntf''"
    using c(2) by (auto simp: is_ws_def is_digit_iff)
  then show ?thesis using read_number_FormatInt[OF r, of i] c(1) by (simp add: next_token_def skip_ws_def)
qed

lemma next_token_literal:
  "next_token (''null'' @ r) = Some (TScalar JNull, r)" "next_token (''true'' @ r) = Some (TScalar (JBool True), r)"
  "next_token (''false'' @ r) = Some (TScalar (JBool False), r)"
  by (simp_all add: next_token_def skip_ws_def is_ws_def strip_prefix_def)

section \<open>Values\<close>

definition resume :: "parse_step \<Rightarrow> string \<Rightarrow> (json \<times> string) option" where
  "resume p r = (case p of Bad \<Rightarrow> None | Finished v \<Rightarrow> Some (v, r) | Continue fs e \<Rightarrow> read_loop fs e r)"

lemma resume_simps [simp]:
  "resume Bad r = None" "resume (Finished v) r = Some (v, r)" "resume (Continue fs e) r = read_loop fs e r"
  by (simp_all add: resume_def)

lemma read_loop_token: "next_token s = Some (t, r) \<Longrightarrow> read_loop fs e s = resume (parse_token t e fs) r"
  by (subst read_loop.simps) (simp add: resume_def)

lemma read_punct: "c \<in> set ''{}[],:'' \<Longrightarrow> read_loop fs e (c # r) = resume (parse_token (TPunct c) e fs) r"
  by (intro read_loop_token next_token_punct)

text \<open>Strings are UTF-8, names are unique, numbers are decimal integers.\<close>

fun printable :: "json \<Rightarrow> bool" where
  "printable (JStr s) = utf8_valid s"
| "printable (JNum n) = (\<exists>i. n = FormatInt i)"
| "printable (JArr vs) = (\<forall>v \<in> set vs. printable v)"
| "printable (JObj ms) = (distinct (map fst ms) \<and> (\<forall>m \<in> set ms. utf8_valid (fst m) \<and> printable (snd m)))"
| "printable v = True"

definition number_ends :: "json \<Rightarrow> string \<Rightarrow> bool" where
  "number_ends v r \<longleftrightarrow> (case v of JNum _ \<Rightarrow> number_end r | _ \<Rightarrow> True)"

lemma elems_end: "number_ends v (print_elems vs @ r)" "number_ends v (print_members ms @ r)"
  by (cases vs; cases v; simp add: number_ends_def)
    (cases ms rule: print_members.cases; cases v; simp add: number_ends_def)

lemma read_name:
  assumes "utf8_valid k" "k \<notin> fst ` set us" "e = WantName \<or> e = WantNameOrEnd"
  shows "read_loop (FObj us None # fs) e (quote k @ CHR '':'' # r) = read_loop (FObj us (Some k) # fs) WantValue r"
  using assms by (auto simp: read_loop_token[OF next_token_quote] read_punct)

lemma read_print:
  shows "printable v \<Longrightarrow> number_ends v r \<Longrightarrow> e = WantValue \<or> e = WantValueOrEnd \<Longrightarrow>
      read_loop fs e (print_json v @ r) = resume (add_value v fs) r"
    and "\<forall>v \<in> set vs. printable v \<Longrightarrow>
      read_loop (FArr us # fs) WantDelim (print_elems vs @ r) = resume (add_value (JArr (us @ vs)) fs) r"
    and "distinct (map fst (ws @ ms)) \<Longrightarrow> \<forall>m \<in> set ms. utf8_valid (fst m) \<and> printable (snd m) \<Longrightarrow>
      read_loop (FObj ws None # fs) WantDelim (print_members ms @ r) = resume (add_value (JObj (ws @ ms)) fs) r"
proof (induction v and vs and ms arbitrary: e fs r and us fs r and ws fs r rule: print_json_print_elems_print_members.induct)
  case 1
  then show ?case using next_token_literal(1)[of r] by (auto simp: read_loop_token)
next
  case (2 b)
  then show ?case using next_token_literal(2,3)[of r] by (cases b) (auto simp: read_loop_token)
next
  case (3 n)
  then obtain i where "n = FormatInt i" by auto
  with 3 show ?case using next_token_number[of r i] by (auto simp: read_loop_token number_ends_def)
next
  case (4 s)
  then show ?case using next_token_quote[of s r] by (auto simp: read_loop_token)
next
  case 5
  then show ?case by (auto simp: read_punct)
next
  case (6 v vs)
  have "read_loop (FArr [] # fs) WantValueOrEnd (print_json v @ (print_elems vs @ r)) =
      resume (add_value v (FArr [] # fs)) (print_elems vs @ r)"
    using 6(3) elems_end(1) by (intro 6(1)) auto
  then show ?case using 6(2)[where us = "[v]"] 6(3,5) by (auto simp: read_punct)
next
  case 7
  then show ?case by (auto simp: read_punct)
next
  case (8 k v ms)
  have "read_loop (FObj [] (Some k) # fs) WantValue (print_json v @ (print_members ms @ r)) =
      resume (add_value v (FObj [] (Some k) # fs)) (print_members ms @ r)"
    using 8(3) elems_end(2) by (intro 8(1)) auto
  then show ?case using 8(2)[where ws = "[(k, v)]"] 8(3,5) read_name[of k "[]" WantNameOrEnd] by (auto simp: read_punct)
next
  case 9
  then show ?case by (auto simp: read_punct)
next
  case (10 v vs)
  have "read_loop (FArr us # fs) WantValue (print_json v @ (print_elems vs @ r)) =
      resume (add_value v (FArr us # fs)) (print_elems vs @ r)"
    using 10(3) elems_end(1) by (intro 10(1)) auto
  then show ?case using 10(2)[where us = "us @ [v]"] 10(3) by (auto simp: read_punct)
next
  case 11
  then show ?case by (auto simp: read_punct)
next
  case (12 k v ms)
  have "read_loop (FObj ws (Some k) # fs) WantValue (print_json v @ (print_members ms @ r)) =
      resume (add_value v (FObj ws (Some k) # fs)) (print_members ms @ r)"
    using 12(4) elems_end(2) by (intro 12(1)) auto
  then show ?case using 12(2)[where ws = "ws @ [(k, v)]"] 12(3,4) read_name[of k ws WantName] by (auto simp: read_punct)
qed

lemma read_value_print: "printable v \<Longrightarrow> number_ends v r \<Longrightarrow> read_value (print_json v @ r) = Some (v, r)"
  using read_print(1)[of v r WantValue "[]"] by (simp add: read_value_def)

lemma parse_text_print: "printable v \<Longrightarrow> parse_text (print_json v) = Some v"
  using read_value_print[of v "[]"] by (cases v) (simp_all add: parse_text_def number_ends_def skip_ws_def)

section \<open>Everything read is UTF-8\<close>

lemma utf8_valid_append: "utf8_valid a \<Longrightarrow> utf8_valid b \<Longrightarrow> utf8_valid (a @ b)"
proof (induction a rule: utf8_valid.induct)
  case (1 a)
  show ?case
  proof (cases "a = []")
    case False
    with 1(2) obtain w where w: "rune_width a = Some w" "utf8_valid (drop w a)"
      by (subst (asm) utf8_valid.simps) (auto split: option.splits)
    note t = rune_width_take[OF w(1)]
    have l: "w \<le> length a" using t by (metis length_take min.cobounded1)
    have "rune_width (take w a @ drop w a @ b) = Some w" using rune_width_take[OF w(1)] by blast
    then have "rune_width (a @ b) = Some w" by (metis append_assoc append_take_drop_id)
    moreover have "drop w (a @ b) = drop w a @ b" using l by simp
    ultimately show ?thesis using 1(1)[OF False w 1(3)] False by (subst utf8_valid.simps) simp
  qed (use 1 in simp)
qed

lemma utf8_valid_rune: "rune_width s = Some (length s) \<Longrightarrow> utf8_valid s"
  using rune_width_pos[of s] by (subst utf8_valid.simps) (simp add: utf8_valid.simps[of "[]"])

lemma mod_le_63: "(n :: nat) mod 64 \<le> 63"
  using mod_less_divisor[of 64 n] by linarith

lemma utf8_encode_valid:
  assumes "n < 55296 \<or> 57344 \<le> n" "n < 1114112"
  shows "utf8_valid (utf8_encode n)"
proof (rule utf8_valid_rune)
  consider "n < 128" | "128 \<le> n" "n < 2048" | "2048 \<le> n" "n < 65536" | "65536 \<le> n" by linarith
  then show "rune_width (utf8_encode n) = Some (length (utf8_encode n))"
  proof cases
    case 1
    then show ?thesis by (simp add: utf8_encode_def rune_width.simps)
  next
    case 2
    then have "2 \<le> n div 64" "n div 64 < 32" by auto
    with 2 show ?thesis by (simp add: utf8_encode_def rune_width.simps in_range_def Let_def)
  next
    case 3
    define a b where "a = n div 4096" and "b = n div 64 mod 64"
    have "a = n div 64 div 64" unfolding a_def by (simp add: div_mult2_eq[symmetric])
    then have ab: "n div 64 = 64 * a + b" "b < 64" unfolding b_def by simp_all
    have "64 * (n div 64) + n mod 64 = n" "n mod 64 < 64" by simp_all
    with ab(1) have n: "64 * (64 * a + b) \<le> n \<and> n < 64 * (64 * a + b) + 64" by simp
    have a: "a < 16" using 3 n by (auto simp: algebra_simps)
    have lo: "a = 0 \<Longrightarrow> 32 \<le> b" using 3 n by (auto simp: algebra_simps)
    have hi: "a = 13 \<Longrightarrow> b < 32" using assms(1) n ab(2) by (auto simp: algebra_simps)
    have "utf8_encode n = [char_of (224 + a), char_of (128 + b), char_of (128 + n mod 64)]"
      using 3 by (simp add: utf8_encode_def a_def b_def)
    moreover have "rune_width [char_of (224 + a), char_of (128 + b), char_of (128 + n mod 64)] = Some 3"
      using a ab(2) lo hi mod_le_63 by (auto simp: rune_width.simps in_range_def)
    ultimately show ?thesis by simp
  next
    case 4
    define a b c where "a = n div 262144" and "b = n div 4096 mod 64" and "c = n div 64 mod 64"
    have "a = n div 4096 div 64" unfolding a_def by (simp add: div_mult2_eq[symmetric])
    then have ab: "n div 4096 = 64 * a + b" "b < 64" "c < 64" unfolding b_def c_def by simp_all
    have "4096 * (n div 4096) + n mod 4096 = n" "n mod 4096 < 4096" by simp_all
    with ab(1) have n: "4096 * (64 * a + b) \<le> n \<and> n < 4096 * (64 * a + b) + 4096" by simp
    have a: "a < 5" using assms(2) n by (auto simp: algebra_simps)
    have lo: "a = 0 \<Longrightarrow> 16 \<le> b" using 4 n by (auto simp: algebra_simps)
    have hi: "a = 4 \<Longrightarrow> b < 16" using assms(2) n by (auto simp: algebra_simps)
    have "utf8_encode n = [char_of (240 + a), char_of (128 + b), char_of (128 + c), char_of (128 + n mod 64)]"
      using 4 by (simp add: utf8_encode_def a_def b_def c_def)
    moreover have "rune_width [char_of (240 + a), char_of (128 + b), char_of (128 + c), char_of (128 + n mod 64)] = Some 4"
      using a ab(2,3) lo hi mod_le_63 by (auto simp: rune_width.simps in_range_def)
    ultimately show ?thesis by simp
  qed
qed

lemma hex_val_less: "hex_val c = Some n \<Longrightarrow> n < 16"
  by (auto simp: hex_val_def in_range_def split: if_splits)

lemma hex4_less: "hex4 a b c d = Some n \<Longrightarrow> n < 65536"
  by (fastforce simp: hex4_def split: option.splits dest: hex_val_less)

lemma utf8_valid_single: "byte_of c < 128 \<Longrightarrow> utf8_valid [c]"
  by (rule utf8_valid_ascii) simp

lemma read_escape_valid: "read_escape s = Some (b, r) \<Longrightarrow> utf8_valid b"
proof -
  assume e: "read_escape s = Some (b, r)"
  then obtain c cs where s: "s = c # cs" by (cases s) auto
  show ?thesis
  proof (cases "c = CHR ''u''")
    case False
    with e s show ?thesis by (auto simp: utf8_valid_single split: if_splits)
  next
    case True
    with e s obtain h1 h2 h3 h4 ds n where h: "cs = h1 # h2 # h3 # h4 # ds" "hex4 h1 h2 h3 h4 = Some n"
      by (auto split: list.splits option.splits)
    have n: "n < 65536" using hex4_less[OF h(2)] .
    show ?thesis
    proof (cases "n < 55296 \<or> 57344 \<le> n")
      case True
      with e s h \<open>c = _\<close> n utf8_encode_valid[of n] show ?thesis by auto
    next
      case False
      with e s h \<open>c = _\<close> obtain k1 k2 k3 k4 m where "hex4 k1 k2 k3 k4 = Some m" "n < 56320" "56320 \<le> m" "m < 57344"
        "b = utf8_encode (65536 + (n - 55296) * 1024 + (m - 56320))"
        by (auto split: list.splits option.splits if_splits)
      with False show ?thesis by (auto intro!: utf8_encode_valid)
    qed
  qed
qed

lemma read_body_valid: "read_body s = Some (b, r) \<Longrightarrow> utf8_valid b"
proof (induction s arbitrary: b r rule: read_body.induct)
  case (1 s)
  show ?case
  proof (cases s)
    case (Cons c cs)
    note step = 1(3)[unfolded Cons read_body_Cons]
    consider "c = CHR 0x22" | "c = CHR 0x5C" | "c \<noteq> CHR 0x22" "c \<noteq> CHR 0x5C" by blast
    then show ?thesis
    proof cases
      case 1
      with step show ?thesis by (simp add: utf8_valid.simps)
    next
      case 2
      with step obtain e r1 t where e: "read_escape cs = Some (e, r1)" "read_body r1 = Some (t, r)" "b = e @ t"
        by (auto split: option.splits)
      from "1.IH"(1)[OF Cons _ 2 e(1) refl e(2)] read_escape_valid[OF e(1)] e(3) 2 show ?thesis
        by (simp add: utf8_valid_append)
    next
      case 3
      with step obtain w t where w: "\<not> byte_of c < 32" "rune_width (c # cs) = Some w" "read_body (drop w (c # cs)) = Some (t, r)"
        "b = take w (c # cs) @ t"
        by (auto split: option.splits if_splits)
      have "rune_width (take w (c # cs)) = Some w" using rune_width_take[OF w(2)] by (metis append_Nil2)
      then have "utf8_valid (take w (c # cs))" using rune_width_take[OF w(2)] by (intro utf8_valid_rune) simp
      with "1.IH"(2)[OF Cons 3 w(1)] w Cons show ?thesis by (simp add: utf8_valid_append)
    qed
  qed (use 1 in \<open>simp add: read_body.simps\<close>)
qed

text \<open>What the decoder returns: strings are UTF-8 and the names of an object are unique.\<close>

fun wf_json :: "json \<Rightarrow> bool" where
  "wf_json (JStr s) = utf8_valid s"
| "wf_json (JArr vs) = list_all wf_json vs"
| "wf_json (JObj ms) = (distinct (map fst ms) \<and> list_all (\<lambda>(k, v). utf8_valid k \<and> wf_json v) ms)"
| "wf_json v = True"

fun wf_frame :: "container \<Rightarrow> bool" where
  "wf_frame (FArr vs) = list_all wf_json vs"
| "wf_frame (FObj ms k) =
     (wf_json (JObj ms) \<and> (case k of None \<Rightarrow> True | Some s \<Rightarrow> utf8_valid s \<and> s \<notin> fst ` set ms))"

fun wf_step :: "parse_step \<Rightarrow> bool" where
  "wf_step Bad = True"
| "wf_step (Finished v) = wf_json v"
| "wf_step (Continue fs e) = list_all wf_frame fs"

lemma wf_add_value: "wf_json v \<Longrightarrow> list_all wf_frame fs \<Longrightarrow> wf_step (add_value v fs)"
  by (cases "(v, fs)" rule: add_value.cases) auto

lemma wf_close: "list_all wf_frame fs \<Longrightarrow> wf_step (close_frame c fs)"
  by (cases "(c, fs)" rule: close_frame.cases) (auto intro!: wf_add_value)

lemma wf_open: "(case t of TScalar v \<Rightarrow> wf_json v | TPunct c \<Rightarrow> True) \<Longrightarrow> list_all wf_frame fs \<Longrightarrow> wf_step (open_value t fs)"
  by (cases t) (auto intro!: wf_add_value)

lemma wf_name: "(case t of TScalar v \<Rightarrow> wf_json v | TPunct c \<Rightarrow> True) \<Longrightarrow> list_all wf_frame fs \<Longrightarrow> wf_step (add_name t fs)"
  by (cases "(t, fs)" rule: add_name.cases) auto

lemma wf_parse_token:
  "(case t of TScalar v \<Rightarrow> wf_json v | TPunct c \<Rightarrow> True) \<Longrightarrow> list_all wf_frame fs \<Longrightarrow> wf_step (parse_token t e fs)"
  by (cases e) (auto intro: wf_open wf_name wf_close wf_add_value split: token.splits list.splits container.splits)

lemma next_token_valid: "next_token s = Some (TScalar v, r) \<Longrightarrow> wf_json v"
  by (auto simp: next_token_def split: list.splits if_splits dest: read_body_valid)

lemma read_loop_wf: "read_loop fs e s = Some (v, r) \<Longrightarrow> list_all wf_frame fs \<Longrightarrow> wf_json v"
proof (induction fs e s rule: read_loop.induct)
  case (1 fs e s)
  from 1(2) obtain t r1 where t: "next_token s = Some (t, r1)"
    by (subst (asm) read_loop.simps) (auto split: option.splits)
  have "case t of TScalar v \<Rightarrow> wf_json v | TPunct c \<Rightarrow> True" using next_token_valid t by (cases t) auto
  from wf_parse_token[OF this 1(3), of e] have ok: "wf_step (parse_token t e fs)" .
  note res = 1(2)[unfolded read_loop_token[OF t]]
  show ?case
  proof (cases "parse_token t e fs")
    case (Continue fs' e')
    with res ok 1(1)[OF t refl Continue] show ?thesis by simp
  qed (use res ok in auto)
qed

lemma read_value_wf: "read_value s = Some (v, r) \<Longrightarrow> wf_json v"
  using read_loop_wf[of "[]"] by (simp add: read_value_def)

lemma parse_text_wf: "parse_text s = Some v \<Longrightarrow> wf_json v"
  by (auto simp: parse_text_def split: option.splits if_splits dest: read_value_wf)

end
