(* ===== verification/Event_Wire.thy ===== *)
theory Event_Wire
  imports Json_Round_Trip Event
begin

text \<open>
  The wire format of events in \<^verbatim>\<open>event.go\<close>: \<^verbatim>\<open>UnmarshalJSONFrom\<close> of tags and events, \<^verbatim>\<open>MarshalJSONTo\<close>. A
  decoder method is a function of the JSON value it reads; \<open>None\<close> is an error, its text is left out.
\<close>

section \<open>Decoding\<close>

text \<open>\<^verbatim>\<open>json.Unmarshal\<close> into a fresh \<^verbatim>\<open>string\<close> and a fresh \<^verbatim>\<open>int64\<close>: null leaves the zero value.\<close>

fun unmarshal_string :: "json \<Rightarrow> string option" where
  "unmarshal_string (JStr s) = Some s"
| "unmarshal_string JNull = Some ''''"
| "unmarshal_string v = None"

fun unmarshal_int64 :: "json \<Rightarrow> int option" where
  "unmarshal_int64 (JNum n) = ParseInt n"
| "unmarshal_int64 JNull = Some 0"
| "unmarshal_int64 v = None"

fun all_of :: "('a \<Rightarrow> 'b option) \<Rightarrow> 'a list \<Rightarrow> 'b list option" where
  "all_of f [] = Some []"
| "all_of f (x # xs) = (case f x of None \<Rightarrow> None | Some y \<Rightarrow> map_option (Cons y) (all_of f xs))"

text \<open>Into a fresh slice: null leaves it nil.\<close>

fun unmarshal_slice :: "(json \<Rightarrow> 'a option) \<Rightarrow> json \<Rightarrow> 'a slice option" where
  "unmarshal_slice f (JArr vs) = map_option Some (all_of f vs)"
| "unmarshal_slice f JNull = Some None"
| "unmarshal_slice f v = None"

fun tag_elements :: "json list \<Rightarrow> Tag option" where
  "tag_elements [] = Some []"
| "tag_elements (v # vs) =
     (if v = JNull then None
      else case unmarshal_string v of None \<Rightarrow> None | Some s \<Rightarrow> map_option (Cons s) (tag_elements vs))"

fun Tag_UnmarshalJSONFrom :: "json \<Rightarrow> Tag option" where
  "Tag_UnmarshalJSONFrom (JArr vs) = tag_elements vs"
| "Tag_UnmarshalJSONFrom v = None"

record eventWire =
  wireID :: string
  wirePubkey :: string
  wireCreatedAt :: int
  wireKind :: int
  wireTags :: "Tag slice"
  wireContent :: string
  wireSig :: string

definition zero_wire :: eventWire where
  "zero_wire = \<lparr>wireID = '''', wirePubkey = '''', wireCreatedAt = 0, wireKind = 0, wireTags = None,
     wireContent = '''', wireSig = ''''\<rparr>"

text \<open>One member into the struct, an unknown name being an error.\<close>

definition set_member :: "string \<Rightarrow> json \<Rightarrow> eventWire \<Rightarrow> eventWire option" where
  "set_member k v w =
     (if k = ''id'' then map_option (\<lambda>s. w\<lparr>wireID := s\<rparr>) (unmarshal_string v)
      else if k = ''pubkey'' then map_option (\<lambda>s. w\<lparr>wirePubkey := s\<rparr>) (unmarshal_string v)
      else if k = ''created_at'' then map_option (\<lambda>i. w\<lparr>wireCreatedAt := i\<rparr>) (unmarshal_int64 v)
      else if k = ''kind'' then map_option (\<lambda>i. w\<lparr>wireKind := i\<rparr>) (unmarshal_int64 v)
      else if k = ''tags'' then map_option (\<lambda>ts. w\<lparr>wireTags := ts\<rparr>) (unmarshal_slice Tag_UnmarshalJSONFrom v)
      else if k = ''content'' then map_option (\<lambda>s. w\<lparr>wireContent := s\<rparr>) (unmarshal_string v)
      else if k = ''sig'' then map_option (\<lambda>s. w\<lparr>wireSig := s\<rparr>) (unmarshal_string v)
      else None)"

fun unmarshal_wire :: "(string \<times> json) list \<Rightarrow> eventWire \<Rightarrow> eventWire option" where
  "unmarshal_wire [] w = Some w"
| "unmarshal_wire ((k, v) # ms) w = (case set_member k v w of None \<Rightarrow> None | Some w' \<Rightarrow> unmarshal_wire ms w')"

text \<open>
  The loop that counts the fields. Whether the raw \<^verbatim>\<open>created_at\<close> contains a dot or an exponent is
  asked of numbers only: any other value is an error later on.
\<close>

definition has_fraction :: "json \<Rightarrow> bool" where
  "has_fraction v = (case v of JNum n \<Rightarrow> list_ex (\<lambda>c. c \<in> set ''.eE'') n | _ \<Rightarrow> False)"

fun count_fields :: "(string \<times> json) list \<Rightarrow> nat option" where
  "count_fields [] = Some 0"
| "count_fields ((key, raw) # ms) =
     (if raw = JNull then None
      else if key = ''created_at'' \<and> has_fraction raw then None
      else map_option Suc (count_fields ms))"

fun Event_UnmarshalJSONFrom :: "json \<Rightarrow> Event option" where
  "Event_UnmarshalJSONFrom (JObj ms) =
     (case count_fields ms of None \<Rightarrow> None
      | Some count \<Rightarrow>
          if count \<noteq> 7 then None
          else (case unmarshal_wire ms zero_wire of None \<Rightarrow> None
            | Some wire \<Rightarrow> Some \<lparr>ID = wireID wire, Pubkey = wirePubkey wire, CreatedAt = time_Unix (wireCreatedAt wire),
                Kind = wireKind wire, Tags = wireTags wire, Content = wireContent wire, Sig = wireSig wire\<rparr>))"
| "Event_UnmarshalJSONFrom v = None"

definition Event_Unmarshal :: "string \<Rightarrow> Event option" where
  "Event_Unmarshal data = (case parse_text data of None \<Rightarrow> None | Some v \<Rightarrow> Event_UnmarshalJSONFrom v)"

section \<open>Encoding\<close>

definition tags_value :: "Tag list \<Rightarrow> json" where
  "tags_value ts = JArr (map (\<lambda>t. JArr (map JStr t)) ts)"

definition event_value :: "Event \<Rightarrow> json" where
  "event_value e = JObj
     [(''id'', JStr (ID e)), (''pubkey'', JStr (Pubkey e)), (''created_at'', JNum (FormatInt (Unix (CreatedAt e)))),
      (''kind'', JNum (FormatInt (Kind e))), (''tags'', tags_value (tags_of e)), (''content'', JStr (Content e)),
      (''sig'', JStr (Sig e))]"

definition Event_Marshal :: "Event \<Rightarrow> string option" where
  "Event_Marshal e = marshal_json (event_value e)"

section \<open>Encoded events are decoded\<close>

lemma has_fraction_FormatInt [simp]: "\<not> has_fraction (JNum (FormatInt i))"
proof -
  have "\<not> is_digit (CHR ''.'')" "\<not> is_digit (CHR ''e'')" "\<not> is_digit (CHR ''E'')" by (simp_all add: is_digit_iff)
  then have "c \<in> set (FormatInt i) \<Longrightarrow> c \<notin> set ''.eE''" for c
    by (auto simp: FormatInt_def non_digit_not_in_nat_digits split: if_splits)
  then show ?thesis by (auto simp: has_fraction_def list_ex_iff)
qed

lemma tag_elements_JStr [simp]: "tag_elements (map JStr t) = Some t"
  by (induction t) auto

lemma unmarshal_tags_value [simp]: "unmarshal_slice Tag_UnmarshalJSONFrom (tags_value ts) = Some (Some ts)"
proof -
  have "all_of Tag_UnmarshalJSONFrom (map (\<lambda>t. JArr (map JStr t)) ts) = Some ts" by (induction ts) auto
  then show ?thesis by (simp add: tags_value_def)
qed

lemma int64_Unix: "int64 (Unix t)"
  by (simp add: Unix_def)

lemma decode_event_value:
  "int64 (Kind e) \<Longrightarrow> Event_UnmarshalJSONFrom (event_value e) =
    Some (e\<lparr>CreatedAt := time_Unix (Unix (CreatedAt e)), Tags := Some (tags_of e)\<rparr>)"
  by (simp add: event_value_def set_member_def zero_wire_def int64_Unix tags_value_def[symmetric])
    (simp add: tags_value_def)

lemma utf8_tags [simp]: "utf8_json (tags_value ts) = list_all (list_all utf8_valid) ts"
  by (simp add: tags_value_def list_all_iff)

lemma utf8_event: "utf8_json (event_value e) \<longleftrightarrow>
    utf8_valid (ID e) \<and> utf8_valid (Pubkey e) \<and> list_all (list_all utf8_valid) (tags_of e) \<and> utf8_valid (Content e) \<and> utf8_valid (Sig e)"
  by (auto simp: event_value_def utf8_valid_ascii)

lemma printable_event: "utf8_json (event_value e) \<Longrightarrow> printable (event_value e)"
  by (auto simp: utf8_event) (auto simp: event_value_def tags_value_def list_all_iff utf8_valid_ascii)

lemma Event_Unmarshal_Marshal:
  assumes "Event_Marshal e = Some s" "int64 (Kind e)" "CreatedAt e = time_Unix (Unix (CreatedAt e))"
  shows "Event_Unmarshal s = Some (e\<lparr>Tags := Some (tags_of e)\<rparr>)"
proof -
  have s: "utf8_json (event_value e)" "s = print_json (event_value e)"
    using assms(1) by (auto simp: Event_Marshal_def marshal_json_def split: if_splits)
  have "parse_text s = Some (event_value e)" unfolding s(2) by (rule parse_text_print[OF printable_event[OF s(1)]])
  with decode_event_value[OF assms(2)] assms(3) show ?thesis by (simp add: Event_Unmarshal_def)
qed

section \<open>Decoded events\<close>

lemma ParseInt_int64: "ParseInt n = Some i \<Longrightarrow> int64 i"
  by (auto simp: ParseInt_def Let_def split: if_splits)

lemma unmarshal_int64_range: "unmarshal_int64 v = Some i \<Longrightarrow> int64 i"
  by (cases v) (auto simp: ParseInt_int64, simp add: int64_def)

lemma unmarshal_string_utf8: "unmarshal_string v = Some s \<Longrightarrow> wf_json v \<Longrightarrow> utf8_valid s"
  by (cases v) (auto simp: utf8_valid.simps)

lemma tag_elements_utf8: "tag_elements vs = Some t \<Longrightarrow> list_all wf_json vs \<Longrightarrow> list_all utf8_valid t"
  by (induction vs arbitrary: t) (auto split: if_splits option.splits dest: unmarshal_string_utf8)

lemma tag_utf8: "Tag_UnmarshalJSONFrom v = Some t \<Longrightarrow> wf_json v \<Longrightarrow> list_all utf8_valid t"
  by (cases v) (auto dest: tag_elements_utf8)

lemma all_of_list_all:
  "all_of f xs = Some ys \<Longrightarrow> list_all P xs \<Longrightarrow> (\<And>x y. f x = Some y \<Longrightarrow> P x \<Longrightarrow> Q y) \<Longrightarrow> list_all Q ys"
  by (induction xs arbitrary: ys) (auto split: option.splits)

lemma tags_utf8:
  "unmarshal_slice Tag_UnmarshalJSONFrom v = Some ts \<Longrightarrow> wf_json v \<Longrightarrow> list_all (list_all utf8_valid) (elems ts)"
  by (cases v) (auto intro: all_of_list_all tag_utf8)

definition wire_ok :: "eventWire \<Rightarrow> bool" where
  "wire_ok w \<longleftrightarrow> int64 (wireCreatedAt w) \<and> int64 (wireKind w) \<and> utf8_valid (wireID w) \<and> utf8_valid (wirePubkey w) \<and>
     list_all (list_all utf8_valid) (elems (wireTags w)) \<and> utf8_valid (wireContent w) \<and> utf8_valid (wireSig w)"

definition wire_names :: "string set" where
  "wire_names = {''id'', ''pubkey'', ''created_at'', ''kind'', ''tags'', ''content'', ''sig''}"

lemma set_member_ok:
  assumes "set_member k v w = Some w'" "wire_ok w" "wf_json v"
  shows "wire_ok w'" "k \<in> wire_names" "v \<noteq> JNull \<Longrightarrow> k = ''tags'' \<or> wireTags w \<noteq> None \<Longrightarrow> wireTags w' \<noteq> None"
proof -
  show "wire_ok w'"
    using assms unfolding set_member_def wire_ok_def
    by (auto split: if_splits dest: unmarshal_string_utf8 unmarshal_int64_range tags_utf8)
  show "k \<in> wire_names" using assms(1) by (auto simp: set_member_def wire_names_def split: if_splits)
  show "v \<noteq> JNull \<Longrightarrow> k = ''tags'' \<or> wireTags w \<noteq> None \<Longrightarrow> wireTags w' \<noteq> None"
    using assms(1) by (cases v) (auto simp: set_member_def split: if_splits)
qed

lemma unmarshal_wire_ok:
  assumes "unmarshal_wire ms w = Some w'" "wire_ok w" "list_all (\<lambda>(k, v). utf8_valid k \<and> wf_json v) ms"
  shows "wire_ok w' \<and> fst ` set ms \<subseteq> wire_names \<and>
    (JNull \<notin> snd ` set ms \<longrightarrow> ''tags'' \<in> fst ` set ms \<or> wireTags w \<noteq> None \<longrightarrow> wireTags w' \<noteq> None)"
  using assms
proof (induction ms arbitrary: w)
  case (Cons m ms)
  obtain k v where m: "m = (k, v)" by fastforce
  with Cons.prems obtain w1 where w1: "set_member k v w = Some w1" "unmarshal_wire ms w1 = Some w'" "wf_json v"
    by (auto split: option.splits)
  note s = set_member_ok[OF w1(1) Cons.prems(2) w1(3)]
  from Cons.IH[OF w1(2) s(1)] Cons.prems(3) s(2,3) m show ?case by auto
qed simp

lemma count_fields_spec: "count_fields ms = Some n \<Longrightarrow> n = length ms \<and> JNull \<notin> snd ` set ms"
  by (induction ms arbitrary: n) (auto split: if_splits)

lemma Event_UnmarshalJSONFrom_ok:
  assumes "Event_UnmarshalJSONFrom v = Some e" "wf_json v"
  shows "int64 (Kind e) \<and> Tags e \<noteq> None \<and> (\<exists>t. int64 t \<and> CreatedAt e = time_Unix t) \<and> utf8_json (event_value e)"
proof -
  obtain ms where v: "v = JObj ms" using assms(1) by (cases v) auto
  with assms(1) obtain w where w: "count_fields ms = Some 7" "unmarshal_wire ms zero_wire = Some w"
    "e = \<lparr>ID = wireID w, Pubkey = wirePubkey w, CreatedAt = time_Unix (wireCreatedAt w),
        Kind = wireKind w, Tags = wireTags w, Content = wireContent w, Sig = wireSig w\<rparr>"
    by (auto split: option.splits if_splits)
  have z: "wire_ok zero_wire" by (simp add: wire_ok_def zero_wire_def int64_def utf8_valid.simps)
  have ms: "distinct (map fst ms)" "list_all (\<lambda>(k, v). utf8_valid k \<and> wf_json v) ms" using assms(2) v by simp_all
  note ok = unmarshal_wire_ok[OF w(2) z ms(2)]
  have n: "length ms = 7" "JNull \<notin> snd ` set ms" using count_fields_spec[OF w(1)] by auto
  have "card (fst ` set ms) = 7" using ms(1) n(1) distinct_card[of "map fst ms"] by simp
  moreover have "card wire_names = 7" "finite wire_names" by (simp_all add: wire_names_def)
  ultimately have "fst ` set ms = wire_names" using ok by (metis card_subset_eq)
  then have "''tags'' \<in> fst ` set ms" by (simp add: wire_names_def)
  then have "wireTags w \<noteq> None" using ok n(2) by blast
  moreover have "wire_ok w" using ok by blast
  ultimately show ?thesis unfolding wire_ok_def by (auto simp: w(3) utf8_event)
qed

text \<open>What an event from the wire is like.\<close>

definition event_ok :: "Event \<Rightarrow> bool" where
  "event_ok e \<longleftrightarrow> int64 (Kind e) \<and> Tags e \<noteq> None \<and> CreatedAt e = time_Unix (Unix (CreatedAt e)) \<and> utf8_json (event_value e)"

lemma event_ok_decoded: "Event_UnmarshalJSONFrom v = Some e \<Longrightarrow> wf_json v \<Longrightarrow> event_ok e"
  using Event_UnmarshalJSONFrom_ok[of v e] by (auto simp: event_ok_def)

lemma event_ok_decode: "event_ok e \<Longrightarrow> Event_UnmarshalJSONFrom (event_value e) = Some e"
  using decode_event_value[of e] by (cases "Tags e") (auto simp: event_ok_def)

lemma event_ok_marshal:
  assumes "event_ok e"
  shows "\<exists>s. Event_Marshal e = Some s \<and> Event_Unmarshal s = Some e"
proof -
  have u: "utf8_json (event_value e)" using assms by (simp add: event_ok_def)
  from parse_text_print[OF printable_event[OF u]] event_ok_decode[OF assms] u show ?thesis
    by (simp add: Event_Marshal_def marshal_json_def Event_Unmarshal_def)
qed

lemma event_ok_serialize: "event_ok e \<Longrightarrow> \<exists>s. Serialize (Some e) = Inr s"
  by (auto simp: event_ok_def utf8_event Serialize_def marshal_string_def marshal_tags_def)

end
