(* ===== verification/Pebble_Storage.thy ===== *)
theory Pebble_Storage
  imports Filter_Merge Event_Wire
begin

text \<open>
  \<^verbatim>\<open>PebbleStorage\<close> of \<^verbatim>\<open>pebble_storage.go\<close>: events, their indexes and the deletion records in an ordered
  key-value store. The database of \<^verbatim>\<open>github.com/cockroachdb/pebble\<close>, the hash function are
  parameters: the records \<open>pebble\<close> and \<open>crypto\<close>; events are kept as JSON texts. Every call may fail; an
  error that is wrapped on its way up is passed on as it is. A \<open>None\<close> result is a panic or a loop
  that does not end. The lock of \<^verbatim>\<open>Store\<close> makes each call atomic; a query works on a snapshot, here
  the database value it is called with.
\<close>

section \<open>The database\<close>

datatype kv_result = Got string | ErrNotFound | GetError go_error

datatype batch_op = BSet string string | BDelete string

record ('db, 'it) pebble = "'it iter_ops" +
  kvGet :: "'db \<Rightarrow> string \<Rightarrow> kv_result"
  kvStage :: "batch_op list \<Rightarrow> batch_op \<Rightarrow> go_error option"
  kvCommit :: "'db \<Rightarrow> batch_op list \<Rightarrow> 'db \<times> go_error option"
  kvNewIter :: "'db \<Rightarrow> string \<Rightarrow> string \<Rightarrow> go_error + 'it"

text \<open>\<^verbatim>\<open>json.Marshal\<close> and \<^verbatim>\<open>json.Unmarshal\<close> of an event, the error texts left out.\<close>

definition marshalEvent :: "Event \<Rightarrow> go_error + string" where
  "marshalEvent e = (case Event_Marshal e of None \<Rightarrow> Inl (Error ''marshal'') | Some j \<Rightarrow> Inr j)"

definition unmarshalEvent :: "string \<Rightarrow> go_error + Event" where
  "unmarshalEvent j = (case Event_Unmarshal j of None \<Rightarrow> Inl (Error ''unmarshal'') | Some e \<Rightarrow> Inr e)"

lemma event_ok_coded: "event_ok e \<Longrightarrow> \<exists>j. marshalEvent e = Inr j \<and> unmarshalEvent j = Inr e"
  using event_ok_marshal[of e] by (auto simp: marshalEvent_def unmarshalEvent_def)

definition and_then :: "'e + 'a \<Rightarrow> ('a \<Rightarrow> 'e + 'b) \<Rightarrow> 'e + 'b" where
  "and_then r f = (case r of Inl e \<Rightarrow> Inl e | Inr x \<Rightarrow> f x)"

lemma and_then_simps [simp]: "and_then (Inl e) f = Inl e" "and_then (Inr x) f = f x"
  by (simp_all add: and_then_def)

lemma and_then_Inr: "and_then r f = Inr y \<longleftrightarrow> (\<exists>x. r = Inr x \<and> f x = Inr y)"
  by (cases r) auto

text \<open>\<^verbatim>\<open>batch.Set\<close> and \<^verbatim>\<open>batch.Delete\<close>, one or several in a row with a return at the first error.\<close>

definition stage :: "('db, 'it) pebble \<Rightarrow> batch_op list \<Rightarrow> batch_op \<Rightarrow> go_error + batch_op list" where
  "stage P batch op = (case kvStage P batch op of Some e \<Rightarrow> Inl e | None \<Rightarrow> Inr (batch @ [op]))"

fun stage_all :: "('db, 'it) pebble \<Rightarrow> batch_op list \<Rightarrow> batch_op list \<Rightarrow> go_error + batch_op list" where
  "stage_all P batch [] = Inr batch"
| "stage_all P batch (op # ops) = and_then (stage P batch op) (\<lambda>b. stage_all P b ops)"

section \<open>Reading\<close>

definition getEventByID :: "('db, 'it) pebble \<Rightarrow> 'db \<Rightarrow> string \<Rightarrow> go_error + Event option" where
  "getEventByID P db eventID =
     (case kvGet P db (makeEventKey eventID) of
        ErrNotFound \<Rightarrow> Inr None
      | GetError e \<Rightarrow> Inl e
      | Got v \<Rightarrow> and_then (unmarshalEvent v) (\<lambda>event. Inr (Some event)))"

record deletionRecordData =
  recPubkey :: string
  recCreatedAt :: int

definition getDeletionRecord :: "('db, 'it) pebble \<Rightarrow> 'db \<Rightarrow> char \<Rightarrow> string \<Rightarrow> go_error + deletionRecordData option" where
  "getDeletionRecord P db pfx keyData =
     (case kvGet P db (makeDeletionKey pfx keyData) of
        ErrNotFound \<Rightarrow> Inr None
      | GetError e \<Rightarrow> Inl e
      | Got v \<Rightarrow>
          if length v \<noteq> 40 then Inr None
          else Inr (Some \<lparr>recPubkey = bytesToHex (take 32 v), recCreatedAt = sint (Uint64 (drop 32 v))\<rparr>))"

definition hashAddress :: "('pk, 'sg) crypto \<Rightarrow> string \<Rightarrow> string" where
  "hashAddress C addr = sha256 C addr"

section \<open>Index keys\<close>

fun tag_keys :: "64 word \<Rightarrow> string \<Rightarrow> Tag list \<Rightarrow> string list" where
  "tag_keys invertedTS eventID [] = []"
| "tag_keys invertedTS eventID (tag # tags) =
     (if length tag < 2 \<or> length (tag ! 0) \<noteq> 1 then tag_keys invertedTS eventID tags
      else makeFieldKey (fieldHashTag (tag ! 0 ! 0) (tag ! 1)) invertedTS eventID # tag_keys invertedTS eventID tags)"

definition index_keys :: "Event \<Rightarrow> string \<Rightarrow> string list" where
  "index_keys event eventID =
     (let invertedTS = invertTimestamp (Unix (CreatedAt event)) in
      makeCreatedAtKey invertedTS eventID #
      makeFieldKey (fieldHashAuthor (Pubkey event)) invertedTS eventID #
      makeFieldKey (fieldHashKind (Kind event)) invertedTS eventID #
      tag_keys invertedTS eventID (tags_of event))"

text \<open>All keys of an event are removed, except the address index, which the caller overwrites.\<close>

definition deleteEventFromBatch :: "('db, 'it) pebble \<Rightarrow> 'db \<Rightarrow> batch_op list \<Rightarrow> string \<Rightarrow> go_error + batch_op list" where
  "deleteEventFromBatch P db batch eventID =
     and_then (getEventByID P db eventID) (\<lambda>found. case found of
        None \<Rightarrow> Inr batch
      | Some event \<Rightarrow>
          stage_all P batch (BDelete (makeEventKey eventID) # map BDelete (index_keys event eventID)))"

section \<open>Deletion requests\<close>

definition kind5_value :: "Event \<Rightarrow> string \<Rightarrow> string" where
  "kind5_value event pubkeyBytes = copy_into 32 pubkeyBytes @ PutUint64 (word_of_int (Unix (CreatedAt event)))"

definition kind5_etag ::
    "('db, 'it) pebble \<Rightarrow> 'db \<Rightarrow> Event \<Rightarrow> string \<Rightarrow> batch_op list \<Rightarrow> string \<Rightarrow> go_error + batch_op list" where
  "kind5_etag P db event val batch eventIDBytes =
     and_then (stage P batch (BSet (makeDeletionKey prefixDeletedID eventIDBytes) val)) (\<lambda>b.
     and_then (getEventByID P db eventIDBytes) (\<lambda>target. case target of
        None \<Rightarrow> Inr b
      | Some targetEvent \<Rightarrow>
          if Pubkey targetEvent = Pubkey event \<and> Kind targetEvent \<noteq> 5
          then deleteEventFromBatch P db b eventIDBytes else Inr b))"

definition kind5_atag ::
    "('db, 'it) pebble \<Rightarrow> ('pk, 'sg) crypto \<Rightarrow> 'db \<Rightarrow> Event \<Rightarrow> string \<Rightarrow> batch_op list \<Rightarrow> string \<Rightarrow> go_error + batch_op list" where
  "kind5_atag P C db event val batch addr =
     (let addrHash = hashAddress C addr; addrKey = makeAddrKey addrHash in
      and_then (stage P batch (BSet (makeDeletionKey prefixDeletedAddr addrHash) val)) (\<lambda>b.
        case kvGet P db addrKey of
          ErrNotFound \<Rightarrow> Inr b
        | GetError e \<Rightarrow> Inl e
        | Got existingID \<Rightarrow>
            and_then (getEventByID P db existingID) (\<lambda>target. case target of
              None \<Rightarrow> Inr b
            | Some targetEvent \<Rightarrow>
                if Pubkey targetEvent = Pubkey event \<and> \<not> CreatedAt targetEvent > CreatedAt event then
                  and_then (deleteEventFromBatch P db b existingID) (\<lambda>b'. stage P b' (BDelete addrKey))
                else Inr b)))"

definition kind5_tag ::
    "('db, 'it) pebble \<Rightarrow> ('pk, 'sg) crypto \<Rightarrow> 'db \<Rightarrow> Event \<Rightarrow> string \<Rightarrow> batch_op list \<Rightarrow> Tag \<Rightarrow> (go_error + batch_op list) option" where
  "kind5_tag P C db event val batch tag =
     (if length tag < 2 then Some (Inr batch)
      else if tag ! 0 = ''e'' then
        (if length (tag ! 1) \<noteq> 64 then Some (Inr batch)
         else map_option (kind5_etag P db event val batch) (hexToBytes32 (tag ! 1)))
      else if tag ! 0 = ''a'' then Some (kind5_atag P C db event val batch (tag ! 1))
      else Some (Inr batch))"

fun kind5_tags ::
    "('db, 'it) pebble \<Rightarrow> ('pk, 'sg) crypto \<Rightarrow> 'db \<Rightarrow> Event \<Rightarrow> string \<Rightarrow> batch_op list \<Rightarrow> Tag list \<Rightarrow> (go_error + batch_op list) option" where
  "kind5_tags P C db event val batch [] = Some (Inr batch)"
| "kind5_tags P C db event val batch (tag # tags) =
     (case kind5_tag P C db event val batch tag of
        None \<Rightarrow> None
      | Some (Inl e) \<Rightarrow> Some (Inl e)
      | Some (Inr b) \<Rightarrow> kind5_tags P C db event val b tags)"

definition Pebble_processKind5 ::
    "('db, 'it) pebble \<Rightarrow> ('pk, 'sg) crypto \<Rightarrow> 'db \<Rightarrow> Event \<Rightarrow> ('db \<times> go_error option) option" where
  "Pebble_processKind5 P C db event =
     (case hexToBytes32 (Pubkey event) of None \<Rightarrow> None
      | Some pubkeyBytes \<Rightarrow>
          (case kind5_tags P C db event (kind5_value event pubkeyBytes) [] (tags_of event) of
             None \<Rightarrow> None
           | Some (Inl e) \<Rightarrow> Some (db, Some e)
           | Some (Inr batch) \<Rightarrow> Some (kvCommit P db batch)))"

section \<open>Store\<close>

text \<open>The event with the same address: the new event is rejected, or it proceeds and replaces an old one.\<close>

datatype replace_check = Reject | Proceed "string option"

abbreviation has_address :: "Event \<Rightarrow> bool" where
  "has_address event \<equiv> eventType event = EventTypeReplaceable \<or> eventType event = EventTypeAddressable"

definition check_replaceable ::
    "('db, 'it) pebble \<Rightarrow> ('pk, 'sg) crypto \<Rightarrow> 'db \<Rightarrow> Event \<Rightarrow> go_error + replace_check" where
  "check_replaceable P C db event =
     (if \<not> has_address event then Inr (Proceed None)
      else case kvGet P db (makeAddrKey (hashAddress C (Address_of event))) of
          ErrNotFound \<Rightarrow> Inr (Proceed None)
        | GetError e \<Rightarrow> Inl e
        | Got existingID \<Rightarrow>
            and_then (getEventByID P db existingID) (\<lambda>existing. Inr (case existing of
              None \<Rightarrow> Proceed None
            | Some existingEvent \<Rightarrow>
                if CreatedAt event < CreatedAt existingEvent then Reject
                else if CreatedAt event = CreatedAt existingEvent \<and> ID event \<ge> ID existingEvent then Reject
                else Proceed (Some existingID))))"

definition write_batch ::
    "('db, 'it) pebble \<Rightarrow> ('pk, 'sg) crypto \<Rightarrow> 'db \<Rightarrow> Event \<Rightarrow> string \<Rightarrow> string \<Rightarrow> string option \<Rightarrow> go_error + batch_op list" where
  "write_batch P C db event eventIDBytes eventJSON oldEventID =
     and_then (case oldEventID of None \<Rightarrow> Inr [] | Some old \<Rightarrow> deleteEventFromBatch P db [] old) (\<lambda>batch.
       stage_all P batch
         (BSet (makeEventKey eventIDBytes) eventJSON #
          map (\<lambda>k. BSet k []) (index_keys event eventIDBytes) @
          (if has_address event then [BSet (makeAddrKey (hashAddress C (Address_of event))) eventIDBytes] else [])))"

definition store_write ::
    "('db, 'it) pebble \<Rightarrow> ('pk, 'sg) crypto \<Rightarrow> 'db \<Rightarrow> Event \<Rightarrow> string \<Rightarrow> 'db \<times> (go_error + bool)" where
  "store_write P C db event eventIDBytes =
     (case check_replaceable P C db event of
        Inl e \<Rightarrow> (db, Inl e)
      | Inr Reject \<Rightarrow> (db, Inr False)
      | Inr (Proceed oldEventID) \<Rightarrow>
          (case and_then (marshalEvent event) (\<lambda>eventJSON. write_batch P C db event eventIDBytes eventJSON oldEventID) of
             Inl e \<Rightarrow> (db, Inl e)
           | Inr batch \<Rightarrow>
               (case kvCommit P db batch of
                  (db', Some e) \<Rightarrow> (db', Inl e)
                | (db', None) \<Rightarrow> (db', Inr True))))"

text \<open>Whether the address of the event was deleted by its author at or after its time.\<close>

definition address_deleted ::
    "('db, 'it) pebble \<Rightarrow> ('pk, 'sg) crypto \<Rightarrow> 'db \<Rightarrow> Event \<Rightarrow> go_error + bool" where
  "address_deleted P C db event =
     (if Address_of event \<noteq> '''' then
        and_then (getDeletionRecord P db prefixDeletedAddr (hashAddress C (Address_of event))) (\<lambda>rec.
          Inr (case rec of None \<Rightarrow> False
               | Some r \<Rightarrow> if recPubkey r = Pubkey event then Unix (CreatedAt event) \<le> recCreatedAt r else False))
      else Inr False)"

definition store_checked ::
    "('db, 'it) pebble \<Rightarrow> ('pk, 'sg) crypto \<Rightarrow> 'db \<Rightarrow> Event \<Rightarrow> string \<Rightarrow> ('db \<times> (go_error + bool)) option" where
  "store_checked P C db event eventIDBytes =
     (if eventType event = EventTypeEphemeral then Some (db, Inr False)
      else case address_deleted P C db event of
        Inl e \<Rightarrow> Some (db, Inl e)
      | Inr True \<Rightarrow> Some (db, Inr False)
      | Inr False \<Rightarrow>
          (if Kind event = 5 then
             (case Pebble_processKind5 P C db event of
                None \<Rightarrow> None
              | Some (db', Some e) \<Rightarrow> Some (db', Inl e)
              | Some (db', None) \<Rightarrow> Some (store_write P C db' event eventIDBytes))
           else Some (store_write P C db event eventIDBytes)))"

definition Pebble_Store ::
    "('db, 'it) pebble \<Rightarrow> ('pk, 'sg) crypto \<Rightarrow> 'db \<Rightarrow> Event option \<Rightarrow> ('db \<times> (go_error + bool)) option" where
  "Pebble_Store P C db ep =
     (case ep of None \<Rightarrow> Some (db, Inr False)
      | Some event \<Rightarrow>
          (case hexToBytes32 (ID event) of None \<Rightarrow> None
           | Some eventIDBytes \<Rightarrow>
               (case kvGet P db (makeEventKey eventIDBytes) of
                  Got v \<Rightarrow> Some (db, Inr False)
                | GetError e \<Rightarrow> Some (db, Inl e)
                | ErrNotFound \<Rightarrow>
                    (case getDeletionRecord P db prefixDeletedID eventIDBytes of
                       Inl e \<Rightarrow> Some (db, Inl e)
                     | Inr rec \<Rightarrow>
                         if (case rec of None \<Rightarrow> False | Some r \<Rightarrow> recPubkey r = Pubkey event) then Some (db, Inr False)
                         else store_checked P C db event eventIDBytes))))"

section \<open>Cursors for a filter\<close>

text \<open>The bounds of an index scan: from \<^verbatim>\<open>until\<close> (the later time, the smaller key) to \<^verbatim>\<open>since\<close>.\<close>

definition lower_bound :: "string \<Rightarrow> ReqFilter \<Rightarrow> string" where
  "lower_bound pfx f = (case Until f of None \<Rightarrow> pfx | Some u \<Rightarrow> pfx @ PutUint64 (invertTimestamp u))"

definition upper_bound :: "string \<Rightarrow> string \<Rightarrow> ReqFilter \<Rightarrow> string" where
  "upper_bound pfx next_pfx f =
     (case Since f of None \<Rightarrow> next_pfx | Some s \<Rightarrow> pfx @ PutUint64 (invertTimestamp s + 1))"

definition scan :: "('db, 'it) pebble \<Rightarrow> 'db \<Rightarrow> string \<Rightarrow> string \<Rightarrow> ReqFilter \<Rightarrow> (go_error + 'it indexCursor) option" where
  "scan P db pfx next_pfx f =
     (case kvNewIter P db (lower_bound pfx f) (upper_bound pfx next_pfx f) of
        Inl e \<Rightarrow> Some (Inl e)
      | Inr it \<Rightarrow> map_option Inr (newIndexCursor P it pfx (length pfx) (length pfx + 8)))"

definition newFieldIndexCursor :: "('db, 'it) pebble \<Rightarrow> 'db \<Rightarrow> ReqFilter \<Rightarrow> 64 word \<Rightarrow> (go_error + 'it indexCursor) option" where
  "newFieldIndexCursor P db f hash =
     (let pfx = prefixField # PutUint64 hash in scan P db pfx (incrementBytes pfx) f)"

definition newCreatedAtCursor :: "('db, 'it) pebble \<Rightarrow> 'db \<Rightarrow> ReqFilter \<Rightarrow> (go_error + 'it indexCursor) option" where
  "newCreatedAtCursor P db f = scan P db [prefixCreatedAt] [char_of (byte_of prefixCreatedAt + 1)] f"

fun field_cursors :: "('db, 'it) pebble \<Rightarrow> 'db \<Rightarrow> ReqFilter \<Rightarrow> 64 word list \<Rightarrow> (go_error + 'it indexCursor list) option" where
  "field_cursors P db f [] = Some (Inr [])"
| "field_cursors P db f (h # hs) =
     (case newFieldIndexCursor P db f h of
        None \<Rightarrow> None
      | Some (Inl e) \<Rightarrow> Some (Inl e)
      | Some (Inr cur) \<Rightarrow>
          (case field_cursors P db f hs of
             None \<Rightarrow> None
           | Some (Inl e) \<Rightarrow> Some (Inl e)
           | Some (Inr curs) \<Rightarrow> Some (Inr (cur # curs))))"

text \<open>The hashes of each condition of a filter, conditions without any usable value left out.\<close>

fun tag_conditions :: "(string \<times> string list) list \<Rightarrow> 64 word list list" where
  "tag_conditions [] = []"
| "tag_conditions ((tagName, tagValues) # kvs) =
     (if length tagName \<noteq> 1 \<or> length tagValues = 0 then tag_conditions kvs
      else map (fieldHashTag (tagName ! 0)) tagValues # tag_conditions kvs)"

definition conditions :: "ReqFilter \<Rightarrow> 64 word list list" where
  "conditions f =
     filter (\<lambda>hs. length hs > 0)
       [map fieldHashAuthor (filter (\<lambda>a. length a = 64) (elems (Authors f))), map fieldHashKind (elems (Kinds f))] @
     tag_conditions (TagFilters f)"

fun condition_cursors ::
    "('db, 'it) pebble \<Rightarrow> 'db \<Rightarrow> ReqFilter \<Rightarrow> 64 word list list \<Rightarrow> (go_error + 'it indexCursor wrapped list) option" where
  "condition_cursors P db f [] = Some (Inr [])"
| "condition_cursors P db f (hs # hss) =
     (case field_cursors P db f hs of
        None \<Rightarrow> None
      | Some (Inl e) \<Rightarrow> Some (Inl e)
      | Some (Inr curs) \<Rightarrow>
          (case condition_cursors P db f hss of
             None \<Rightarrow> None
           | Some (Inl e) \<Rightarrow> Some (Inl e)
           | Some (Inr ws) \<Rightarrow> Some (Inr (wrapCursors (index_ops P) curs # ws))))"

fun ids_entries :: "('db, 'it) pebble \<Rightarrow> 'db \<Rightarrow> string list \<Rightarrow> (go_error + entry list) option" where
  "ids_entries P db [] = Some (Inr [])"
| "ids_entries P db (hexID # ids) =
     (if length hexID \<noteq> 64 then ids_entries P db ids
      else case hexToBytes32 hexID of None \<Rightarrow> None
      | Some eventIDBytes \<Rightarrow>
          (case getEventByID P db eventIDBytes of
             Inl e \<Rightarrow> Some (Inl e)
           | Inr None \<Rightarrow> ids_entries P db ids
           | Inr (Some event) \<Rightarrow>
               (case ids_entries P db ids of
                  None \<Rightarrow> None
                | Some (Inl e) \<Rightarrow> Some (Inl e)
                | Some (Inr es) \<Rightarrow> Some (Inr ((invertTimestamp (Unix (CreatedAt event)), eventIDBytes) # es)))))"

definition buildIDsCursor :: "('db, 'it) pebble \<Rightarrow> 'db \<Rightarrow> string list \<Rightarrow> (go_error + sliceCursor option) option" where
  "buildIDsCursor P db ids =
     map_option (\<lambda>r. and_then r (\<lambda>es. Inr (if length es = 0 then None else Some (newSliceCursor (sort es)))))
       (ids_entries P db ids)"

definition buildFilterCursor ::
    "('db, 'it) pebble \<Rightarrow> 'db \<Rightarrow> ReqFilter \<Rightarrow> (go_error + 'it indexCursor queryCursor option) option" where
  "buildFilterCursor P db f =
     (if length (elems (IDs f)) > 0 then
        map_option (\<lambda>r. and_then r (\<lambda>c. Inr (map_option ByIDs c))) (buildIDsCursor P db (elems (IDs f)))
      else case condition_cursors P db f (conditions f) of
        None \<Rightarrow> None
      | Some (Inl e) \<Rightarrow> Some (Inl e)
      | Some (Inr ws) \<Rightarrow>
          if length ws = 0 then
            map_option (\<lambda>r. and_then r (\<lambda>c. Inr (Some (OneCondition (Single c))))) (newCreatedAtCursor P db f)
          else if length ws = 1 then Some (Inr (Some (OneCondition (ws ! 0))))
          else map_option (\<lambda>c. Inr (Some (AllConditions c))) (newIntersectCursor (wrapped_ops (index_ops P)) ws))"

section \<open>Query\<close>

fun filter_heap ::
    "('db, 'it) pebble \<Rightarrow> 'db \<Rightarrow> ('it indexCursor queryCursor \<times> ReqFilter) list \<Rightarrow> ReqFilter list \<Rightarrow>
     (go_error + ('it indexCursor queryCursor \<times> ReqFilter) list) option" where
  "filter_heap P db fh [] = Some (Inr fh)"
| "filter_heap P db fh (f # fs) =
     (case buildFilterCursor P db f of
        None \<Rightarrow> None
      | Some (Inl e) \<Rightarrow> Some (Inl e)
      | Some (Inr None) \<Rightarrow> filter_heap P db fh fs
      | Some (Inr (Some c)) \<Rightarrow>
          filter_heap P db
            (if cValid (query_ops (index_ops P)) c then heap_push (filterCursor_lt (query_ops (index_ops P))) fh (c, f) else fh) fs)"

definition Pebble_Query ::
    "('db, 'it) pebble \<Rightarrow> 'db \<Rightarrow> ReqFilter list \<Rightarrow> (Event list \<times> go_error option) option" where
  "Pebble_Query P db filters =
     (if length filters = 0 then Some ([], None)
      else case filter_heap P db [] filters of
        None \<Rightarrow> None
      | Some (Inl e) \<Rightarrow> Some ([], Some e)
      | Some (Inr fh) \<Rightarrow>
          query_loop (query_ops (index_ops P)) (getEventByID P db) (limit_of filters) 0 {} fh)"

end
