(* ===== verification/Pebble_Index.thy ===== *)
theory Pebble_Index
  imports Pebble_Storage
begin

text \<open>
  What the key-value store of \<^verbatim>\<open>PebbleStorage\<close> represents: a set of events, each under its event key,
  its time key and one key per indexed field. The lemmas say how the batches of \<^verbatim>\<open>Store\<close> change the
  set, and what a lookup by identifier finds.
\<close>

section \<open>What is relied on\<close>

text \<open>The effect of a batch on the contents.\<close>

fun apply_op :: "batch_op \<Rightarrow> (string \<rightharpoonup> string) \<Rightarrow> (string \<rightharpoonup> string)" where
  "apply_op (BSet k v) m = m(k \<mapsto> v)"
| "apply_op (BDelete k) m = m(k := None)"

definition apply_batch :: "batch_op list \<Rightarrow> (string \<rightharpoonup> string) \<Rightarrow> (string \<rightharpoonup> string)" where
  "apply_batch ops m = foldl (\<lambda>m op. apply_op op m) m ops"

lemma apply_batch_simps [simp]:
  "apply_batch [] m = m" "apply_batch (op # ops) m = apply_batch ops (apply_op op m)"
  "apply_batch (xs @ ys) m = apply_batch ys (apply_batch xs m)"
  by (simp_all add: apply_batch_def)

text \<open>
  What \<^verbatim>\<open>pebble\<close> documents: a read returns the current value or \<^verbatim>\<open>ErrNotFound\<close>, unless it fails; a
  commit applies the whole batch or, if it fails, possibly nothing; an iterator is over the keys
  within its bounds.
\<close>

definition kv_laws :: "('db, 'it) pebble \<Rightarrow> ('db \<Rightarrow> string \<rightharpoonup> string) \<Rightarrow> ('it \<Rightarrow> string list \<times> nat) \<Rightarrow> bool" where
  "kv_laws P contents view \<longleftrightarrow> iter_laws P view \<and>
     (\<forall>db k. case kvGet P db k of Got v \<Rightarrow> contents db k = Some v | ErrNotFound \<Rightarrow> contents db k = None | GetError e \<Rightarrow> True) \<and>
     (\<forall>db b. contents (fst (kvCommit P db b)) = apply_batch b (contents db) \<or>
        snd (kvCommit P db b) \<noteq> None \<and> contents (fst (kvCommit P db b)) = contents db) \<and>
     (\<forall>db lo up it. kvNewIter P db lo up = Inr it \<longrightarrow> sorted_wrt (<) (fst (view it)) \<and>
        set (fst (view it)) = {k \<in> dom (contents db). lo \<le> k \<and> k < up})"

text \<open>
  The events a relay lets in, as a set \<open>U\<close> within which an identifier determines its event, with a
  set \<open>A\<close> of addresses the hash function does not confuse: identifiers and public keys are
  lower-case hexadecimal, times are whole \<^verbatim>\<open>int64\<close> seconds, and reading back a marshalled event
  gives that event, as it does for every event from the wire (\<open>event_ok_coded\<close>). The \<^verbatim>\<open>e\<close> tags of deletion requests of full length are identifiers, not their own,
  and their \<^verbatim>\<open>a\<close> tags are not empty.
\<close>

definition good_event :: "string set \<Rightarrow> Event \<Rightarrow> bool" where
  "good_event A e \<longleftrightarrow> isValidLowercaseHex (ID e) 64 \<and> isValidLowercaseHex (Pubkey e) 64 \<and>
     int64 (CreatedAt e div nsPerSec) \<and> CreatedAt e mod nsPerSec = 0 \<and>
     (case marshalEvent e of Inr j \<Rightarrow> unmarshalEvent j = Inr e | Inl _ \<Rightarrow> True) \<and>
     (Address_of e = '''' \<or> Address_of e \<in> A) \<and>
     (Kind e = 5 \<longrightarrow> (\<forall>tag \<in> set (tags_of e). length tag \<ge> 2 \<longrightarrow>
        (tag ! 0 = ''e'' \<longrightarrow> length (tag ! 1) = 64 \<longrightarrow> isValidLowercaseHex (tag ! 1) 64 \<and> tag ! 1 \<noteq> ID e) \<and>
        (tag ! 0 = ''a'' \<longrightarrow> tag ! 1 \<in> A)))"

definition good_events :: "('pk, 'sg) crypto \<Rightarrow> Event set \<Rightarrow> string set \<Rightarrow> bool" where
  "good_events C U A \<longleftrightarrow> inj_on ID U \<and> inj_on (hashAddress C) A \<and>
     (\<forall>a \<in> A. a \<noteq> '''' \<and> length (hashAddress C a) = 32) \<and> (\<forall>e \<in> U. good_event A e)"

lemma good_eventsD:
  assumes "good_events C U A" "e \<in> U"
  shows "isValidLowercaseHex (ID e) 64" "isValidLowercaseHex (Pubkey e) 64" "int64 (Unix (CreatedAt e))"
    "CreatedAt e = Unix (CreatedAt e) * nsPerSec" "marshalEvent e = Inr j \<Longrightarrow> unmarshalEvent j = Inr e"
    "Address_of e \<noteq> '''' \<Longrightarrow> Address_of e \<in> A"
proof -
  have g: "good_event A e" using assms by (simp add: good_events_def)
  then show "isValidLowercaseHex (ID e) 64" "isValidLowercaseHex (Pubkey e) 64"
    "Address_of e \<noteq> '''' \<Longrightarrow> Address_of e \<in> A" "marshalEvent e = Inr j \<Longrightarrow> unmarshalEvent j = Inr e"
    by (auto simp: good_event_def)
  have u: "Unix (CreatedAt e) = CreatedAt e div nsPerSec" using g by (simp add: Unix_def good_event_def wrap64_id)
  then show "int64 (Unix (CreatedAt e))" using g by (simp add: good_event_def)
  show "CreatedAt e = Unix (CreatedAt e) * nsPerSec"
  proof -
    have "CreatedAt e mod nsPerSec = 0" using g by (simp add: good_event_def)
    then show ?thesis unfolding u by (metis div_mult_mod_eq add_0_right)
  qed
qed

section \<open>The keys of an event\<close>

definition idb :: "Event \<Rightarrow> string" where
  "idb e = hex_bytes (ID e)"

definition entry_of :: "Event \<Rightarrow> entry" where
  "entry_of e = (invertTimestamp (Unix (CreatedAt e)), idb e)"

definition field_hashes :: "Event \<Rightarrow> 64 word set" where
  "field_hashes e = {fieldHashAuthor (Pubkey e), fieldHashKind (Kind e)} \<union>
     {h. \<exists>tag \<in> set (tags_of e). length tag \<ge> 2 \<and> length (tag ! 0) = 1 \<and> h = fieldHashTag (tag ! 0 ! 0) (tag ! 1)}"

lemma set_tag_keys: "set (tag_keys ts i tags) =
    {makeFieldKey h ts i |h. \<exists>tag \<in> set tags. length tag \<ge> 2 \<and> length (tag ! 0) = 1 \<and> h = fieldHashTag (tag ! 0 ! 0) (tag ! 1)}"
  by (induction tags) (auto simp: not_le not_less)

lemma set_index_keys: "set (index_keys e (idb e)) =
    insert (makeCreatedAtKey (fst (entry_of e)) (idb e)) {makeFieldKey h (fst (entry_of e)) (idb e) |h. h \<in> field_hashes e}"
  by (auto simp: index_keys_def Let_def set_tag_keys entry_of_def field_hashes_def)

text \<open>All bindings of an event.\<close>

definition bindings :: "Event \<Rightarrow> (string \<times> string) set" where
  "bindings e = insert (makeEventKey (idb e), projr (marshalEvent e)) ((\<lambda>k. (k, [])) ` set (index_keys e (idb e)))"

definition data_key :: "string \<Rightarrow> bool" where
  "data_key k \<longleftrightarrow> k \<noteq> [] \<and> hd k \<in> {prefixEvent, prefixCreatedAt, prefixField}"

definition represents :: "Event set \<Rightarrow> (string \<rightharpoonup> string) \<Rightarrow> Event set \<Rightarrow> bool" where
  "represents U m E \<longleftrightarrow> E \<subseteq> U \<and> (\<forall>e \<in> E. isl (marshalEvent e) = False) \<and> (\<forall>k \<in> dom m. 9 \<le> length k) \<and>
     (\<forall>k. data_key k \<longrightarrow> (\<forall>v. m k = Some v \<longleftrightarrow> (\<exists>e \<in> E. (k, v) \<in> bindings e)))"

lemma idb_props:
  assumes "good_events C U A" "e \<in> U"
  shows "length (idb e) = 32" "hexToBytes32 (ID e) = Some (idb e)" "bytesToHex (idb e) = ID e"
  using lowercase_hex_bytes[OF good_eventsD(1)[OF assms]] by (simp_all add: idb_def)

lemma idb_inject:
  assumes "good_events C U A" "e \<in> U" "e' \<in> U"
  shows "idb e = idb e' \<longleftrightarrow> e = e'"
  using assms idb_props(3)[OF assms(1,2)] idb_props(3)[OF assms(1,3)]
  unfolding good_events_def by (metis inj_on_eq_iff)

lemma binding_key:
  assumes "(k, v) \<in> bindings e" "length (idb e) = 32"
  shows "data_key k" "33 \<le> length k" "drop (length k - 32) k = idb e"
  using assms
  by (auto simp: bindings_def set_index_keys data_key_def makeEventKey_def makeCreatedAtKey_def makeFieldKey_def)

lemma binding_value:
  "(k, v) \<in> bindings e \<Longrightarrow> (k, v') \<in> bindings e \<Longrightarrow> v = v'"
  by (auto simp: bindings_def set_index_keys makeEventKey_def makeCreatedAtKey_def makeFieldKey_def prefix_defs)

section \<open>How batches change the set of events\<close>

definition delete_ops :: "Event \<Rightarrow> batch_op list" where
  "delete_ops e = BDelete (makeEventKey (idb e)) # map BDelete (index_keys e (idb e))"

definition insert_ops :: "Event \<Rightarrow> batch_op list" where
  "insert_ops e = BSet (makeEventKey (idb e)) (projr (marshalEvent e)) # map (\<lambda>k. BSet k []) (index_keys e (idb e))"

lemma apply_deletes: "apply_batch (map BDelete ks) m k = (if k \<in> set ks then None else m k)"
  by (induction ks arbitrary: m) auto

lemma apply_sets: "apply_batch (map (\<lambda>k. BSet k v) ks) m k = (if k \<in> set ks then Some v else m k)"
  by (induction ks arbitrary: m) auto

lemma apply_delete_ops:
  "apply_batch (delete_ops e) m k = (if k \<in> fst ` bindings e then None else m k)"
  by (auto simp: delete_ops_def apply_deletes bindings_def image_image)

lemma apply_insert_ops:
  assumes "length (idb e) = 32"
  shows "apply_batch (insert_ops e) m k = (if k \<in> fst ` bindings e then Some (THE v. (k, v) \<in> bindings e) else m k)"
proof (cases "k \<in> fst ` bindings e")
  case True
  then obtain v where v: "(k, v) \<in> bindings e" by auto
  then have "(THE v. (k, v) \<in> bindings e) = v" by (rule the_equality) (metis v binding_value)
  with v True show ?thesis
    by (auto simp: insert_ops_def apply_sets bindings_def set_index_keys makeEventKey_def makeCreatedAtKey_def makeFieldKey_def prefix_defs)
qed (auto simp: insert_ops_def apply_sets bindings_def image_image)

lemma represents_delete:
  assumes g: "good_events C U A" and r: "represents U m E" and e: "e \<in> U"
  shows "represents U (apply_batch (delete_ops e) m) (E - {e})"
  unfolding represents_def
proof (intro conjI allI impI ballI)
  let ?m = "apply_batch (delete_ops e) m"
  note d = apply_delete_ops[of e m]
  show "E - {e} \<subseteq> U" using r by (auto simp: represents_def)
  show "e' \<in> E - {e} \<Longrightarrow> isl (marshalEvent e') = False" for e' using r by (auto simp: represents_def)
  show "k \<in> dom ?m \<Longrightarrow> 9 \<le> length k" for k using r unfolding represents_def by (auto simp: d split: if_splits)
  fix k v assume k: "data_key k"
  have "(k, v) \<in> bindings e' \<Longrightarrow> k \<in> fst ` bindings e \<longleftrightarrow> e' = e" if "e' \<in> E" for e'
  proof -
    assume b: "(k, v) \<in> bindings e'"
    have U: "e' \<in> U" using that r by (auto simp: represents_def)
    show ?thesis using binding_key(3)[OF b idb_props(1)[OF g U]] b
        binding_key(3)[OF _ idb_props(1)[OF g e], of k] idb_inject[OF g U e] by force
  qed
  with r k show "?m k = Some v \<longleftrightarrow> (\<exists>e' \<in> E - {e}. (k, v) \<in> bindings e')"
    unfolding represents_def d by auto
qed

lemma represents_insert:
  assumes g: "good_events C U A" and r: "represents U m E" and e: "e \<in> U" "marshalEvent e = Inr j"
    and fresh: "\<And>e'. e' \<in> E \<Longrightarrow> idb e' \<noteq> idb e"
  shows "represents U (apply_batch (insert_ops e) m) (insert e E)"
  unfolding represents_def
proof (intro conjI allI impI ballI)
  let ?m = "apply_batch (insert_ops e) m"
  have l: "length (idb e) = 32" using idb_props(1)[OF g e(1)] .
  note d = apply_insert_ops[OF l, of m]
  show "insert e E \<subseteq> U" using r e by (auto simp: represents_def)
  show "e' \<in> insert e E \<Longrightarrow> isl (marshalEvent e') = False" for e' using r e by (auto simp: represents_def)
  show "9 \<le> length k" if "k \<in> dom ?m" for k
  proof (cases "k \<in> fst ` bindings e")
    case True
    then show ?thesis using binding_key(2)[OF _ l] by fastforce
  next
    case False
    with that r show ?thesis unfolding represents_def by (auto simp: d)
  qed
  fix k v assume k: "data_key k"
  show "?m k = Some v \<longleftrightarrow> (\<exists>e' \<in> insert e E. (k, v) \<in> bindings e')"
  proof (cases "k \<in> fst ` bindings e")
    case True
    then obtain w where w: "(k, w) \<in> bindings e" by auto
    have "(THE v. (k, v) \<in> bindings e) = w" by (rule the_equality) (metis w binding_value)+
    moreover have "(k, v) \<notin> bindings e'" if "e' \<in> E" for e'
    proof
      assume b: "(k, v) \<in> bindings e'"
      have "e' \<in> U" using that r by (auto simp: represents_def)
      with binding_key(3)[OF b idb_props(1)[OF g]] binding_key(3)[OF w l] fresh[OF that] show False by simp
    qed
    ultimately show ?thesis using True w binding_value by (auto simp: d)
  next
    case False
    then have "(k, v) \<notin> bindings e" by force
    with False r k show ?thesis unfolding represents_def by (auto simp: d)
  qed
qed

text \<open>Keys of the other kinds can be written freely.\<close>

lemma represents_other:
  assumes "represents U m E" "\<not> data_key k" "9 \<le> length k"
  shows "represents U (m(k := v)) E"
  using assms unfolding represents_def by (auto split: if_splits)

end
