(* ===== verification/Pebble_Refinement.thy ===== *)
theory Pebble_Refinement
  imports Pebble_Index
begin

text \<open>
  \<^verbatim>\<open>PebbleStorage.Store\<close> refines \<^verbatim>\<open>InMemoryStorage.Store\<close>: the relation \<open>sim\<close> between the contents of
  the key-value store and the in-memory state is kept by every call that succeeds, with the same
  answer; a call that fails leaves contents that are still related to some in-memory state.
\<close>

section \<open>The relation\<close>

definition rec_value :: "deletionRecord \<Rightarrow> string" where
  "rec_value r = hex_bytes (dPubkey r) @ PutUint64 (word_of_int (Unix (dCreatedAt r)))"

definition addr_key :: "('pk, 'sg) crypto \<Rightarrow> string \<Rightarrow> string" where
  "addr_key C a = makeAddrKey (hashAddress C a)"

text \<open>The address index holds every stored event; stale entries lead to events with that address.\<close>

definition addr_ok :: "('pk, 'sg) crypto \<Rightarrow> Event set \<Rightarrow> string set \<Rightarrow> (string \<rightharpoonup> string) \<Rightarrow> Event set \<Rightarrow> bool" where
  "addr_ok C U A m E \<longleftrightarrow>
     (\<forall>e \<in> E. Address_of e \<noteq> '''' \<longrightarrow> m (addr_key C (Address_of e)) = Some (idb e)) \<and>
     (\<forall>a \<in> A. \<forall>i. m (addr_key C a) = Some i \<longrightarrow> (\<exists>e \<in> U. Address_of e = a \<and> idb e = i))"

definition recs_ok :: "('pk, 'sg) crypto \<Rightarrow> Event set \<Rightarrow> string set \<Rightarrow> (string \<rightharpoonup> string) \<Rightarrow> InMemoryStorage \<Rightarrow> bool" where
  "recs_ok C U A m s \<longleftrightarrow>
     (\<forall>i. isValidLowercaseHex i 64 \<longrightarrow>
        m (makeDeletionKey prefixDeletedID (hex_bytes i)) = map_option rec_value (deletedIDs s i)) \<and>
     (\<forall>a \<in> A. m (makeDeletionKey prefixDeletedAddr (hashAddress C a)) = map_option rec_value (deletedAddrs s a)) \<and>
     (\<forall>r \<in> ran (deletedIDs s) \<union> ran (deletedAddrs s). \<exists>e \<in> U. dPubkey r = Pubkey e \<and> dCreatedAt r = CreatedAt e)"

definition sim :: "('pk, 'sg) crypto \<Rightarrow> Event set \<Rightarrow> string set \<Rightarrow> (string \<rightharpoonup> string) \<Rightarrow> InMemoryStorage \<Rightarrow> bool" where
  "sim C U A m s \<longleftrightarrow> represents U m (set (events s)) \<and> addr_ok C U A m (set (events s)) \<and> recs_ok C U A m s"

lemma sim_empty: "sim C U A Map.empty NewInMemoryStorage"
  by (simp add: sim_def represents_def addr_ok_def recs_ok_def NewInMemoryStorage_def)

section \<open>Keys apart\<close>

lemma not_data_key [simp]:
  "\<not> data_key (makeDeletionKey prefixDeletedID i)" "\<not> data_key (makeDeletionKey prefixDeletedAddr i)" "\<not> data_key (addr_key C a)"
  by (simp_all add: data_key_def makeDeletionKey_def addr_key_def makeAddrKey_def prefix_defs)

lemma key_kinds [simp]:
  "makeDeletionKey prefixDeletedID i \<noteq> makeDeletionKey prefixDeletedAddr j"
  "makeDeletionKey prefixDeletedAddr j \<noteq> makeDeletionKey prefixDeletedID i"
  "makeDeletionKey prefixDeletedID i \<noteq> addr_key C a" "makeDeletionKey prefixDeletedAddr i \<noteq> addr_key C a"
  "addr_key C a \<noteq> makeDeletionKey prefixDeletedID i" "addr_key C a \<noteq> makeDeletionKey prefixDeletedAddr i"
  by (simp_all add: makeDeletionKey_def addr_key_def makeAddrKey_def prefix_defs)

lemma length_keys [simp]: "9 \<le> length (makeDeletionKey p i)" "9 \<le> length (addr_key C a)"
  by (simp_all add: makeDeletionKey_def addr_key_def makeAddrKey_def)

lemma makeDeletionKey_inject:
  "length i = 32 \<Longrightarrow> length j = 32 \<Longrightarrow> makeDeletionKey p i = makeDeletionKey p j \<longleftrightarrow> i = j"
  by (simp add: makeDeletionKey_def)

lemma addr_key_inject:
  "good_events C U A \<Longrightarrow> a \<in> A \<Longrightarrow> b \<in> A \<Longrightarrow> addr_key C a = addr_key C b \<longleftrightarrow> a = b"
  by (auto simp: good_events_def addr_key_def makeAddrKey_def dest: inj_onD)

lemma delete_ops_other: "length (idb e) = 32 \<Longrightarrow> \<not> data_key k \<Longrightarrow> apply_batch (delete_ops e) m k = m k"
proof -
  assume "length (idb e) = 32" "\<not> data_key k"
  then have "k \<notin> fst ` bindings e" using binding_key(1)[of k _ e] by force
  then show ?thesis by (simp add: apply_delete_ops[of e m k])
qed

lemma insert_ops_other: "length (idb e) = 32 \<Longrightarrow> \<not> data_key k \<Longrightarrow> apply_batch (insert_ops e) m k = m k"
proof -
  assume l: "length (idb e) = 32" "\<not> data_key k"
  then have "k \<notin> fst ` bindings e" using binding_key(1)[of k _ e] by force
  then show ?thesis by (simp add: apply_insert_ops[OF l(1)])
qed

lemma stage_all_Inr: "stage_all P b ops = Inr b' \<Longrightarrow> b' = b @ ops"
  by (induction ops arbitrary: b) (fastforce simp: and_then_Inr stage_def split: option.splits)+

lemma stage_Inr: "stage P b op = Inr b' \<Longrightarrow> b' = b @ [op]"
  by (simp add: stage_def split: option.splits)

section \<open>Reading\<close>

lemma kvGet_law:
  "kv_laws P contents view \<Longrightarrow> kvGet P db k = Got v \<Longrightarrow> contents db k = Some v"
  "kv_laws P contents view \<Longrightarrow> kvGet P db k = ErrNotFound \<Longrightarrow> contents db k = None"
proof -
  assume "kv_laws P contents view"
  then have "case kvGet P db k of Got v \<Rightarrow> contents db k = Some v | ErrNotFound \<Rightarrow> contents db k = None | GetError e \<Rightarrow> True"
    by (simp add: kv_laws_def)
  then show "kvGet P db k = Got v \<Longrightarrow> contents db k = Some v" "kvGet P db k = ErrNotFound \<Longrightarrow> contents db k = None"
    by simp_all
qed

lemma event_key_bound:
  assumes g: "good_events C U A" and r: "represents U m E" and i: "length i = 32"
  shows "m (makeEventKey i) = Some v \<longleftrightarrow> (\<exists>e \<in> E. idb e = i \<and> v = projr (marshalEvent e))"
proof -
  have "data_key (makeEventKey i)" by (simp add: data_key_def makeEventKey_def)
  with r have "m (makeEventKey i) = Some v \<longleftrightarrow> (\<exists>e \<in> E. (makeEventKey i, v) \<in> bindings e)"
    by (simp add: represents_def)
  moreover have "(makeEventKey i, v) \<in> bindings e \<longleftrightarrow> idb e = i \<and> v = projr (marshalEvent e)" if "e \<in> E" for e
  proof -
    have "length (idb e) = 32" using idb_props(1)[OF g, of e] that r by (auto simp: represents_def)
    with i show ?thesis
      by (auto simp: bindings_def set_index_keys makeEventKey_def makeCreatedAtKey_def makeFieldKey_def prefix_defs)
  qed
  ultimately show ?thesis by auto
qed

lemma getEventByID_Inr:
  assumes kv: "kv_laws P contents view" and g: "good_events C U A" and r: "represents U (contents db) E"
    and i: "length i = 32" and get: "getEventByID P db i = Inr res"
  shows "case res of None \<Rightarrow> \<forall>e \<in> E. idb e \<noteq> i | Some e \<Rightarrow> e \<in> E \<and> idb e = i"
proof (cases "kvGet P db (makeEventKey i)")
  case (Got v)
  then obtain e where e: "e \<in> E" "idb e = i" "v = projr (marshalEvent e)"
    using event_key_bound[OF g r i] kvGet_law(1)[OF kv] by blast
  then obtain j where j: "marshalEvent e = Inr j" using r by (cases "marshalEvent e") (auto simp: represents_def)
  have "e \<in> U" using e(1) r by (auto simp: represents_def)
  then have "unmarshalEvent v = Inr e" using good_eventsD(5)[OF g _ j] e(3) j by simp
  with Got get e show ?thesis by (auto simp: getEventByID_def)
next
  case ErrNotFound
  then have "contents db (makeEventKey i) = None" using kvGet_law(2)[OF kv] by blast
  with event_key_bound[OF g r i] have "\<forall>e \<in> E. idb e \<noteq> i" by (metis option.distinct(1))
  with ErrNotFound get show ?thesis by (auto simp: getEventByID_def)
qed (use get in \<open>simp add: getEventByID_def\<close>)

lemma deleteEventFromBatch_Inr:
  assumes "kv_laws P contents view" "good_events C U A" "represents U (contents db) E" "length i = 32"
    and del: "deleteEventFromBatch P db b i = Inr b'"
  shows "(\<forall>e \<in> E. idb e \<noteq> i) \<and> b' = b \<or> (\<exists>e \<in> E. idb e = i \<and> b' = b @ delete_ops e)"
proof -
  from del obtain res where f: "getEventByID P db i = Inr res"
    "(case res of None \<Rightarrow> Inr b | Some event \<Rightarrow>
        stage_all P b (BDelete (makeEventKey i) # map BDelete (index_keys event i))) = Inr b'"
    unfolding deleteEventFromBatch_def and_then_Inr by blast
  with getEventByID_Inr[OF assms(1-4) f(1)] show ?thesis
    by (cases res) (auto simp: delete_ops_def dest!: stage_all_Inr simp del: stage_all.simps)
qed

lemma rec_value_parse:
  assumes "good_events C U A" "e \<in> U" "dPubkey r = Pubkey e" "dCreatedAt r = CreatedAt e"
  shows "length (rec_value r) = 40" "bytesToHex (take 32 (rec_value r)) = dPubkey r"
    "sint (Uint64 (drop 32 (rec_value r))) = Unix (dCreatedAt r)"
proof -
  note h = lowercase_hex_bytes[OF good_eventsD(2)[OF assms(1,2)]]
  show "length (rec_value r) = 40" "bytesToHex (take 32 (rec_value r)) = dPubkey r"
    using h assms(3) by (simp_all add: rec_value_def)
  show "sint (Uint64 (drop 32 (rec_value r))) = Unix (dCreatedAt r)"
    using h assms(3,4) good_eventsD(3)[OF assms(1,2)] by (simp add: rec_value_def sint_word_of_int64)
qed

lemma getDeletionRecord_Inr:
  assumes kv: "kv_laws P contents view" and g: "good_events C U A"
    and m: "contents db (makeDeletionKey p i) = map_option rec_value (M k)"
    and rec: "\<forall>r \<in> ran M. \<exists>e \<in> U. dPubkey r = Pubkey e \<and> dCreatedAt r = CreatedAt e"
    and get: "getDeletionRecord P db p i = Inr res"
  shows "res = map_option (\<lambda>r. \<lparr>recPubkey = dPubkey r, recCreatedAt = Unix (dCreatedAt r)\<rparr>) (M k)"
proof (cases "kvGet P db (makeDeletionKey p i)")
  case (Got v)
  then have "map_option rec_value (M k) = Some v" using kvGet_law(1)[OF kv] m by metis
  then obtain r where r: "M k = Some r" "v = rec_value r" by auto
  with rec obtain e where "e \<in> U" "dPubkey r = Pubkey e" "dCreatedAt r = CreatedAt e" by (auto simp: ran_def)
  from rec_value_parse[OF g this] get Got r show ?thesis by (auto simp: getDeletionRecord_def)
next
  case ErrNotFound
  then have "map_option rec_value (M k) = None" using kvGet_law(2)[OF kv] m by metis
  then have "M k = None" by simp
  with ErrNotFound get show ?thesis by (simp add: getDeletionRecord_def)
qed (use get in \<open>simp add: getDeletionRecord_def\<close>)

section \<open>Deletion requests\<close>

lemma addr_ok_subset:
  assumes "addr_ok C U A m E" "E' \<subseteq> E" "\<And>a. m' (addr_key C a) = m (addr_key C a)"
  shows "addr_ok C U A m' E'"
  using assms unfolding addr_ok_def by auto

lemma addr_ok_at:
  "addr_ok C U A m E \<Longrightarrow> e \<in> E \<Longrightarrow> Address_of e \<noteq> '''' \<Longrightarrow> m (addr_key C (Address_of e)) = Some (idb e)"
  by (simp add: addr_ok_def)

lemma recs_ok_cong:
  assumes "recs_ok C U A m s" "deletedIDs s' = deletedIDs s" "deletedAddrs s' = deletedAddrs s"
    and "\<And>i. m' (makeDeletionKey prefixDeletedID i) = m (makeDeletionKey prefixDeletedID i)"
    and "\<And>i. m' (makeDeletionKey prefixDeletedAddr i) = m (makeDeletionKey prefixDeletedAddr i)"
  shows "recs_ok C U A m' s'"
  using assms unfolding recs_ok_def by simp

abbreviation rec_of :: "Event \<Rightarrow> deletionRecord" where
  "rec_of e \<equiv> \<lparr>dPubkey = Pubkey e, dCreatedAt = CreatedAt e\<rparr>"

lemma recs_ok_id:
  assumes g: "good_events C U A" and "recs_ok C U A m s" "e \<in> U"
    and i: "isValidLowercaseHex i 64"
  shows "recs_ok C U A (m(makeDeletionKey prefixDeletedID (hex_bytes i) \<mapsto> rec_value (rec_of e))) (s\<lparr>deletedIDs := (deletedIDs s)(i \<mapsto> rec_of e)\<rparr>)"
proof -
  have "makeDeletionKey prefixDeletedID (hex_bytes j) = makeDeletionKey prefixDeletedID (hex_bytes i) \<longleftrightarrow> j = i"
    if "isValidLowercaseHex j 64" for j
    using that i hex_bytes_inject[of j i] by (simp add: makeDeletionKey_inject lowercase_hex_bytes)
  then show ?thesis using assms(2,3) i unfolding recs_ok_def by (auto simp: ran_def split: if_splits)
qed

lemma recs_ok_addr:
  assumes g: "good_events C U A" and "recs_ok C U A m s" "e \<in> U"
    and a: "a \<in> A"
  shows "recs_ok C U A (m(makeDeletionKey prefixDeletedAddr (hashAddress C a) \<mapsto> rec_value (rec_of e)))
    (s\<lparr>deletedAddrs := (deletedAddrs s)(a \<mapsto> rec_of e)\<rparr>)"
proof -
  have "makeDeletionKey prefixDeletedAddr (hashAddress C b) = makeDeletionKey prefixDeletedAddr (hashAddress C a) \<longleftrightarrow> b = a"
    if "b \<in> A" for b
    using that a g by (auto simp: makeDeletionKey_inject good_events_def dest: inj_onD)
  then show ?thesis using assms(2,3) a unfolding recs_ok_def by (auto simp: ran_def split: if_splits)
qed

lemma sim_cong:
  assumes "sim C U A m s" "set (events s') = set (events s)" "deletedIDs s' = deletedIDs s" "deletedAddrs s' = deletedAddrs s"
  shows "sim C U A m s'"
  using assms recs_ok_cong[OF _ assms(3,4), of C U A m m] unfolding sim_def by simp

lemma sim_record_id:
  assumes g: "good_events C U A" and S: "sim C U A m s" and e: "e \<in> U" "isValidLowercaseHex i 64"
  shows "sim C U A (m(makeDeletionKey prefixDeletedID (hex_bytes i) \<mapsto> rec_value (rec_of e))) (s\<lparr>deletedIDs := (deletedIDs s)(i \<mapsto> rec_of e)\<rparr>)"
proof -
  let ?m = "m(makeDeletionKey prefixDeletedID (hex_bytes i) \<mapsto> rec_value (rec_of e))"
  have "represents U ?m (set (events s))" using S by (intro represents_other) (simp_all add: sim_def)
  moreover have "addr_ok C U A ?m (set (events s))"
    by (rule addr_ok_subset[of C U A m "set (events s)"]) (use S in \<open>simp_all add: sim_def\<close>)
  moreover have "recs_ok C U A ?m (s\<lparr>deletedIDs := (deletedIDs s)(i \<mapsto> rec_of e)\<rparr>)"
    using S by (intro recs_ok_id[OF g _ e]) (simp add: sim_def)
  ultimately show ?thesis by (simp add: sim_def)
qed

lemma sim_record_addr:
  assumes g: "good_events C U A" and S: "sim C U A m s" and e: "e \<in> U" "a \<in> A"
  shows "sim C U A (m(makeDeletionKey prefixDeletedAddr (hashAddress C a) \<mapsto> rec_value (rec_of e))) (s\<lparr>deletedAddrs := (deletedAddrs s)(a \<mapsto> rec_of e)\<rparr>)"
proof -
  let ?m = "m(makeDeletionKey prefixDeletedAddr (hashAddress C a) \<mapsto> rec_value (rec_of e))"
  have "represents U ?m (set (events s))" using S by (intro represents_other) (simp_all add: sim_def)
  moreover have "addr_ok C U A ?m (set (events s))"
    by (rule addr_ok_subset[of C U A m "set (events s)"]) (use S in \<open>simp_all add: sim_def\<close>)
  moreover have "recs_ok C U A ?m (s\<lparr>deletedAddrs := (deletedAddrs s)(a \<mapsto> rec_of e)\<rparr>)"
    using S by (intro recs_ok_addr[OF g _ e]) (simp add: sim_def)
  ultimately show ?thesis by (simp add: sim_def)
qed

lemma sim_delete:
  assumes g: "good_events C U A" and S: "sim C U A m s" and t: "t \<in> U"
    and s': "set (events s') = set (events s) - {t}" "deletedIDs s' = deletedIDs s" "deletedAddrs s' = deletedAddrs s"
  shows "sim C U A (apply_batch (delete_ops t) m) s'"
proof -
  note other = delete_ops_other[OF idb_props(1)[OF g t], of _ m]
  have "represents U (apply_batch (delete_ops t) m) (set (events s'))"
    using represents_delete[OF g _ t, of m "set (events s)"] S s' by (simp add: sim_def)
  moreover have "addr_ok C U A (apply_batch (delete_ops t) m) (set (events s'))"
    by (rule addr_ok_subset[of C U A m "set (events s)"]) (use S s' other in \<open>auto simp: sim_def\<close>)
  moreover have "recs_ok C U A (apply_batch (delete_ops t) m) s'"
    by (rule recs_ok_cong[of C U A m s]) (use S s' other in \<open>auto simp: sim_def\<close>)
  ultimately show ?thesis by (simp add: sim_def)
qed

text \<open>
  One tag: the batch so far and the in-memory state so far stay related; lookups go to the
  database before the batch.
\<close>

lemma kind5_etag_sim:
  assumes kv: "kv_laws P contents view" and g: "good_events C U A"
    and m0: "represents U (contents db) E" and S: "sim C U A (apply_batch b (contents db)) s" "set (events s) \<subseteq> E"
    and ev: "event \<in> U" and i: "isValidLowercaseHex i 64"
    and step: "kind5_etag P db event (rec_value (rec_of event)) b (hex_bytes i) = Inr b'"
  shows "sim C U A (apply_batch b' (contents db)) (process_tag event [''e'', i] s)"
    and "set (events (process_tag event [''e'', i] s)) \<subseteq> E"
proof -
  let ?r = "rec_of event"
  let ?key = "makeDeletionKey prefixDeletedID (hex_bytes i)"
  let ?m1 = "(apply_batch b (contents db))(?key \<mapsto> rec_value ?r)"
  let ?s1 = "s\<lparr>deletedIDs := (deletedIDs s)(i \<mapsto> ?r)\<rparr>"
  let ?gone = "{e \<in> E. ID e = i \<and> Pubkey e = Pubkey event \<and> Kind e \<noteq> 5}"
  have i32: "length (hex_bytes i) = 32" using lowercase_hex_bytes(2)[OF i] .
  have E: "E \<subseteq> U" using m0 by (simp add: represents_def)
  have evs: "set (events (process_tag event [''e'', i] s)) = set (events s) - ?gone"
    using S(2) by (auto simp: process_tag_def Let_def)
  then show "set (events (process_tag event [''e'', i] s)) \<subseteq> E" using S(2) by auto
  have S1: "sim C U A ?m1 ?s1"
    using sim_record_id[OF g S(1) ev i] .
  from step obtain res where st: "getEventByID P db (hex_bytes i) = Inr res"
    "(case res of None \<Rightarrow> Inr (b @ [BSet ?key (rec_value ?r)])
      | Some targetEvent \<Rightarrow> if Pubkey targetEvent = Pubkey event \<and> Kind targetEvent \<noteq> 5
          then deleteEventFromBatch P db (b @ [BSet ?key (rec_value ?r)]) (hex_bytes i)
          else Inr (b @ [BSet ?key (rec_value ?r)])) = Inr b'"
    unfolding kind5_etag_def and_then_Inr by (auto dest!: stage_Inr)
  have idi: "idb e = hex_bytes i \<longleftrightarrow> ID e = i" if "e \<in> E" for e
    using that E good_eventsD(1)[OF g, of e] i by (auto simp: idb_def hex_bytes_inject)
  have del: "deletedIDs (process_tag event [''e'', i] s) = deletedIDs ?s1"
      "deletedAddrs (process_tag event [''e'', i] s) = deletedAddrs ?s1"
    by (simp_all add: process_tag_def Let_def)
  show "sim C U A (apply_batch b' (contents db)) (process_tag event [''e'', i] s)"
  proof (cases "b' = b @ [BSet ?key (rec_value ?r)]")
    case True
    have "?gone = {}"
    proof (rule ccontr)
      assume "?gone \<noteq> {}"
      then obtain e where e: "e \<in> E" "ID e = i" "Pubkey e = Pubkey event" "Kind e \<noteq> 5" by blast
      then have "idb e = hex_bytes i" using idi by blast
      with getEventByID_Inr[OF kv g m0 i32 st(1)] e(1) obtain e' where "res = Some e'" "e' \<in> E" "idb e' = idb e"
        by (cases res) auto
      with idb_inject[OF g] E e(1) have "res = Some e" by blast
      with st(2) e have "deleteEventFromBatch P db (b @ [BSet ?key (rec_value ?r)]) (hex_bytes i) = Inr b'" by simp
      from deleteEventFromBatch_Inr[OF kv g m0 i32 this] e idi True show False by (auto simp: delete_ops_def)
    qed
    with evs have "set (events (process_tag event [''e'', i] s)) = set (events s)" by simp
    with sim_cong[OF S1] del True show ?thesis by simp
  next
    case False
    with st(2) obtain t where t: "res = Some t" "Pubkey t = Pubkey event" "Kind t \<noteq> 5"
      "deleteEventFromBatch P db (b @ [BSet ?key (rec_value ?r)]) (hex_bytes i) = Inr b'"
      by (auto split: option.splits if_splits)
    from getEventByID_Inr[OF kv g m0 i32 st(1)] t(1) have tE: "t \<in> E" "idb t = hex_bytes i" by simp_all
    from deleteEventFromBatch_Inr[OF kv g m0 i32 t(4)] tE obtain e where "e \<in> E" "idb e = idb t"
      "b' = b @ [BSet ?key (rec_value ?r)] @ delete_ops e" by auto
    with idb_inject[OF g, of e t] E tE have b': "b' = b @ [BSet ?key (rec_value ?r)] @ delete_ops t" by auto
    have tU: "t \<in> U" using E tE by blast
    have "x = t" if "x \<in> E" "ID x = i" for x
    proof -
      have "idb x = idb t" using that tE(2) idi by metis
      with idb_inject[OF g, of x t] that tE(1) E show ?thesis by blast
    qed
    moreover have "ID t = i" using idi tE by blast
    ultimately have "?gone = {t}" using t(2,3) tE(1) by blast
    with evs have evs': "set (events (process_tag event [''e'', i] s)) = set (events s) - {t}" by simp
    have m': "apply_batch b' (contents db) = apply_batch (delete_ops t) ?m1" by (simp add: b')
    show ?thesis unfolding m' by (rule sim_delete[OF g S1 tU]) (use evs' del in simp_all)
  qed
qed

lemma addr_key_bound:
  assumes g: "good_events C U A" and m: "represents U m E" and a: "addr_ok C U A m E" and aA: "addr \<in> A"
    and i: "m (addr_key C addr) = Some i" and e: "e \<in> E" "idb e = i"
  shows "Address_of e = addr" "\<And>e'. e' \<in> E \<Longrightarrow> Address_of e' = addr \<Longrightarrow> e' = e"
proof -
  have E: "E \<subseteq> U" using m by (simp add: represents_def)
  from a i aA obtain u where u: "u \<in> U" "Address_of u = addr" "idb u = i" unfolding addr_ok_def by blast
  with idb_inject[OF g, of u e] E e have "u = e" by auto
  with u show "Address_of e = addr" by simp
  fix e' assume e': "e' \<in> E" "Address_of e' = addr"
  have "addr \<noteq> ''''" using g aA by (auto simp: good_events_def)
  then have "m (addr_key C addr) = Some (idb e')" using a e' by (auto simp: addr_ok_def)
  with i e(2) have "idb e' = idb e" by simp
  with idb_inject[OF g, of e' e] E e(1) e'(1) show "e' = e" by blast
qed

lemma sim_drop_addr:
  assumes g: "good_events C U A" and S: "sim C U A m s" and a: "addr \<in> A"
    and free: "\<And>e. e \<in> set (events s) \<Longrightarrow> Address_of e \<noteq> addr"
  shows "sim C U A (m(addr_key C addr := None)) s"
proof -
  let ?m = "m(addr_key C addr := None)"
  have "represents U ?m (set (events s))" using S by (intro represents_other) (simp_all add: sim_def)
  moreover have "recs_ok C U A ?m s" by (rule recs_ok_cong[of C U A m s]) (use S in \<open>simp_all add: sim_def\<close>)
  moreover have "addr_ok C U A ?m (set (events s))"
  proof -
    have "?m (addr_key C (Address_of e)) = Some (idb e)" if e: "e \<in> set (events s)" "Address_of e \<noteq> ''''" for e
    proof -
      have "e \<in> U" using S e by (auto simp: sim_def represents_def)
      then have "Address_of e \<in> A" using good_eventsD(6)[OF g] e by blast
      then have "addr_key C (Address_of e) \<noteq> addr_key C addr" using addr_key_inject[OF g] a free[OF e(1)] by blast
      with S e show ?thesis by (simp add: sim_def addr_ok_def)
    qed
    moreover have "?m (addr_key C b) = Some i \<Longrightarrow> m (addr_key C b) = Some i" for b i by (auto split: if_splits)
    ultimately show ?thesis using S unfolding sim_def addr_ok_def by blast
  qed
  ultimately show ?thesis by (simp add: sim_def)
qed

lemma kind5_atag_sim:
  assumes kv: "kv_laws P contents view" and g: "good_events C U A"
    and m0: "represents U (contents db) E" "addr_ok C U A (contents db) E"
    and S: "sim C U A (apply_batch b (contents db)) s" "set (events s) \<subseteq> E"
    and ev: "event \<in> U" and a: "addr \<in> A"
    and step: "kind5_atag P C db event (rec_value (rec_of event)) b addr = Inr b'"
  shows "sim C U A (apply_batch b' (contents db)) (process_tag event [''a'', addr] s)"
    and "set (events (process_tag event [''a'', addr] s)) \<subseteq> E"
proof -
  let ?b1 = "b @ [BSet (makeDeletionKey prefixDeletedAddr (hashAddress C addr)) (rec_value (rec_of event))]"
  let ?m1 = "(apply_batch b (contents db))(makeDeletionKey prefixDeletedAddr (hashAddress C addr) \<mapsto> rec_value (rec_of event))"
  let ?s1 = "s\<lparr>deletedAddrs := (deletedAddrs s)(addr \<mapsto> rec_of event)\<rparr>"
  let ?s' = "process_tag event [''a'', addr] s"
  let ?gone = "{e \<in> E. Address_of e = addr \<and> Pubkey e = Pubkey event \<and> \<not> CreatedAt e > CreatedAt event}"
  have E: "E \<subseteq> U" using m0 by (simp add: represents_def)
  have ne: "addr \<noteq> ''''" using g a by (auto simp: good_events_def)
  have evs: "set (events ?s') = set (events s) - ?gone" using S(2) by (auto simp: process_tag_def Let_def)
  then show "set (events ?s') \<subseteq> E" using S(2) by auto
  have S1: "sim C U A ?m1 ?s1" using sim_record_addr[OF g S(1) ev a] .
  have del: "deletedIDs ?s' = deletedIDs ?s1" "deletedAddrs ?s' = deletedAddrs ?s1"
    by (simp_all add: process_tag_def Let_def)
  have keep: "sim C U A (apply_batch ?b1 (contents db)) ?s'" if "?gone = {}"
    using sim_cong[OF S1, of ?s'] evs del that by simp
  have target: "e = t" if "contents db (addr_key C addr) = Some (idb t)" "t \<in> E" "e \<in> ?gone" for e t
    using addr_key_bound(2)[OF g m0 a that(1,2) refl, of e] that(3) by blast
  have miss: "?gone = {}" if "contents db (addr_key C addr) = None"
  proof -
    have "e \<notin> ?gone" for e using addr_ok_at[OF m0(2), of e] ne that by auto
    then show ?thesis by blast
  qed
  have stale: "?gone = {}" if "contents db (addr_key C addr) = Some i" "\<forall>e \<in> E. idb e \<noteq> i" for i
  proof -
    have "e \<notin> ?gone" for e using addr_ok_at[OF m0(2), of e] ne that by auto
    then show ?thesis by blast
  qed
  from step have st: "(case kvGet P db (addr_key C addr) of ErrNotFound \<Rightarrow> Inr ?b1 | GetError e \<Rightarrow> Inl e
     | Got existingID \<Rightarrow> and_then (getEventByID P db existingID) (\<lambda>target. case target of
              None \<Rightarrow> Inr ?b1
            | Some targetEvent \<Rightarrow>
                if Pubkey targetEvent = Pubkey event \<and> \<not> CreatedAt targetEvent > CreatedAt event then
                  and_then (deleteEventFromBatch P db ?b1 existingID) (\<lambda>b'. stage P b' (BDelete (addr_key C addr)))
                else Inr ?b1)) = Inr b'"
    unfolding kind5_atag_def Let_def and_then_Inr addr_key_def by (auto dest!: stage_Inr)
  show "sim C U A (apply_batch b' (contents db)) ?s'"
  proof (cases "kvGet P db (addr_key C addr)")
    case ErrNotFound
    with st miss kvGet_law(2)[OF kv] keep show ?thesis by auto
  next
    case (Got i)
    then have mi: "contents db (addr_key C addr) = Some i" using kvGet_law(1)[OF kv] by blast
    then obtain u where u: "u \<in> U" "idb u = i" using m0(2) a unfolding addr_ok_def by blast
    then have i32: "length i = 32" using idb_props(1)[OF g] by blast
    from st Got obtain res where res: "getEventByID P db i = Inr res"
      and st': "(case res of None \<Rightarrow> Inr ?b1
            | Some targetEvent \<Rightarrow>
                if Pubkey targetEvent = Pubkey event \<and> \<not> CreatedAt targetEvent > CreatedAt event then
                  and_then (deleteEventFromBatch P db ?b1 i) (\<lambda>b'. stage P b' (BDelete (addr_key C addr)))
                else Inr ?b1) = Inr b'" by (auto simp: and_then_Inr)
    note found = getEventByID_Inr[OF kv g m0(1) i32 res]
    show ?thesis
    proof (cases res)
      case None
      with found have "\<forall>e \<in> E. idb e \<noteq> i" by simp
      from keep[OF stale[OF mi this]] st' None show ?thesis by auto
    next
      case (Some t)
      with found have t: "t \<in> E" "idb t = i" by simp_all
      note at = addr_key_bound(1)[OF g m0 a mi t]
      show ?thesis
      proof (cases "Pubkey t = Pubkey event \<and> \<not> CreatedAt t > CreatedAt event")
        case False
        then have "?gone = {}" using target[of t] mi t by auto
        from keep[OF this] st' Some False show ?thesis by auto
      next
        case True
        with st' Some obtain b2 where b2: "deleteEventFromBatch P db ?b1 i = Inr b2" "stage P b2 (BDelete (addr_key C addr)) = Inr b'"
          by (auto simp: and_then_Inr)
        from deleteEventFromBatch_Inr[OF kv g m0(1) i32 b2(1)] t obtain e where "e \<in> E" "idb e = idb t" "b2 = ?b1 @ delete_ops e" by auto
        with idb_inject[OF g, of e t] E t have "b2 = ?b1 @ delete_ops t" by auto
        then have m': "apply_batch b' (contents db) = (apply_batch (delete_ops t) ?m1)(addr_key C addr := None)"
          using stage_Inr[OF b2(2)] by simp
        have gone: "?gone = {t}"
        proof
          show "?gone \<subseteq> {t}" using target[of t] mi t by auto
        qed (use t True at in auto)
        have S2: "sim C U A (apply_batch (delete_ops t) ?m1) ?s'"
          by (rule sim_delete[OF g S1]) (use evs gone del t E in auto)
        show ?thesis unfolding m'
        proof (rule sim_drop_addr[OF g S2 a])
          fix e assume "e \<in> set (events ?s')"
          then have "e \<in> E" "e \<noteq> t" using evs gone S(2) by auto
          then show "Address_of e \<noteq> addr" using addr_key_bound(2)[OF g m0 a mi t] by blast
        qed
      qed
    qed
  qed (use st in simp)
qed

lemma process_tag_two: "length tag \<ge> 2 \<Longrightarrow> process_tag event tag s = process_tag event [tag ! 0, tag ! 1] s"
  by (simp add: process_tag_def Let_def)

lemma process_tag_other:
  "length tag < 2 \<or> (tag ! 0 \<noteq> ''e'' \<and> tag ! 0 \<noteq> ''a'') \<Longrightarrow> process_tag event tag s = s"
  by (auto simp: process_tag_def Let_def)

text \<open>An \<^verbatim>\<open>e\<close> tag that is no identifier is recorded in memory only, where nothing can look it up.\<close>

lemma process_etag_short:
  assumes S: "sim C U A m s" and g: "good_events C U A" and e: "event \<in> U" and i: "length i \<noteq> 64"
  shows "sim C U A m (process_tag event [''e'', i] s)" "set (events (process_tag event [''e'', i] s)) = set (events s)"
proof -
  have "ID e \<noteq> i" if "e \<in> set (events s)" for e
    using that S good_eventsD(1)[OF g, of e] i by (auto simp: sim_def represents_def isValidLowercaseHex_def)
  then show evs: "set (events (process_tag event [''e'', i] s)) = set (events s)"
    by (auto simp: process_tag_def Let_def)
  have "\<not> isValidLowercaseHex i 64" using i by (simp add: isValidLowercaseHex_def)
  then have "recs_ok C U A m (process_tag event [''e'', i] s)"
    using S e unfolding sim_def recs_ok_def by (auto simp: process_tag_def Let_def ran_def split: if_splits)
  with S evs show "sim C U A m (process_tag event [''e'', i] s)" by (simp add: sim_def)
qed

lemma kind5_tags_sim:
  assumes kv: "kv_laws P contents view" and g: "good_events C U A"
    and m0: "represents U (contents db) E" "addr_ok C U A (contents db) E"
    and S: "sim C U A (apply_batch b (contents db)) s" "set (events s) \<subseteq> E"
    and ev: "event \<in> U"
    and tags: "\<And>tag. tag \<in> set ts \<Longrightarrow> length tag \<ge> 2 \<Longrightarrow>
      (tag ! 0 = ''e'' \<longrightarrow> length (tag ! 1) = 64 \<longrightarrow> isValidLowercaseHex (tag ! 1) 64) \<and> (tag ! 0 = ''a'' \<longrightarrow> tag ! 1 \<in> A)"
    and step: "kind5_tags P C db event (rec_value (rec_of event)) b ts = Some (Inr b')"
  shows "sim C U A (apply_batch b' (contents db)) (process_tags event ts s)"
  using S tags step
proof (induction ts arbitrary: b s)
  case (Cons tag ts)
  from Cons.prems(4) obtain b1 where b1: "kind5_tag P C db event (rec_value (rec_of event)) b tag = Some (Inr b1)"
    "kind5_tags P C db event (rec_value (rec_of event)) b1 ts = Some (Inr b')"
    by (auto split: option.splits sum.splits)
  have "sim C U A (apply_batch b1 (contents db)) (process_tag event tag s) \<and> set (events (process_tag event tag s)) \<subseteq> E"
  proof (cases "length tag < 2 \<or> (tag ! 0 \<noteq> ''e'' \<and> tag ! 0 \<noteq> ''a'')")
    case True
    then have "b1 = b" using b1(1) by (auto simp: kind5_tag_def split: if_splits)
    with Cons.prems(1,2) show ?thesis by (simp add: process_tag_other[OF True])
  next
    case False
    then have l: "length tag \<ge> 2" and ea: "tag ! 0 = ''e'' \<or> tag ! 0 = ''a''" by auto
    note pt = process_tag_two[OF l, of event s]
    show ?thesis
    proof (cases "tag ! 0 = ''e''")
      case e: True
      show ?thesis
      proof (cases "length (tag ! 1) = 64")
        case True
        then have i: "isValidLowercaseHex (tag ! 1) 64" using Cons.prems(3)[of tag] l e by simp
        have "kind5_etag P db event (rec_value (rec_of event)) b (hex_bytes (tag ! 1)) = Inr b1"
          using b1(1) l e True lowercase_hex_bytes(1)[OF i] by (simp add: kind5_tag_def)
        from kind5_etag_sim[OF kv g m0(1) Cons.prems(1,2) ev i this] show ?thesis unfolding pt e by blast
      next
        case False
        then have "b1 = b" using b1(1) l e by (simp add: kind5_tag_def)
        with process_etag_short[OF Cons.prems(1) g ev False] Cons.prems(2) show ?thesis unfolding pt e by simp
      qed
    next
      case False
      with ea have a: "tag ! 0 = ''a''" by simp
      have "kind5_atag P C db event (rec_value (rec_of event)) b (tag ! 1) = Inr b1"
        using b1(1) l a by (simp add: kind5_tag_def)
      moreover have "tag ! 1 \<in> A" using Cons.prems(3)[of tag] l a by simp
      ultimately show ?thesis
        using kind5_atag_sim[OF kv g m0 Cons.prems(1,2) ev, of "tag ! 1" b1] unfolding pt a by blast
    qed
  qed
  with Cons.IH[of b1 "process_tag event tag s"] Cons.prems(3) b1(2) show ?case by simp
qed simp

lemma kind5_tags_total: "kind5_tags P C db event val b ts \<noteq> None"
proof (induction ts arbitrary: b)
  case (Cons tag ts)
  have "kind5_tag P C db event val b tag \<noteq> None"
    by (auto simp: kind5_tag_def hexToBytes32_def)
  with Cons show ?case by (auto split: option.splits sum.splits)
qed simp

lemma kv_commit:
  assumes "kv_laws P contents view" "kvCommit P db b = (db', r)"
  shows "contents db' = apply_batch b (contents db) \<or> r \<noteq> None \<and> contents db' = contents db"
proof -
  have "contents (fst (kvCommit P db b)) = apply_batch b (contents db) \<or>
        snd (kvCommit P db b) \<noteq> None \<and> contents (fst (kvCommit P db b)) = contents db"
    using assms(1) unfolding kv_laws_def by blast
  with assms(2) show ?thesis by simp
qed

lemma processKind5_sim:
  assumes kv: "kv_laws P contents view" and g: "good_events C U A" and S: "sim C U A (contents db) s"
    and ev: "event \<in> U" "Kind event = 5" and step: "Pebble_processKind5 P C db event = Some (db', r)"
  shows "sim C U A (contents db') (processKind5 s event) \<or> r \<noteq> None \<and> sim C U A (contents db') s"
proof -
  note h = lowercase_hex_bytes[OF good_eventsD(2)[OF g ev(1)]]
  have val: "kind5_value event (hex_bytes (Pubkey event)) = rec_value (rec_of event)"
    using h by (simp add: kind5_value_def rec_value_def)
  obtain t where t: "kind5_tags P C db event (rec_value (rec_of event)) [] (tags_of event) = Some t"
    using kind5_tags_total[of P C db event "rec_value (rec_of event)" "[]" "tags_of event"] by auto
  show ?thesis
  proof (cases t)
    case (Inl e)
    with step t h val S show ?thesis by (auto simp: Pebble_processKind5_def)
  next
    case (Inr batch)
    with step t h val have c: "kvCommit P db batch = (db', r)" by (simp add: Pebble_processKind5_def)
    have "good_event A event" using g ev(1) by (simp add: good_events_def)
    then have "sim C U A (apply_batch batch (contents db)) (processKind5 s event)"
      unfolding processKind5_def
      by (intro kind5_tags_sim[OF kv g _ _ _ order_refl ev(1) _ t[unfolded Inr]])
        (use S ev(2) in \<open>auto simp: sim_def good_event_def\<close>)
    with kv_commit[OF kv c] S show ?thesis by auto
  qed
qed

lemma process_tags_own:
  assumes "\<And>tag. tag \<in> set ts \<Longrightarrow> length tag \<ge> 2 \<Longrightarrow> tag ! 0 = ''e'' \<Longrightarrow> tag ! 1 \<noteq> i"
  shows "deletedIDs (process_tags event ts s) i = deletedIDs s i"
  using assms
proof (induction ts arbitrary: s)
  case (Cons tag ts)
  have "deletedIDs (process_tag event tag s) i = deletedIDs s i"
    using Cons.prems[of tag] by (auto simp: process_tag_def Let_def)
  with Cons show ?case by simp
qed simp

section \<open>Writing the event\<close>

lemma write_batch_Inr:
  assumes w: "write_batch P C db e (idb e) (projr (marshalEvent e)) old = Inr batch"
  shows "\<exists>pre. (case old of None \<Rightarrow> Inr [] | Some i \<Rightarrow> deleteEventFromBatch P db [] i) = Inr pre \<and>
    batch = pre @ insert_ops e @ (if has_address e then [BSet (addr_key C (Address_of e)) (idb e)] else [])"
  using w unfolding write_batch_def and_then_Inr by (auto simp: insert_ops_def addr_key_def dest!: stage_all_Inr simp del: stage_all.simps)

lemma sim_insert:
  assumes g: "good_events C U A" and S: "sim C U A m s" and e: "e \<in> U" "marshalEvent e = Inr j"
    and fresh: "\<And>e'. e' \<in> set (events s) \<Longrightarrow> e' \<noteq> e" "\<And>e'. e' \<in> set (events s) \<Longrightarrow> has_address e \<Longrightarrow> Address_of e' \<noteq> Address_of e"
    and s': "set (events s') = insert e (set (events s))" "deletedIDs s' = deletedIDs s" "deletedAddrs s' = deletedAddrs s"
  shows "sim C U A (apply_batch (insert_ops e @ (if has_address e then [BSet (addr_key C (Address_of e)) (idb e)] else [])) m) s'"
proof -
  let ?E = "set (events s)"
  let ?m1 = "apply_batch (insert_ops e) m"
  let ?m = "if has_address e then ?m1(addr_key C (Address_of e) \<mapsto> idb e) else ?m1"
  have E: "?E \<subseteq> U" using S by (simp add: sim_def represents_def)
  have l: "length (idb e) = 32" using idb_props(1)[OF g e(1)] .
  note other = insert_ops_other[OF l, of _ m]
  have "represents U ?m1 (insert e ?E)"
    using S E fresh(1) idb_inject[OF g _ e(1)] by (intro represents_insert[OF g _ e]) (auto simp: sim_def)
  then have r: "represents U ?m (insert e ?E)" by (simp add: represents_other)
  have "recs_ok C U A ?m s'"
    by (rule recs_ok_cong[of C U A m s]) (use S s' other in \<open>auto simp: sim_def\<close>)
  moreover have "addr_ok C U A ?m (insert e ?E)"
  proof (unfold addr_ok_def, intro conjI ballI impI allI)
    fix x assume x: "x \<in> insert e ?E" "Address_of x \<noteq> ''''"
    show "?m (addr_key C (Address_of x)) = Some (idb x)"
    proof (cases "x = e")
      case True
      with x show ?thesis by (simp add: Address_of_nonempty)
    next
      case False
      with x have xE: "x \<in> ?E" by simp
      have "addr_key C (Address_of x) \<noteq> addr_key C (Address_of e)" if "has_address e"
        using addr_key_inject[OF g, of "Address_of x" "Address_of e"] fresh(2)[OF xE that] xE E x(2)
          good_eventsD(6)[OF g, of x] good_eventsD(6)[OF g e(1)] that by (auto simp: Address_of_nonempty)
      with S xE x(2) other show ?thesis by (auto simp: sim_def addr_ok_def)
    qed
  next
    fix a i assume a: "a \<in> A" "?m (addr_key C a) = Some i"
    show "\<exists>u \<in> U. Address_of u = a \<and> idb u = i"
    proof (cases "has_address e \<and> addr_key C a = addr_key C (Address_of e)")
      case True
      then have "a = Address_of e"
        using addr_key_inject[OF g a(1), of "Address_of e"] good_eventsD(6)[OF g e(1)] by (auto simp: Address_of_nonempty)
      with True a(2) e(1) show ?thesis by auto
    next
      case False
      then have "m (addr_key C a) = Some i" using a(2) other by (auto split: if_splits)
      with S a(1) show ?thesis by (auto simp: sim_def addr_ok_def)
    qed
  qed
  moreover have "apply_batch (insert_ops e @ (if has_address e then [BSet (addr_key C (Address_of e)) (idb e)] else [])) m = ?m"
    by simp
  ultimately show ?thesis using r s'(1) by (simp only: sim_def)
qed

lemma check_replaceable_Inr:
  assumes kv: "kv_laws P contents view" and g: "good_events C U A" and S: "sim C U A (contents db) s" and e: "e \<in> U"
    and c: "check_replaceable P C db e = Inr r"
  shows "case r of Reject \<Rightarrow> has_address e \<and> (\<exists>x \<in> set (events s). Address_of x = Address_of e \<and> event_key x \<le> event_key e)
    | Proceed None \<Rightarrow> \<forall>x \<in> set (events s). has_address e \<longrightarrow> Address_of x \<noteq> Address_of e
    | Proceed (Some i) \<Rightarrow> has_address e \<and> (\<exists>x \<in> set (events s). idb x = i \<and> Address_of x = Address_of e \<and> event_key e < event_key x \<and>
        (\<forall>y \<in> set (events s). Address_of y = Address_of e \<longrightarrow> y = x))"
proof (cases "has_address e")
  case False
  with c show ?thesis by (auto simp: check_replaceable_def)
next
  case True
  let ?E = "set (events s)"
  have r: "represents U (contents db) ?E" and a: "addr_ok C U A (contents db) ?E" using S by (simp_all add: sim_def)
  have ne: "Address_of e \<noteq> ''''" using True by (simp add: Address_of_nonempty)
  then have A: "Address_of e \<in> A" using good_eventsD(6)[OF g e] by blast
  have free: "\<forall>x \<in> ?E. Address_of x \<noteq> Address_of e"
    if "contents db (addr_key C (Address_of e)) = None \<or> (\<exists>i. contents db (addr_key C (Address_of e)) = Some i \<and> (\<forall>x \<in> ?E. idb x \<noteq> i))"
    using addr_ok_at[OF a] ne that by fastforce
  show ?thesis
  proof (cases "kvGet P db (addr_key C (Address_of e))")
    case ErrNotFound
    with True c have "r = Proceed None" by (simp add: check_replaceable_def addr_key_def)
    with free kvGet_law(2)[OF kv ErrNotFound] show ?thesis by simp
  next
    case (Got i)
    note mi = kvGet_law(1)[OF kv Got]
    then obtain u where "u \<in> U" "idb u = i" using a A unfolding addr_ok_def by blast
    then have i32: "length i = 32" using idb_props(1)[OF g] by blast
    from c True Got obtain res where res: "getEventByID P db i = Inr res" and
      r': "r = (case res of None \<Rightarrow> Proceed None
            | Some x \<Rightarrow> if CreatedAt e < CreatedAt x then Reject
                else if CreatedAt e = CreatedAt x \<and> ID e \<ge> ID x then Reject else Proceed (Some i))"
      unfolding check_replaceable_def addr_key_def by (auto simp: and_then_Inr)
    note get = getEventByID_Inr[OF kv g r i32 res]
    show ?thesis
    proof (cases res)
      case None
      with get have "\<forall>x \<in> ?E. idb x \<noteq> i" by simp
      with free mi have "\<forall>x \<in> ?E. Address_of x \<noteq> Address_of e" by blast
      with None r' show ?thesis by simp
    next
      case (Some x)
      with get have x: "x \<in> ?E" "idb x = i" by simp_all
      note at = addr_key_bound[OF g r a A mi x]
      show ?thesis
      proof (cases "event_key e < event_key x")
        case True
        have "r = Proceed (Some i)" using True r' Some by (auto simp: event_key_less)
        show ?thesis unfolding \<open>r = Proceed (Some i)\<close> replace_check.case option.case
          using True x at \<open>has_address e\<close> by blast
      next
        case False
        then have "r = Reject" using r' Some by (auto simp: event_key_less)
        moreover have "event_key x \<le> event_key e" using False by simp
        ultimately show ?thesis using x(1) at(1) \<open>has_address e\<close> by auto
      qed
    qed
  qed (use c True in \<open>simp add: check_replaceable_def addr_key_def\<close>)
qed

lemma store_tail_written:
  assumes kv: "kv_laws P contents view" and g: "good_events C U A" and S: "sim C U A (contents db) s"
    and ok: "storage_ok s" and e: "e \<in> U" "ID e \<notin> ID ` set (events s)" "eventType e \<noteq> EventTypeEphemeral" "marshalEvent e = Inr j"
    and c: "check_replaceable P C db e = Inr (Proceed old)" and w: "write_batch P C db e (idb e) j old = Inr batch"
  shows "snd (store_tail s e)" "sim C U A (apply_batch batch (contents db)) (fst (store_tail s e))"
proof -
  let ?E = "set (events s)"
  have fresh: "x \<noteq> e" if "x \<in> ?E" for x using e(2) that by auto
  have r: "represents U (contents db) ?E" using S by (simp add: sim_def)
  note chk = check_replaceable_Inr[OF kv g S e(1) c]
  have "write_batch P C db e (idb e) (projr (marshalEvent e)) old = Inr batch" using w e(4) by simp
  from write_batch_Inr[OF this] obtain pre where
    pre: "(case old of None \<Rightarrow> Inr [] | Some i \<Rightarrow> deleteEventFromBatch P db [] i) = Inr pre"
    and batch: "batch = pre @ insert_ops e @ (if has_address e then [BSet (addr_key C (Address_of e)) (idb e)] else [])" by blast
  have "snd (store_tail s e) \<and> sim C U A (apply_batch batch (contents db)) (fst (store_tail s e))"
  proof (cases old)
    case None
    with chk have free: "\<forall>x \<in> ?E. has_address e \<longrightarrow> Address_of x \<noteq> Address_of e" by simp
    show ?thesis
    proof (cases rule: store_tail_cases[of s e])
      case rejected
      with e(3) free show ?thesis by (auto simp: Address_of_nonempty)
    next
      case (replaced xs x ys)
      with free show ?thesis by (auto simp: Address_of_nonempty)
    next
      case appended
      have "sim C U A (apply_batch batch (contents db)) (s\<lparr>events := events s @ [e]\<rparr>)"
        using sim_insert[OF g S e(1,4), of "s\<lparr>events := events s @ [e]\<rparr>"] fresh free pre None unfolding batch by simp
      with appended show ?thesis by simp
    qed
  next
    case (Some i)
    from chk[unfolded Some replace_check.case option.case] have addr: "has_address e" by blast
    from chk[unfolded Some replace_check.case option.case] obtain x where
      x: "x \<in> ?E" "idb x = i" "Address_of x = Address_of e" "event_key e < event_key x"
      and only: "\<And>y. y \<in> ?E \<Longrightarrow> Address_of y = Address_of e \<Longrightarrow> y = x" by blast
    have xU: "x \<in> U" using x(1) r by (auto simp: represents_def)
    have "deleteEventFromBatch P db [] i = Inr pre" using pre Some by simp
    from deleteEventFromBatch_Inr[OF kv g r _ this] idb_props(1)[OF g xU] x(1,2) obtain x' where
      "x' \<in> ?E" "idb x' = idb x" "pre = delete_ops x'" by auto
    moreover have "x' \<in> U" using calculation(1) r by (auto simp: represents_def)
    ultimately have pre': "pre = delete_ops x" using idb_inject[OF g, of x' x] xU by blast
    let ?s1 = "s\<lparr>events := filter (\<lambda>y. y \<noteq> x) (events s)\<rparr>"
    have S1: "sim C U A (apply_batch (delete_ops x) (contents db)) ?s1"
      by (rule sim_delete[OF g S xU]) auto
    have E1: "set (events ?s1) = ?E - {x}" by auto
    show ?thesis
    proof (cases rule: store_tail_cases[of s e])
      case rejected
      from rejected(2) e(3) obtain y where "y \<in> ?E" "Address_of y = Address_of e" "event_key y \<le> event_key e" by auto
      with only x(4) show ?thesis by (metis leD)
    next
      case appended
      moreover have "Address_of e \<noteq> []" using addr by (simp add: Address_of_nonempty)
      moreover from this have "Address_of e \<in> set (addrs (events s))"
        using x(1,3) unfolding set_addrs by (metis DiffI empty_iff imageI insertE)
      ultimately show ?thesis by blast
    next
      case (replaced xs y ys)
      have "y = x" using only[of y] replaced(1,2) by simp
      moreover have "distinct (events s)" using ok by (auto simp: storage_ok_def distinct_map)
      ultimately have ev: "set (xs @ e # ys) = insert e (set (events ?s1))" unfolding E1 using replaced(1) by auto
      have "sim C U A (apply_batch (insert_ops e @ (if has_address e then [BSet (addr_key C (Address_of e)) (idb e)] else []))
          (apply_batch (delete_ops x) (contents db))) (s\<lparr>events := xs @ e # ys\<rparr>)"
      proof (rule sim_insert[OF g S1 e(1,4)])
        fix z assume z: "z \<in> set (events ?s1)"
        then show "z \<noteq> e" using fresh by simp
        show "Address_of z \<noteq> Address_of e" using only[of z] z by auto
      qed (use ev in simp_all)
      then have "sim C U A (apply_batch batch (contents db)) (s\<lparr>events := xs @ e # ys\<rparr>)"
        unfolding batch pre' by simp
      with replaced(5) show ?thesis by simp
    qed
  qed
  then show "snd (store_tail s e)" "sim C U A (apply_batch batch (contents db)) (fst (store_tail s e))" by simp_all
qed

lemma store_write_sim:
  assumes kv: "kv_laws P contents view" and g: "good_events C U A" and S: "sim C U A (contents db) s"
    and ok: "storage_ok s" and e: "e \<in> U" "ID e \<notin> ID ` set (events s)" "eventType e \<noteq> EventTypeEphemeral"
    and step: "store_write P C db e (idb e) = (db', r)"
  shows "case r of Inr b \<Rightarrow> sim C U A (contents db') (fst (store_tail s e)) \<and> b = snd (store_tail s e)
    | Inl _ \<Rightarrow> sim C U A (contents db') s \<or> sim C U A (contents db') (fst (store_tail s e))"
proof (cases "check_replaceable P C db e")
  case (Inl err)
  with step S show ?thesis by (auto simp: store_write_def)
next
  case (Inr chk)
  show ?thesis
  proof (cases chk)
    case Reject
    with check_replaceable_Inr[OF kv g S e(1) Inr] obtain x where x: "x \<in> set (events s)" "Address_of x = Address_of e"
      "event_key x \<le> event_key e" and addr: "Address_of e \<noteq> ''''" by (auto simp: Address_of_nonempty)
    have "store_tail s e = (s, False)"
    proof (cases rule: store_tail_cases[of s e])
      case (replaced xs y ys)
      have "distinct (addrs (events s))" using ok by (simp add: storage_ok_def)
      then have "Address_of e \<notin> Address_of ` (set xs \<union> set ys)" using replaced(1,2) addr by (auto simp: set_addrs)
      moreover have "x \<in> insert y (set xs \<union> set ys)" using x(1) replaced(1) by auto
      ultimately have "x = y" using x(2) by (metis imageI insertE)
      with replaced(4) x(3) show ?thesis by simp
    next
      case appended
      moreover have "Address_of e \<in> set (addrs (events s))"
        using x(1,2) addr unfolding set_addrs by (metis DiffI empty_iff imageI insertE)
      ultimately show ?thesis using addr by blast
    qed simp
    with Reject Inr step S show ?thesis by (auto simp: store_write_def)
  next
    case (Proceed old)
    note c = Inr[unfolded Proceed]
    show ?thesis
    proof (cases "\<exists>j batch. marshalEvent e = Inr j \<and> write_batch P C db e (idb e) j old = Inr batch")
      case False
      then obtain err where "and_then (marshalEvent e) (\<lambda>j. write_batch P C db e (idb e) j old) = Inl err"
        by (cases "marshalEvent e") (auto, metis sum.exhaust)
      with c step S show ?thesis by (auto simp: store_write_def)
    next
      case True
      then obtain j batch where j: "marshalEvent e = Inr j" "write_batch P C db e (idb e) j old = Inr batch" by blast
      note tail = store_tail_written[OF kv g S ok e(1-3) j(1) c j(2)]
      obtain db2 r2 where com: "kvCommit P db batch = (db2, r2)" by fastforce
      from kv_commit[OF kv com] have "contents db2 = apply_batch batch (contents db) \<or> r2 \<noteq> None \<and> contents db2 = contents db" .
      with com tail S c step j show ?thesis by (cases r2) (auto simp: store_write_def)
    qed
  qed
qed

section \<open>Store\<close>

lemma event_key_hit:
  assumes kv: "kv_laws P contents view" and g: "good_events C U A" and r: "represents U (contents db) E" and e: "e \<in> U"
  shows "kvGet P db (makeEventKey (idb e)) = Got v \<Longrightarrow> ID e \<in> ID ` E"
    "kvGet P db (makeEventKey (idb e)) = ErrNotFound \<Longrightarrow> ID e \<notin> ID ` E"
proof -
  note l = idb_props(1)[OF g e]
  have E: "E \<subseteq> U" using r by (simp add: represents_def)
  { assume "kvGet P db (makeEventKey (idb e)) = Got v"
    then have "contents db (makeEventKey (idb e)) = Some v" by (rule kvGet_law(1)[OF kv])
    with event_key_bound[OF g r l] obtain x where "x \<in> E" "idb x = idb e" by blast
    with idb_inject[OF g, of x e] E e show "ID e \<in> ID ` E" by blast
  next
    assume "kvGet P db (makeEventKey (idb e)) = ErrNotFound"
    then have n: "contents db (makeEventKey (idb e)) = None" by (rule kvGet_law(2)[OF kv])
    show "ID e \<notin> ID ` E"
    proof
      assume "ID e \<in> ID ` E"
      then obtain x where "x \<in> E" "ID x = ID e" by force
      then have "contents db (makeEventKey (idb e)) = Some (projr (marshalEvent x))"
        using event_key_bound[OF g r l, of "projr (marshalEvent x)"] by (metis idb_def)
      with n show False by simp
    qed }
qed

lemma deletion_lookup:
  assumes kv: "kv_laws P contents view" and g: "good_events C U A" and S: "sim C U A (contents db) s" and e: "e \<in> U"
  shows "getDeletionRecord P db prefixDeletedID (idb e) = Inr res \<Longrightarrow>
      (case res of None \<Rightarrow> False | Some r \<Rightarrow> recPubkey r = Pubkey e) = deleted_by_id s e"
    and "address_deleted P C db e = Inr b \<Longrightarrow> b = deleted_by_addr s e"
proof -
  have recs: "recs_ok C U A (contents db) s" using S by (simp add: sim_def)
  { assume get: "getDeletionRecord P db prefixDeletedID (idb e) = Inr res"
    have "contents db (makeDeletionKey prefixDeletedID (idb e)) = map_option rec_value (deletedIDs s (ID e))"
      using recs good_eventsD(1)[OF g e] by (simp add: recs_ok_def idb_def)
    from getDeletionRecord_Inr[where M = "deletedIDs s" and k = "ID e", OF kv g this _ get] recs
    show "(case res of None \<Rightarrow> False | Some r \<Rightarrow> recPubkey r = Pubkey e) = deleted_by_id s e"
      by (auto simp: recs_ok_def deleted_by_id_def split: option.splits)
  next
    assume get: "address_deleted P C db e = Inr b"
    show "b = deleted_by_addr s e"
    proof (cases "Address_of e = ''''")
      case False
      then have A: "Address_of e \<in> A" using good_eventsD(6)[OF g e] by blast
      from get False obtain res where res: "getDeletionRecord P db prefixDeletedAddr (hashAddress C (Address_of e)) = Inr res"
        "b = (case res of None \<Rightarrow> False | Some r \<Rightarrow> if recPubkey r = Pubkey e then Unix (CreatedAt e) \<le> recCreatedAt r else False)"
        by (auto simp: address_deleted_def and_then_Inr)
      have m: "contents db (makeDeletionKey prefixDeletedAddr (hashAddress C (Address_of e))) =
          map_option rec_value (deletedAddrs s (Address_of e))" using recs A by (simp add: recs_ok_def)
      from getDeletionRecord_Inr[where M = "deletedAddrs s" and k = "Address_of e", OF kv g m _ res(1)] recs
      have r: "res = map_option (\<lambda>r. \<lparr>recPubkey = dPubkey r, recCreatedAt = Unix (dCreatedAt r)\<rparr>) (deletedAddrs s (Address_of e))"
        by (auto simp: recs_ok_def)
      have "Unix (CreatedAt e) \<le> Unix (dCreatedAt r) \<longleftrightarrow> \<not> CreatedAt e > dCreatedAt r" if "deletedAddrs s (Address_of e) = Some r" for r
      proof -
        from that recs obtain u where "u \<in> U" "dCreatedAt r = CreatedAt u" unfolding recs_ok_def by (metis UnI2 ranI)
        with good_eventsD(4)[OF g e] good_eventsD(4)[OF g, of u] show ?thesis
          by (metis mult_le_cancel_right_pos not_le zero_less_numeral)
      qed
      with res(2) r False show ?thesis by (auto simp: deleted_by_addr_def split: option.splits)
    qed (use get in \<open>simp add: address_deleted_def deleted_by_addr_def\<close>) }
qed

text \<open>
  A successful call is the call in memory. A failed one leaves the state before the call, the state
  after it, or, for a deletion request, the state with its deletions done.
\<close>

definition same_as_memory ::
    "('db, 'it) pebble \<Rightarrow> ('pk, 'sg) crypto \<Rightarrow> Event set \<Rightarrow> string set \<Rightarrow> (string \<rightharpoonup> string) \<Rightarrow> InMemoryStorage \<Rightarrow> Event \<Rightarrow>
     go_error + bool \<Rightarrow> bool" where
  "same_as_memory P C U A m' s e r \<longleftrightarrow>
     (case r of Inr b \<Rightarrow> sim C U A m' (fst (Store_event s e)) \<and> b = snd (Store_event s e)
      | Inl _ \<Rightarrow> sim C U A m' s \<or> Kind e = 5 \<and> sim C U A m' (processKind5 s e) \<or> sim C U A m' (fst (Store_event s e)))"

lemma store_checked_sim:
  assumes kv: "kv_laws P contents view" and g: "good_events C U A" and S: "sim C U A (contents db) s"
    and ok: "storage_ok s" and e: "e \<in> U" "ID e \<notin> ID ` set (events s)" and nd: "\<not> deleted_by_id s e"
    and step: "store_checked P C db e (idb e) = Some (db', r)"
  shows "same_as_memory P C U A (contents db') s e r"
proof -
  have nex: "\<not> list_ex (\<lambda>x. ID x = ID e) (events s)" using e(2) by (metis (mono_tags, lifting) image_eqI list_ex_iff)
  have keep: "same_as_memory P C U A (contents db) s e (Inl err)" for err
    using S ok by (auto simp: same_as_memory_def)
  have False_here: "same_as_memory P C U A (contents db) s e (Inr False)" if "Store_event s e = (s, False)"
    using S that by (simp add: same_as_memory_def)
  show ?thesis
  proof (cases "eventType e = EventTypeEphemeral")
    case True
    then have "Kind e \<noteq> 5" by auto
    with True nd nex have "Store_event s e = (s, False)" by (auto simp: Store_event_def store_tail_def)
    with False_here step True show ?thesis by (auto simp: store_checked_def)
  next
    case ne: False
    show ?thesis
    proof (cases "address_deleted P C db e")
      case (Inl err)
      then have "db' = db" "r = Inl err" using step ne by (simp_all add: store_checked_def)
      with keep show ?thesis by simp
    next
      case (Inr b)
      with deletion_lookup(2)[OF kv g S e(1)] have b: "b = deleted_by_addr s e" by blast
      show ?thesis
      proof (cases b)
        case True
        with b nd have "Store_event s e = (s, False)" by (simp add: Store_event_def)
        with False_here step ne Inr True show ?thesis by (auto simp: store_checked_def)
      next
        case False
        show ?thesis
        proof (cases "Kind e = 5")
          case k5: True
          let ?s1 = "processKind5 s e"
          have ok1: "storage_ok ?s1" by (rule processKind5_ok[OF ok])
          have sub: "set (events ?s1) \<subseteq> set (events s)" by (rule processKind5_events)
          have "good_event A e" using g e(1) by (simp add: good_events_def)
          then have "deletedIDs ?s1 (ID e) = deletedIDs s (ID e)"
            unfolding processKind5_def
            by (intro process_tags_own) (use k5 in \<open>auto simp: good_event_def isValidLowercaseHex_def split: if_splits\<close>)
          then have nd1: "\<not> deleted_by_id ?s1 e" using nd by (simp add: deleted_by_id_def)
          have se: "Store_event s e = store_tail ?s1 e"
            using nd nex k5 nd1 b False by (simp add: Store_event_def Let_def)
          from step ne Inr False k5 obtain db1 r1 where p5: "Pebble_processKind5 P C db e = Some (db1, r1)"
            "(case r1 of Some err \<Rightarrow> (db1, Inl err) | None \<Rightarrow> store_write P C db1 e (idb e)) = (db', r)"
            by (auto simp: store_checked_def split: option.splits prod.splits)
          from processKind5_sim[OF kv g S e(1) k5 p5(1)]
          have S1: "sim C U A (contents db1) ?s1 \<or> r1 \<noteq> None \<and> sim C U A (contents db1) s" .
          show ?thesis
          proof (cases r1)
            case None
            with S1 have S1: "sim C U A (contents db1) ?s1" by simp
            have "store_write P C db1 e (idb e) = (db', r)" using p5(2) None by simp
            from store_write_sim[OF kv g S1 ok1 e(1) _ ne this] e(2) sub
            have w: "case r of Inr b \<Rightarrow> sim C U A (contents db') (fst (store_tail ?s1 e)) \<and> b = snd (store_tail ?s1 e)
              | Inl _ \<Rightarrow> sim C U A (contents db') ?s1 \<or> sim C U A (contents db') (fst (store_tail ?s1 e))" by blast
            then show ?thesis using k5 unfolding same_as_memory_def se by (cases r) auto
          next
            case (Some err)
            with p5(2) have r: "db' = db1" "r = Inl err" by simp_all
            from S1 consider "sim C U A (contents db') ?s1" | "sim C U A (contents db') s" unfolding r(1) by blast
            then show ?thesis unfolding same_as_memory_def r(2) sum.case using k5 by cases blast+
          qed
        next
          case k5: False
          then have se: "Store_event s e = store_tail s e"
            using nd nex b False by (simp add: Store_event_def)
          have "store_write P C db e (idb e) = (db', r)" using step ne Inr False k5 by (simp add: store_checked_def)
          from store_write_sim[OF kv g S ok e ne this]
          have w: "case r of Inr b \<Rightarrow> sim C U A (contents db') (fst (store_tail s e)) \<and> b = snd (store_tail s e)
              | Inl _ \<Rightarrow> sim C U A (contents db') s \<or> sim C U A (contents db') (fst (store_tail s e))" .
          then show ?thesis unfolding same_as_memory_def se by (cases r) auto
        qed
      qed
    qed
  qed
qed

lemma Pebble_Store_sim:
  assumes kv: "kv_laws P contents view" and g: "good_events C U A" and S: "sim C U A (contents db) s"
    and ok: "storage_ok s" and e: "e \<in> U" and step: "Pebble_Store P C db (Some e) = Some (db', r)"
  shows "same_as_memory P C U A (contents db') s e r"
proof -
  have keep: "same_as_memory P C U A (contents db) s e (Inl err)" for err
    using S ok by (auto simp: same_as_memory_def)
  have r: "represents U (contents db) (set (events s))" using S by (simp add: sim_def)
  note h = idb_props(2)[OF g e]
  show ?thesis
  proof (cases "kvGet P db (makeEventKey (idb e))")
    case (Got v)
    then have "ID e \<in> ID ` set (events s)" by (rule event_key_hit(1)[OF kv g r e])
    then have "Store_event s e = (s, False)" by (auto simp: Store_event_def list_ex_iff Let_def)
    with step h Got S show ?thesis by (auto simp: Pebble_Store_def same_as_memory_def)
  next
    case (GetError err)
    with step h keep show ?thesis by (auto simp: Pebble_Store_def)
  next
    case ErrNotFound
    then have fresh: "ID e \<notin> ID ` set (events s)" by (rule event_key_hit(2)[OF kv g r e])
    show ?thesis
    proof (cases "getDeletionRecord P db prefixDeletedID (idb e)")
      case (Inl err)
      with step h ErrNotFound keep show ?thesis by (auto simp: Pebble_Store_def)
    next
      case (Inr res)
      note look = deletion_lookup(1)[OF kv g S e Inr]
      show ?thesis
      proof (cases "deleted_by_id s e")
        case True
        then have "Store_event s e = (s, False)" by (simp add: Store_event_def)
        with True step h ErrNotFound Inr look S show ?thesis by (auto simp: Pebble_Store_def same_as_memory_def)
      next
        case False
        with step h ErrNotFound Inr look have "store_checked P C db e (idb e) = Some (db', r)"
          by (auto simp: Pebble_Store_def)
        from store_checked_sim[OF kv g S ok e fresh False this] show ?thesis .
      qed
    qed
  qed
qed

lemma Pebble_Store_total:
  assumes "64 \<le> length (ID e)" "64 \<le> length (Pubkey e)"
  shows "\<exists>db' r. Pebble_Store P C db (Some e) = Some (db', r)"
proof -
  have p5: "Pebble_processKind5 P C db e \<noteq> None" for db
    using assms(2) kind5_tags_total[of P C db e] by (auto simp: Pebble_processKind5_def hexToBytes32_def split: option.splits sum.splits)
  have "store_checked P C db e i \<noteq> None" for i
    using p5[of db] by (auto simp: store_checked_def split: sum.splits bool.splits option.splits)
  then have "Pebble_Store P C db (Some e) \<noteq> None"
    using assms(1) by (auto simp: Pebble_Store_def hexToBytes32_def split: kv_result.splits sum.splits)
  then show ?thesis by (metis not_None_eq surj_pair)
qed

end
