(* ===== verification/Pebble_Search.thy ===== *)
theory Pebble_Search
  imports Pebble_Refinement
begin

text \<open>
  \<^verbatim>\<open>PebbleStorage.Query\<close>: the cursor built for a filter produces every stored event the filter
  matches, in order, possibly among others (hash collisions, conditions the index does not
  know), and the merge reports exactly the matching ones.
\<close>

section \<open>Scans\<close>

text \<open>
  Time bounds a scan is right for: \<^verbatim>\<open>int64\<close> values, and not the least one as \<^verbatim>\<open>since\<close>, where the
  exclusive upper bound wraps to zero.
\<close>

definition time_ok :: "ReqFilter \<Rightarrow> bool" where
  "time_ok f \<longleftrightarrow> (case Until f of None \<Rightarrow> True | Some u \<Rightarrow> int64 u) \<and>
     (case Since f of None \<Rightarrow> True | Some s \<Rightarrow> int64 s \<and> s \<noteq> - (2 ^ 63))"

definition in_time :: "ReqFilter \<Rightarrow> Event \<Rightarrow> bool" where
  "in_time f e \<longleftrightarrow> (case Until f of None \<Rightarrow> True | Some u \<Rightarrow> Unix (CreatedAt e) \<le> u) \<and>
     (case Since f of None \<Rightarrow> True | Some s \<Rightarrow> s \<le> Unix (CreatedAt e))"

definition event_key_at :: "string \<Rightarrow> Event \<Rightarrow> string" where
  "event_key_at pfx e = pfx @ PutUint64 (fst (entry_of e)) @ idb e"

lemma prefix_append_le: "pfx \<le> pfx @ (x :: string)"
  using append_less_append[of pfx pfx x "[]"] by (simp add: not_less[symmetric])

lemma le_append: "length a = length b \<Longrightarrow> a @ x \<le> b @ y \<longleftrightarrow> a < b \<or> a = b \<and> x \<le> (y :: string)"
  using append_less_append[of b a y x] by (auto simp: not_less[symmetric])

text \<open>Which keys of events lie within the bounds.\<close>

lemma in_bounds_iff:
  assumes pfx: "pfx = c # cs" "byte_of c < 255" and f: "time_ok f" and e: "int64 (Unix (CreatedAt e))"
  shows "lower_bound pfx f \<le> event_key_at pfx e \<and> event_key_at pfx e < upper_bound pfx (incrementBytes pfx) f \<longleftrightarrow> in_time f e"
proof -
  have lower: "lower_bound pfx f \<le> event_key_at pfx e \<longleftrightarrow> (case Until f of None \<Rightarrow> True | Some u \<Rightarrow> Unix (CreatedAt e) \<le> u)"
  proof (cases "Until f")
    case None
    then show ?thesis by (simp add: lower_bound_def event_key_at_def prefix_append_le)
  next
    case (Some u)
    then have "int64 u" using f by (simp add: time_ok_def)
    then have "invertTimestamp u < invertTimestamp (Unix (CreatedAt e)) \<or> u = Unix (CreatedAt e) \<longleftrightarrow> Unix (CreatedAt e) \<le> u"
      using e by auto
    with Some e \<open>int64 u\<close> show ?thesis
      using le_append[of "PutUint64 (invertTimestamp u)" "PutUint64 (invertTimestamp (Unix (CreatedAt e)))" "[]" "idb e"]
      by (auto simp: lower_bound_def event_key_at_def entry_of_def le_append)
  qed
  have "event_key_at pfx e < incrementBytes pfx"
    using incrementBytes_range[OF pfx, of "event_key_at pfx e"] by (simp add: event_key_at_def)
  then have upper: "event_key_at pfx e < upper_bound pfx (incrementBytes pfx) f \<longleftrightarrow>
      (case Since f of None \<Rightarrow> True | Some s \<Rightarrow> s \<le> Unix (CreatedAt e))"
  proof (cases "Since f")
    case (Some s)
    then have s: "int64 s" "s \<noteq> - (2 ^ 63)" using f by (simp_all add: time_ok_def)
    have "event_key_at pfx e < pfx @ PutUint64 (invertTimestamp s + 1) \<longleftrightarrow>
        invertTimestamp (Unix (CreatedAt e)) < invertTimestamp s + 1"
      using append_less_append[of "PutUint64 (invertTimestamp (Unix (CreatedAt e)))" "PutUint64 (invertTimestamp s + 1)" "idb e" "[]"]
      by (simp add: event_key_at_def entry_of_def take_less)
    with Some show ?thesis using invertTimestamp_Suc[OF s(1) e s(2)] by (simp add: upper_bound_def)
  qed (simp add: upper_bound_def)
  from lower upper show ?thesis by (simp add: in_time_def)
qed

text \<open>Everything within the bounds starts with the prefix.\<close>

lemma bounds_prefix:
  assumes pfx: "pfx = c # cs" "byte_of c < 255" and l: "length pfx \<le> length k"
    and k: "lower_bound pfx f \<le> k" "k < upper_bound pfx (incrementBytes pfx) f"
  shows "take (length pfx) k = pfx"
proof -
  have "pfx \<le> lower_bound pfx f" by (auto simp: lower_bound_def prefix_append_le split: option.splits)
  with k(1) have "pfx \<le> k" by simp
  moreover have "pfx @ x < incrementBytes pfx" for x using incrementBytes_range[OF pfx, of "pfx @ x"] by simp
  then have "upper_bound pfx (incrementBytes pfx) f \<le> incrementBytes pfx"
    by (auto simp: upper_bound_def less_imp_le split: option.splits)
  with k(2) have "k < incrementBytes pfx" by simp
  ultimately show ?thesis using incrementBytes_range[OF pfx l] by blast
qed

lemma newIndexCursor_moved:
  "newIndexCursor I it pfx a b = map_option fst (index_moved I
     \<lparr>ixIter = it, seekPrefix = pfx, timestampOffset = a, eventIDOffset = b, curEntry = (0, []), curValid = False\<rparr> (itFirst I it))"
  by (auto simp: newIndexCursor_def index_moved_def Let_def option.map_comp comp_def option.map_ident split: prod.splits)

lemma scan_spec:
  assumes kv: "kv_laws P contents view" and g: "good_events C U A" and r: "represents U (contents db) E"
    and pfx: "pfx = c # cs" "byte_of c < 255" "length pfx \<le> 9" and f: "time_ok f" and K: "K \<subseteq> E"
    and keys: "\<And>k. length pfx \<le> length k \<Longrightarrow> take (length pfx) k = pfx \<Longrightarrow>
      k \<in> dom (contents db) \<longleftrightarrow> (\<exists>e \<in> K. k = event_key_at pfx e)"
  shows "\<exists>res. scan P db pfx (incrementBytes pfx) f = Some res \<and>
    (\<forall>cur. res = Inr cur \<longrightarrow> index_inv P view cur \<and> (\<forall>x. index_seekable view x cur) \<and>
       set (index_rem view cur) = entry_of ` {e \<in> K. in_time f e})"
proof (cases "kvNewIter P db (lower_bound pfx f) (upper_bound pfx (incrementBytes pfx) f)")
  case (Inl e)
  then show ?thesis by (simp add: scan_def)
next
  case (Inr it)
  obtain xs p where v: "view it = (xs, p)" by fastforce
  have I: "iter_laws P view" using kv by (simp add: kv_laws_def)
  have xs: "sorted_wrt (<) xs" "set xs = {k \<in> dom (contents db). lower_bound pfx f \<le> k \<and> k < upper_bound pfx (incrementBytes pfx) f}"
    using kv Inr v unfolding kv_laws_def by fastforce+
  have KU: "e \<in> U" if "e \<in> K" for e using that K r by (auto simp: represents_def)
  have set_xs: "set xs = event_key_at pfx ` {e \<in> K. in_time f e}"
  proof (intro set_eqI iffI)
    fix k assume "k \<in> set xs"
    then have k: "k \<in> dom (contents db)" "lower_bound pfx f \<le> k" "k < upper_bound pfx (incrementBytes pfx) f" using xs(2) by auto
    have "9 \<le> length k" using k(1) r by (simp add: represents_def)
    then have l: "length pfx \<le> length k" using pfx(3) by simp
    note t = bounds_prefix[OF pfx(1,2) l k(2,3)]
    from keys[OF l t] k(1) obtain e where e: "e \<in> K" "k = event_key_at pfx e" by blast
    with in_bounds_iff[OF pfx(1,2) f good_eventsD(3)[OF g KU[OF e(1)]]] k(2,3)
    show "k \<in> event_key_at pfx ` {e \<in> K. in_time f e}" by blast
  next
    fix k assume "k \<in> event_key_at pfx ` {e \<in> K. in_time f e}"
    then obtain e where e: "e \<in> K" "in_time f e" "k = event_key_at pfx e" by blast
    have "length pfx \<le> length k" "take (length pfx) k = pfx" using e(3) by (simp_all add: event_key_at_def)
    with keys[of k] e have "k \<in> dom (contents db)" by blast
    with in_bounds_iff[OF pfx(1,2) f good_eventsD(3)[OF g KU[OF e(1)]]] e show "k \<in> set xs" using xs(2) by blast
  qed
  have ik: "\<forall>k \<in> set xs. index_key pfx k"
    unfolding set_xs using idb_props(1)[OF g KU] by (auto simp: index_key_def event_key_at_def)
  let ?c = "\<lparr>ixIter = it, seekPrefix = pfx, timestampOffset = length pfx, eventIDOffset = length pfx + 8, curEntry = (0, []), curValid = False\<rparr>"
  have first: "view (fst (itFirst P it)) = (xs, 0)" "snd (itFirst P it) = (0 < length xs)"
    using iter_lawsD(1,2)[OF I v] by simp_all
  from index_moved_spec[where c = ?c, OF I _ _ xs(1) _ first] ik obtain cur where
    m: "index_moved P ?c (itFirst P it) = Some (cur, index_rem view cur \<noteq> [])" "index_inv P view cur"
      "index_rem view cur = map (key_entry (length pfx)) xs" "view (ixIter cur) = (xs, 0)" by auto
  have "scan P db pfx (incrementBytes pfx) f = Some (Inr cur)"
    using Inr m(1) by (simp add: scan_def newIndexCursor_moved)
  moreover have "set (index_rem view cur) = entry_of ` {e \<in> K. in_time f e}"
  proof -
    have "key_entry (length pfx) (event_key_at pfx e) = entry_of e" if "e \<in> K" for e
      using idb_props(1)[OF g KU[OF that]] by (simp add: event_key_at_def entry_of_def)
    then show ?thesis unfolding m(3) set_map set_xs image_image by (intro image_cong) auto
  qed
  moreover have "index_seekable view x cur" for x by (simp add: index_seekable_def m(4))
  ultimately show ?thesis using m(2) by auto
qed

section \<open>The two indexes\<close>

lemma dom_data_key:
  assumes "represents U m E" "data_key k"
  shows "k \<in> dom m \<longleftrightarrow> (\<exists>e \<in> E. k \<in> fst ` bindings e)"
proof -
  have "k \<in> dom m \<longleftrightarrow> (\<exists>v. \<exists>e \<in> E. (k, v) \<in> bindings e)" using assms unfolding represents_def dom_def by blast
  then show ?thesis by force
qed

lemma createdAt_keys:
  assumes g: "good_events C U A" and r: "represents U m E" and k: "take 1 k = [prefixCreatedAt]"
  shows "k \<in> dom m \<longleftrightarrow> (\<exists>e \<in> E. k = event_key_at [prefixCreatedAt] e)"
proof -
  have hd: "k \<noteq> []" "hd k = prefixCreatedAt" using k by (cases k; simp)+
  then have "data_key k" by (simp add: data_key_def)
  moreover have "k \<in> fst ` bindings e \<longleftrightarrow> k = event_key_at [prefixCreatedAt] e" if "e \<in> E" for e
  proof -
    have "length (idb e) = 32" using idb_props(1)[OF g, of e] that r by (auto simp: represents_def)
    with hd show ?thesis
      by (auto simp: bindings_def set_index_keys image_image event_key_at_def makeEventKey_def makeCreatedAtKey_def makeFieldKey_def prefix_defs)
  qed
  ultimately show ?thesis using dom_data_key[OF r] by blast
qed

lemma field_keys:
  assumes g: "good_events C U A" and r: "represents U m E" and k: "take 9 k = prefixField # PutUint64 h"
  shows "k \<in> dom m \<longleftrightarrow> (\<exists>e \<in> {e \<in> E. h \<in> field_hashes e}. k = event_key_at (prefixField # PutUint64 h) e)"
proof -
  have hd: "k \<noteq> []" "hd k = prefixField" using k by (cases k; simp)+
  then have "data_key k" by (simp add: data_key_def)
  moreover have "k \<in> fst ` bindings e \<longleftrightarrow> h \<in> field_hashes e \<and> k = event_key_at (prefixField # PutUint64 h) e" if "e \<in> E" for e
  proof -
    have l: "length (idb e) = 32" using idb_props(1)[OF g, of e] that r by (auto simp: represents_def)
    have "k \<in> fst ` bindings e \<longleftrightarrow> (\<exists>h' \<in> field_hashes e. k = makeFieldKey h' (fst (entry_of e)) (idb e))"
      using hd by (auto simp: bindings_def set_index_keys image_image makeEventKey_def makeCreatedAtKey_def prefix_defs)
    moreover have "h' = h" if "k = makeFieldKey h' t i" for h' t i
      using k unfolding that makeFieldKey_def by simp
    moreover have "makeFieldKey h (fst (entry_of e)) (idb e) = event_key_at (prefixField # PutUint64 h) e"
      using l by (simp add: makeFieldKey_def event_key_at_def)
    ultimately show ?thesis by metis
  qed
  ultimately show ?thesis using dom_data_key[OF r] by blast
qed

lemma newCreatedAtCursor_spec:
  assumes kv: "kv_laws P contents view" and g: "good_events C U A" and r: "represents U (contents db) E" and f: "time_ok f"
  shows "\<exists>res. newCreatedAtCursor P db f = Some res \<and>
    (\<forall>cur. res = Inr cur \<longrightarrow> index_inv P view cur \<and> (\<forall>x. index_seekable view x cur) \<and>
       set (index_rem view cur) = entry_of ` {e \<in> E. in_time f e})"
proof -
  have "incrementBytes [prefixCreatedAt] = [char_of (byte_of prefixCreatedAt + 1)]"
    by (simp add: incrementBytes_def prefixCreatedAt_def)
  then have eq: "newCreatedAtCursor P db f = scan P db [prefixCreatedAt] (incrementBytes [prefixCreatedAt]) f"
    by (simp add: newCreatedAtCursor_def)
  show ?thesis
    unfolding eq by (rule scan_spec[OF kv g r refl _ _ f order_refl])
      (use createdAt_keys[OF g r] in \<open>simp_all add: prefixCreatedAt_def\<close>)
qed

lemma newFieldIndexCursor_spec:
  assumes kv: "kv_laws P contents view" and g: "good_events C U A" and r: "represents U (contents db) E" and f: "time_ok f"
  shows "\<exists>res. newFieldIndexCursor P db f h = Some res \<and>
    (\<forall>cur. res = Inr cur \<longrightarrow> index_inv P view cur \<and> (\<forall>x. index_seekable view x cur) \<and>
       set (index_rem view cur) = entry_of ` {e \<in> {e \<in> E. h \<in> field_hashes e}. in_time f e})"
  unfolding newFieldIndexCursor_def Let_def
  by (rule scan_spec[OF kv g r refl _ _ f]) (use field_keys[OF g r] in \<open>auto simp: prefixField_def\<close>)

section \<open>The cursor of one filter\<close>

abbreviation wrap_inv where
  "wrap_inv P view \<equiv> leaf_cursor.wrapped_inv (index_ops P) (index_inv P view) (index_rem view) (index_seekable view)"

abbreviation tree_inv where
  "tree_inv P view \<equiv> leaf_cursor.query_inv (index_ops P) (index_inv P view) (index_rem view) (index_seekable view)"

definition in_condition :: "ReqFilter \<Rightarrow> 64 word list \<Rightarrow> Event \<Rightarrow> bool" where
  "in_condition f hs e \<longleftrightarrow> in_time f e \<and> (\<exists>h \<in> set hs. h \<in> field_hashes e)"

lemma field_cursors_spec:
  assumes kv: "kv_laws P contents view" and g: "good_events C U A" and r: "represents U (contents db) E" and f: "time_ok f"
  shows "\<exists>res. field_cursors P db f hs = Some res \<and>
    (\<forall>curs. res = Inr curs \<longrightarrow> (\<forall>cur \<in> set curs. index_inv P view cur \<and> (\<forall>x. index_seekable view x cur)) \<and>
       (\<Union>cur \<in> set curs. set (index_rem view cur)) = entry_of ` {e \<in> E. in_condition f hs e})"
proof (induction hs)
  case (Cons h hs)
  from newFieldIndexCursor_spec[OF kv g r f, of h] obtain res1 where
    1: "newFieldIndexCursor P db f h = Some res1" "\<And>cur. res1 = Inr cur \<Longrightarrow> index_inv P view cur \<and>
      (\<forall>x. index_seekable view x cur) \<and> set (index_rem view cur) = entry_of ` {e \<in> {e \<in> E. h \<in> field_hashes e}. in_time f e}" by blast
  from Cons obtain res2 where
    2: "field_cursors P db f hs = Some res2" "\<And>curs. res2 = Inr curs \<Longrightarrow> (\<forall>cur \<in> set curs. index_inv P view cur \<and> (\<forall>x. index_seekable view x cur)) \<and>
       (\<Union>cur \<in> set curs. set (index_rem view cur)) = entry_of ` {e \<in> E. in_condition f hs e}" by blast
  show ?case
  proof (cases res1)
    case (Inr cur)
    show ?thesis
    proof (cases res2)
      case (Inr curs)
      have "entry_of ` {e \<in> E. in_condition f (h # hs) e} =
          entry_of ` {e \<in> {e \<in> E. h \<in> field_hashes e}. in_time f e} \<union> entry_of ` {e \<in> E. in_condition f hs e}"
        by (auto simp: in_condition_def)
      with 1(1) 2(1) 1(2)[OF \<open>res1 = Inr cur\<close>] 2(2)[OF Inr] \<open>res1 = Inr cur\<close> Inr show ?thesis by auto
    qed (use 1(1) 2(1) Inr in simp)
  qed (use 1(1) in simp)
qed (simp add: in_condition_def)

lemma condition_cursors_spec:
  assumes kv: "kv_laws P contents view" and g: "good_events C U A" and r: "represents U (contents db) E" and f: "time_ok f"
  shows "\<exists>res. condition_cursors P db f hss = Some res \<and>
    (\<forall>ws. res = Inr ws \<longrightarrow> list_all2 (\<lambda>hs w. wrap_inv P view w \<and>
       set (index.wrapped_rem view w) = entry_of ` {e \<in> E. in_condition f hs e}) hss ws)"
proof (induction hss)
  case (Cons hs hss)
  from field_cursors_spec[OF kv g r f, of hs] obtain res1 where
    1: "field_cursors P db f hs = Some res1" "\<And>curs. res1 = Inr curs \<Longrightarrow> (\<forall>cur \<in> set curs. index_inv P view cur \<and> (\<forall>x. index_seekable view x cur)) \<and>
       (\<Union>cur \<in> set curs. set (index_rem view cur)) = entry_of ` {e \<in> E. in_condition f hs e}" by blast
  from Cons obtain res2 where
    2: "condition_cursors P db f hss = Some res2" "\<And>ws. res2 = Inr ws \<Longrightarrow> list_all2 (\<lambda>hs w. wrap_inv P view w \<and>
       set (index.wrapped_rem view w) = entry_of ` {e \<in> E. in_condition f hs e}) hss ws" by blast
  show ?case
  proof (cases res1)
    case (Inr curs)
    note c = 1(2)[OF Inr]
    have w: "wrap_inv P view (wrapCursors (index_ops P) curs)"
      "set (index.wrapped_rem view (wrapCursors (index_ops P) curs)) = entry_of ` {e \<in> E. in_condition f hs e}"
      using index.wrapCursors_spec[of curs P view] c by auto
    show ?thesis
    proof (cases res2)
      case (Inr ws)
      with 1(1) 2 w \<open>res1 = Inr curs\<close> show ?thesis by simp
    qed (use 1(1) 2(1) Inr in simp)
  qed (use 1(1) in simp)
qed simp

lemma entry_of_inject:
  "good_events C U A \<Longrightarrow> e \<in> U \<Longrightarrow> e' \<in> U \<Longrightarrow> entry_of e = entry_of e' \<longleftrightarrow> e = e'"
  using idb_inject[of C U A e e'] by (auto simp: entry_of_def)

lemma ids_entries_spec:
  assumes kv: "kv_laws P contents view" and g: "good_events C U A" and r: "represents U (contents db) E"
  shows "\<exists>res. ids_entries P db ids = Some res \<and>
    (\<forall>es. res = Inr es \<longrightarrow> set es \<subseteq> entry_of ` E \<and> {entry_of e |e. e \<in> E \<and> ID e \<in> set ids} \<subseteq> set es)"
proof (induction ids)
  case (Cons i ids)
  then obtain res where IH: "ids_entries P db ids = Some res"
    "\<And>es. res = Inr es \<Longrightarrow> set es \<subseteq> entry_of ` E \<and> {entry_of e |e. e \<in> E \<and> ID e \<in> set ids} \<subseteq> set es" by blast
  have E: "E \<subseteq> U" using r by (simp add: represents_def)
  show ?case
  proof (cases "length i = 64")
    case False
    then have "ID e \<noteq> i" if "e \<in> E" for e
      using good_eventsD(1)[OF g, of e] that E by (auto simp: isValidLowercaseHex_def)
    with False IH show ?thesis by fastforce
  next
    case True
    then obtain b where b: "hexToBytes32 i = Some b" "length b = 32" by (auto simp: hexToBytes32_def)
    show ?thesis
    proof (cases "getEventByID P db b")
      case (Inl err)
      with True b show ?thesis by simp
    next
      case (Inr found)
      note get = getEventByID_Inr[OF kv g r b(2) Inr]
      have own: "idb e = b" if "ID e = i" for e using b(1) that by (simp add: idb_def hex_bytes_def)
      show ?thesis
      proof (cases found)
        case None
        then have "ID e \<noteq> i" if "e \<in> E" for e using get own that by auto
        with True b Inr None IH show ?thesis by fastforce
      next
        case (Some x)
        then have x: "x \<in> E" "idb x = b" using get by simp_all
        have only: "e = x" if "e \<in> E" "ID e = i" for e
          using own[OF that(2)] x idb_inject[OF g, of e x] E that by auto
        have ent: "(invertTimestamp (Unix (CreatedAt x)), b) = entry_of x" by (simp add: entry_of_def x)
        show ?thesis
        proof (cases res)
          case (Inr es)
          note sub = IH(2)[OF this]
          have "{entry_of e |e. e \<in> E \<and> ID e \<in> set (i # ids)} \<subseteq> set (entry_of x # es)"
          proof
            fix y assume "y \<in> {entry_of e |e. e \<in> E \<and> ID e \<in> set (i # ids)}"
            then obtain e where e: "y = entry_of e" "e \<in> E" "ID e = i \<or> ID e \<in> set ids" by auto
            with only[of e] sub show "y \<in> set (entry_of x # es)" by auto
          qed
          moreover have "set (entry_of x # es) \<subseteq> entry_of ` E" using sub x(1) by auto
          ultimately show ?thesis using True b \<open>getEventByID P db b = Inr found\<close> Some IH(1) Inr ent by simp
        qed (use True b Inr Some IH(1) in simp)
      qed
    qed
  qed
qed simp

text \<open>A matching event satisfies every condition the cursors are built from.\<close>

lemma Match_in_time: "Match f e \<Longrightarrow> in_time f e"
  by (auto simp: Match_def in_time_def split: if_splits option.splits)

lemma tag_conditions_match:
  assumes "tags_matched kvs (tags_of e)" "hs \<in> set (tag_conditions kvs)"
  shows "\<exists>h \<in> set hs. h \<in> field_hashes e"
  using assms
proof (induction kvs rule: tag_conditions.induct)
  case (2 k vs kvs)
  show ?case
  proof (cases "length k = 1 \<and> vs \<noteq> [] \<and> hs = map (fieldHashTag (k ! 0)) vs")
    case True
    with 2 obtain t where "t \<in> set (tags_of e)" "length t \<ge> 2" "t ! 0 = k" "t ! 1 \<in> set vs"
      by (auto simp: tag_matched_iff split: if_splits)
    with True show ?thesis by (auto simp: field_hashes_def intro!: bexI[of _ "fieldHashTag (k ! 0) (t ! 1)"])
  next
    case False
    with 2 show ?thesis by (auto split: if_splits)
  qed
qed simp

lemma Match_conditions:
  assumes m: "Match f e" and p: "length (Pubkey e) = 64" and hs: "hs \<in> set (conditions f)"
  shows "in_condition f hs e"
proof -
  have t: "in_time f e" using m by (rule Match_in_time)
  consider "hs = map fieldHashAuthor (filter (\<lambda>a. length a = 64) (elems (Authors f)))" "hs \<noteq> []"
    | "hs = map fieldHashKind (elems (Kinds f))" "hs \<noteq> []" | "hs \<in> set (tag_conditions (TagFilters f))"
    using hs by (auto simp: conditions_def split: if_splits)
  then show ?thesis
  proof cases
    case 1
    then have "elems (Authors f) \<noteq> []" by auto
    then have "Pubkey e \<in> set (elems (Authors f))" using m by (auto simp: Match_def split: if_splits)
    with 1 p t show ?thesis by (auto simp: in_condition_def field_hashes_def)
  next
    case 2
    then have "elems (Kinds f) \<noteq> []" by auto
    then have "Kind e \<in> set (elems (Kinds f))" using m by (auto simp: Match_def split: if_splits)
    with 2 t show ?thesis by (auto simp: in_condition_def field_hashes_def)
  next
    case 3
    moreover have "tags_matched (TagFilters f) (tags_of e)" using m by (auto simp: Match_def split: if_splits)
    ultimately show ?thesis using tag_conditions_match t by (auto simp: in_condition_def)
  qed
qed

text \<open>What the cursor of a filter must produce.\<close>

definition covers :: "Event set \<Rightarrow> ReqFilter \<Rightarrow> entry set \<Rightarrow> bool" where
  "covers E f xs \<longleftrightarrow> xs \<subseteq> entry_of ` E \<and> {entry_of e |e. e \<in> E \<and> Match f e} \<subseteq> xs"

lemma buildIDsCursor_spec:
  assumes kv: "kv_laws P contents view" and g: "good_events C U A" and r: "represents U (contents db) E"
    and ids: "elems (IDs f) \<noteq> []"
  shows "\<exists>res. buildIDsCursor P db (elems (IDs f)) = Some res \<and>
    (\<forall>c. res = Inr c \<longrightarrow> (case c of None \<Rightarrow> covers E f {} | Some c \<Rightarrow> slice_inv c \<and> covers E f (set (slice_rem c))))"
proof -
  from ids_entries_spec[OF kv g r, of "elems (IDs f)"] obtain res where
    1: "ids_entries P db (elems (IDs f)) = Some res" "\<And>es. res = Inr es \<Longrightarrow> set es \<subseteq> entry_of ` E \<and>
      {entry_of e |e. e \<in> E \<and> ID e \<in> set (elems (IDs f))} \<subseteq> set es" by blast
  have m: "Match f e \<Longrightarrow> ID e \<in> set (elems (IDs f))" for e using ids by (auto simp: Match_def split: if_splits)
  show ?thesis
  proof (cases res)
    case (Inr es)
    note es = 1(2)[OF Inr]
    then have cov: "covers E f (set es)" using m unfolding covers_def by blast
    have "length (snd x) = 32" if x: "x \<in> set es" for x
    proof -
      obtain e where e: "e \<in> E" "x = entry_of e" using subsetD[OF conjunct1[OF es] x] by blast
      have "e \<in> U" using e(1) r unfolding represents_def by blast
      then show ?thesis unfolding e(2) entry_of_def snd_conv by (rule idb_props(1)[OF g])
    qed
    then have "slice_inv (newSliceCursor (sort es)) \<and> slice_rem (newSliceCursor (sort es)) = sort es"
      by (intro newSliceCursor_spec) simp_all
    with 1(1) Inr cov show ?thesis by (auto simp: buildIDsCursor_def)
  qed (use 1(1) in \<open>simp add: buildIDsCursor_def\<close>)
qed

lemma buildFilterCursor_spec:
  assumes kv: "kv_laws P contents view" and g: "good_events C U A" and r: "represents U (contents db) E" and f: "time_ok f"
  shows "\<exists>res. buildFilterCursor P db f = Some res \<and>
    (\<forall>c. res = Inr c \<longrightarrow> (case c of None \<Rightarrow> covers E f {}
       | Some c \<Rightarrow> tree_inv P view c \<and> covers E f (set (index.query_rem view c))))"
proof (cases "elems (IDs f) = []")
  case False
  from buildIDsCursor_spec[OF kv g r False] obtain res where
    b: "buildIDsCursor P db (elems (IDs f)) = Some res" "\<And>c. res = Inr c \<Longrightarrow>
      (case c of None \<Rightarrow> covers E f {} | Some c \<Rightarrow> slice_inv c \<and> covers E f (set (slice_rem c)))" by blast
  have eq: "buildFilterCursor P db f = Some (and_then res (\<lambda>c. Inr (map_option ByIDs c)))"
    using False b(1) by (simp add: buildFilterCursor_def)
  show ?thesis
  proof (cases res)
    case (Inr c)
    with b(2)[OF Inr] eq show ?thesis
      by (cases c) (auto simp: index.query_inv_def index.query_rem_def)
  qed (use eq in simp)
next
  case True
  have E: "E \<subseteq> U" using r by (simp add: represents_def)
  from condition_cursors_spec[OF kv g r f, of "conditions f"] obtain res where
    c: "condition_cursors P db f (conditions f) = Some res" "\<And>ws. res = Inr ws \<Longrightarrow>
      list_all2 (\<lambda>hs w. wrap_inv P view w \<and> set (index.wrapped_rem view w) = entry_of ` {e \<in> E. in_condition f hs e}) (conditions f) ws"
    by blast
  have mc: "in_condition f hs e" if "e \<in> E" "Match f e" "hs \<in> set (conditions f)" for e hs
  proof -
    have "length (Pubkey e) = 64"
      using good_eventsD(2)[OF g, of e] that(1) E by (auto simp: isValidLowercaseHex_def split: if_splits)
    with Match_conditions that(2,3) show ?thesis by blast
  qed
  show ?thesis
  proof (cases res)
    case (Inl err)
    with True c(1) show ?thesis by (simp add: buildFilterCursor_def)
  next
    case (Inr ws)
    note all = c(2)[OF Inr]
    then have len: "length ws = length (conditions f)" by (simp add: list_all2_lengthD)
    have ex: "\<exists>hs \<in> set (conditions f). wrap_inv P view w \<and>
        set (index.wrapped_rem view w) = entry_of ` {e \<in> E. in_condition f hs e}" if "w \<in> set ws" for w
    proof -
      from that obtain n where n: "n < length ws" "w = ws ! n" by (auto simp: in_set_conv_nth)
      with list_all2_nthD2[OF all n(1)] len show ?thesis by (intro bexI[of _ "conditions f ! n"]) simp_all
    qed
    have winv: "\<forall>w \<in> set ws. wrap_inv P view w" using ex by blast
    have wcovers: "covers E f (set (index.wrapped_rem view w))" if "w \<in> set ws" for w
    proof -
      from ex[OF that] obtain hs where hs: "hs \<in> set (conditions f)"
        "set (index.wrapped_rem view w) = entry_of ` {e \<in> E. in_condition f hs e}" by blast
      show ?thesis unfolding covers_def hs(2) using mc hs(1) by blast
    qed
    then have wsub: "\<forall>w \<in> set ws. set (index.wrapped_rem view w) \<subseteq> entry_of ` E"
      and wcov: "\<forall>w \<in> set ws. {entry_of e |e. e \<in> E \<and> Match f e} \<subseteq> set (index.wrapped_rem view w)"
      unfolding covers_def by blast+
    consider "ws = []" | w where "ws = [w]" | "length ws \<ge> 2" by (cases ws; cases "tl ws") auto
    then show ?thesis
    proof cases
      case 1
      from newCreatedAtCursor_spec[OF kv g r f] obtain res2 where
        n: "newCreatedAtCursor P db f = Some res2" "\<And>cur. res2 = Inr cur \<Longrightarrow> index_inv P view cur \<and>
          (\<forall>x. index_seekable view x cur) \<and> set (index_rem view cur) = entry_of ` {e \<in> E. in_time f e}" by blast
      have eq: "buildFilterCursor P db f = Some (and_then res2 (\<lambda>c. Inr (Some (OneCondition (Single c)))))"
        using True c(1) Inr 1 n(1) by (simp add: buildFilterCursor_def)
      show ?thesis
      proof (cases res2)
        case (Inr cur)
        have "covers E f (entry_of ` {e \<in> E. in_time f e})" using Match_in_time by (auto simp: covers_def)
        with n(2)[OF Inr] eq Inr show ?thesis
          by (simp add: index.query_inv_def index.query_rem_def index.wrapped_inv_def index.wrapped_rem_def)
      qed (use eq in simp)
    next
      case (2 w)
      with True c(1) Inr have eq: "buildFilterCursor P db f = Some (Inr (Some (OneCondition w)))"
        by (simp add: buildFilterCursor_def)
      have "wrap_inv P view w" "covers E f (set (index.wrapped_rem view w))"
        using winv wsub wcov 2 by (simp_all add: covers_def)
      with eq show ?thesis by (simp add: index.query_inv_def index.query_rem_def)
    next
      case 3
      then have ne: "ws \<noteq> []" by auto
      from index.wrapped.newIntersectCursor_spec[OF ne winv] obtain j where
        j: "newIntersectCursor (wrapped_ops (index_ops P)) ws = Some j"
        "cursor.intersect_inv (wrap_inv P view) (index.wrapped_rem view) j"
        "index.wrapped.intersect_rem view j = index.wrapped.common view ws" by blast
      have eq: "buildFilterCursor P db f = Some (Inr (Some (AllConditions j)))"
        using True c(1) Inr 3 j(1) by (auto simp: buildFilterCursor_def)
      have "set (index.wrapped.common view ws) = {x. \<forall>w \<in> set ws. x \<in> set (index.wrapped_rem view w)}"
        using index.wrapped.set_common[OF ne] .
      then have "covers E f (set (index.wrapped.common view ws))"
        using wsub wcov list.set_sel(1)[OF ne] unfolding covers_def by blast
      with eq j show ?thesis by (simp add: index.query_inv_def index.query_rem_def)
    qed
  qed
qed

section \<open>The whole query\<close>

abbreviation heap_ok where
  "heap_ok P view \<equiv> cursor.heap_inv (query_ops (index_ops P)) (tree_inv P view) (index.query_rem view)"

lemma filter_heap_spec:
  assumes kv: "kv_laws P contents view" and g: "good_events C U A" and r: "represents U (contents db) E"
    and fs: "\<forall>f \<in> set fs. time_ok f"
    and fh: "heap_ok P view fh" "\<And>c f. (c, f) \<in> set fh \<Longrightarrow> set (index.query_rem view c) \<subseteq> entry_of ` E \<and> f \<in> F" "set fs \<subseteq> F"
  shows "\<exists>res. filter_heap P db fh fs = Some res \<and> (\<forall>fh'. res = Inr fh' \<longrightarrow> heap_ok P view fh' \<and> set fh \<subseteq> set fh' \<and>
    (\<forall>c f. (c, f) \<in> set fh' \<longrightarrow> set (index.query_rem view c) \<subseteq> entry_of ` E \<and> f \<in> F) \<and>
    (\<forall>f \<in> set fs. \<forall>e \<in> E. Match f e \<longrightarrow> (\<exists>c. (c, f) \<in> set fh' \<and> entry_of e \<in> set (index.query_rem view c))))"
  using fs fh
proof (induction fs arbitrary: fh)
  case (Cons f fs)
  from buildFilterCursor_spec[OF kv g r, of f] Cons.prems(1) obtain res where
    b: "buildFilterCursor P db f = Some res" "\<And>c. res = Inr c \<Longrightarrow> (case c of None \<Rightarrow> covers E f {}
       | Some c \<Rightarrow> tree_inv P view c \<and> covers E f (set (index.query_rem view c)))" by auto
  show ?case
  proof (cases res)
    case (Inl err)
    with b(1) show ?thesis by simp
  next
    case (Inr co)
    define fh1 where "fh1 = (case co of None \<Rightarrow> fh | Some c \<Rightarrow>
      if cValid (query_ops (index_ops P)) c then heap_push (filterCursor_lt (query_ops (index_ops P))) fh (c, f) else fh)"
    have eq: "filter_heap P db fh (f # fs) = filter_heap P db fh1 fs"
      using b(1) Inr by (simp add: fh1_def split: option.split)
    have fh1: "heap_ok P view fh1 \<and> set fh \<subseteq> set fh1 \<and>
      (\<forall>c g. (c, g) \<in> set fh1 \<longrightarrow> set (index.query_rem view c) \<subseteq> entry_of ` E \<and> g \<in> F) \<and>
      (\<forall>e \<in> E. Match f e \<longrightarrow> (\<exists>c. (c, f) \<in> set fh1 \<and> entry_of e \<in> set (index.query_rem view c)))"
    proof (cases co)
      case None
      with b(2)[OF Inr] have "\<not> Match f e" if "e \<in> E" for e using that unfolding None option.case covers_def by blast
      with None Cons.prems(2,3) show ?thesis by (auto simp: fh1_def)
    next
      case (Some c)
      with b(2)[OF Inr] have c: "tree_inv P view c" "covers E f (set (index.query_rem view c))" by simp_all
      show ?thesis
      proof (cases "index.query_rem view c = []")
        case True
        then have "\<not> cValid (query_ops (index_ops P)) c" using index.query.valid_rem[OF c(1)] by simp
        moreover have "\<not> Match f e" if "e \<in> E" for e
        proof -
          from c(2) that have "entry_of e \<in> set (index.query_rem view c)" if "Match f e" using that unfolding covers_def by blast
          then show ?thesis using True by auto
        qed
        ultimately show ?thesis using Some Cons.prems(2,3) by (auto simp: fh1_def)
      next
        case False
        then have "cValid (query_ops (index_ops P)) c" using index.query.valid_rem[OF c(1)] by simp
        then have f1: "fh1 = heap_push (by_key (\<lambda>p. pair_key (query_ops (index_ops P)) p)) fh (c, f)"
          using Some by (simp add: fh1_def filterCursor_lt_key)
        have heap: "is_heap (\<lambda>p. pair_key (query_ops (index_ops P)) p) fh" "\<forall>(c, f) \<in> set fh. tree_inv P view c \<and> index.query_rem view c \<noteq> []"
          using Cons.prems(2) by (simp_all add: index.query.heap_inv_def)
        note push = heap_push[OF heap(1), of "(c, f)"]
        have s: "set fh1 = insert (c, f) (set fh)" unfolding f1 using push(2) by (metis set_mset_add_mset_insert set_mset_mset)
        have "heap_ok P view fh1"
          unfolding index.query.heap_inv_def s using push(1) heap(2) c(1) False f1 by auto
        moreover have "set (index.query_rem view c) \<subseteq> entry_of ` E" "f \<in> F"
          using c(2) Cons.prems(4) by (auto simp: covers_def)
        moreover have "entry_of e \<in> set (index.query_rem view c)" if "e \<in> E" "Match f e" for e
          using c(2) that unfolding covers_def by blast
        ultimately show ?thesis unfolding s using Cons.prems(3) by blast
      qed
    qed
    have "\<exists>res. filter_heap P db fh1 fs = Some res \<and> (\<forall>fh'. res = Inr fh' \<longrightarrow> heap_ok P view fh' \<and> set fh1 \<subseteq> set fh' \<and>
      (\<forall>c f. (c, f) \<in> set fh' \<longrightarrow> set (index.query_rem view c) \<subseteq> entry_of ` E \<and> f \<in> F) \<and>
      (\<forall>f \<in> set fs. \<forall>e \<in> E. Match f e \<longrightarrow> (\<exists>c. (c, f) \<in> set fh' \<and> entry_of e \<in> set (index.query_rem view c))))"
      by (rule Cons.IH) (use Cons.prems fh1 in auto)
    then obtain res' where r': "filter_heap P db fh1 fs = Some res'" "\<And>fh'. res' = Inr fh' \<Longrightarrow> heap_ok P view fh' \<and> set fh1 \<subseteq> set fh' \<and>
      (\<forall>c f. (c, f) \<in> set fh' \<longrightarrow> set (index.query_rem view c) \<subseteq> entry_of ` E \<and> f \<in> F) \<and>
      (\<forall>f \<in> set fs. \<forall>e \<in> E. Match f e \<longrightarrow> (\<exists>c. (c, f) \<in> set fh' \<and> entry_of e \<in> set (index.query_rem view c)))" by blast
    show ?thesis unfolding eq
    proof (intro exI[of _ res'] conjI allI impI r'(1))
      fix fh' assume i: "res' = Inr fh'"
      note R = r'(2)[OF i]
      show "heap_ok P view fh'" "set fh \<subseteq> set fh'"
        "\<And>c f. (c, f) \<in> set fh' \<Longrightarrow> set (index.query_rem view c) \<subseteq> entry_of ` E"
        "\<And>c f. (c, f) \<in> set fh' \<Longrightarrow> f \<in> F" using R fh1 by blast+
      show "\<forall>g \<in> set (f # fs). \<forall>e \<in> E. Match g e \<longrightarrow> (\<exists>c. (c, g) \<in> set fh' \<and> entry_of e \<in> set (index.query_rem view c))"
        using R fh1 by (simp only: list.set ball_simps) blast
    qed
  qed
qed auto

lemma entry_of_less:
  assumes g: "good_events C U A" and e: "e \<in> U" "e' \<in> U"
  shows "entry_of e < entry_of e' \<longleftrightarrow> event_key e < event_key e'"
proof -
  note t = good_eventsD(3)[OF g e(1)] good_eventsD(3)[OF g e(2)]
  have c: "CreatedAt e' < CreatedAt e \<longleftrightarrow> Unix (CreatedAt e') < Unix (CreatedAt e)"
    "CreatedAt e = CreatedAt e' \<longleftrightarrow> Unix (CreatedAt e) = Unix (CreatedAt e')"
    using good_eventsD(4)[OF g e(1)] good_eventsD(4)[OF g e(2)]
    by (metis mult_less_cancel_right_pos zero_less_numeral) (metis good_eventsD(4)[OF g e(1)] good_eventsD(4)[OF g e(2)])
  have "idb e < idb e' \<longleftrightarrow> ID e < ID e'"
    unfolding idb_def by (rule hex_bytes_less[OF good_eventsD(1)[OF g e(1)] good_eventsD(1)[OF g e(2)]])
  then show ?thesis using t c unfolding entry_of_def less_prod_simp event_key_less by (auto simp: le_less)
qed

theorem Pebble_Query_spec:
  assumes kv: "kv_laws P contents view" and g: "good_events C U A" and r: "represents U (contents db) E"
    and fs: "\<forall>f \<in> set filters. time_ok f"
  shows "\<exists>es err. Pebble_Query P db filters = Some (es, err) \<and> (err = None \<longrightarrow> query_result E filters es)"
proof (cases "filters = []")
  case True
  then show ?thesis by (auto simp: Pebble_Query_def query_result_def limited_def intro!: exI[of _ "[]"])
next
  case False
  have E: "E \<subseteq> U" using r by (simp add: represents_def)
  have "heap_ok P view []" by (simp add: index.query.heap_inv_def is_heap_def heap_from_def)
  from filter_heap_spec[OF kv g r fs this _ order_refl] obtain res where
    fhres: "filter_heap P db [] filters = Some res" "\<And>fh. res = Inr fh \<Longrightarrow> heap_ok P view fh \<and>
      (\<forall>c f. (c, f) \<in> set fh \<longrightarrow> set (index.query_rem view c) \<subseteq> entry_of ` E \<and> f \<in> set filters) \<and>
      (\<forall>f \<in> set filters. \<forall>e \<in> E. Match f e \<longrightarrow> (\<exists>c. (c, f) \<in> set fh \<and> entry_of e \<in> set (index.query_rem view c)))"
    by auto
  show ?thesis
  proof (cases res)
    case (Inl err)
    with False fhres(1) show ?thesis by (simp add: Pebble_Query_def)
  next
    case (Inr fh)
    note R = fhres(2)[OF Inr]
    have sub: "x \<in> entry_of ` E" if "(c, f) \<in> set fh" "x \<in> set (index.query_rem view c)" for c f x
      using R that by blast
    define look where "look i = (if \<exists>e \<in> E. idb e = i then Some (THE e. e \<in> E \<and> idb e = i) else None)" for i
    have look: "look (snd (entry_of e)) = Some e" if "e \<in> E" for e
    proof -
      have "(THE e'. e' \<in> E \<and> idb e' = idb e) = e"
        using that idb_inject[OF g] E by (intro the_equality) blast+
      with that show ?thesis by (auto simp: look_def entry_of_def)
    qed
    have "\<exists>es err. query_loop (query_ops (index_ops P)) (getEventByID P db) (limit_of filters) 0 {} fh = Some (es, err) \<and>
      (err = None \<longrightarrow> (\<exists>xs. sorted_wrt (<) xs \<and> set xs = index.query.due view look {} fh \<and>
       es = map (\<lambda>x. the (look (snd x))) (if limit_of filters \<ge> 0 then take (nat (limit_of filters - 0)) xs else xs)))"
    proof (rule index.query.query_loop_spec)
      show "heap_ok P view fh" using R by blast
      show "x = y" if "(c, f) \<in> set fh" "(d, k) \<in> set fh" "x \<in> set (index.query_rem view c)" "y \<in> set (index.query_rem view d)" "snd x = snd y"
        for c f d k x y
      proof -
        from sub[OF that(1,3)] sub[OF that(2,4)] obtain a b where "a \<in> E" "x = entry_of a" "b \<in> E" "y = entry_of b" by blast
        with that(5) idb_inject[OF g, of a b] E show ?thesis by (auto simp: entry_of_def)
      qed
      show "ev = look (snd x)" if m: "(c, f) \<in> set fh" "x \<in> set (index.query_rem view c)" "getEventByID P db (snd x) = Inr ev" for c f x ev
      proof -
        from sub[OF m(1,2)] obtain e where e: "e \<in> E" "x = entry_of e" by blast
        then have "e \<in> U" using E by blast
        with getEventByID_Inr[OF kv g r _ m(3)] idb_props(1)[OF g] e obtain e' where "ev = Some e'" "e' \<in> E" "idb e' = idb e"
          by (cases ev) (auto simp: entry_of_def)
        with idb_inject[OF g, of e' e] E e look show ?thesis by auto
      qed
    qed
    then obtain es err where q: "query_loop (query_ops (index_ops P)) (getEventByID P db) (limit_of filters) 0 {} fh = Some (es, err)"
      and spec: "err = None \<longrightarrow> (\<exists>xs. sorted_wrt (<) xs \<and> set xs = index.query.due view look {} fh \<and>
       es = map (\<lambda>x. the (look (snd x))) (if limit_of filters \<ge> 0 then take (nat (limit_of filters - 0)) xs else xs))" by blast
    have "query_result E filters es" if "err = None"
    proof -
      from spec that obtain xs where xs: "sorted_wrt (<) xs" "set xs = index.query.due view look {} fh"
        "es = map (\<lambda>x. the (look (snd x))) (if limit_of filters \<ge> 0 then take (nat (limit_of filters)) xs else xs)" by auto
      let ?ev = "\<lambda>x. the (look (snd x))"
      have due: "index.query.due view look {} fh = entry_of ` {e \<in> E. matchesAny filters e}"
      proof (intro set_eqI iffI)
        fix x assume "x \<in> index.query.due view look {} fh"
        then obtain c f ev where d: "(c, f) \<in> set fh" "x \<in> set (index.query_rem view c)" "look (snd x) = Some ev" "Match f ev"
          unfolding index.query.due_iff by blast
        from sub[OF d(1,2)] obtain e where e: "e \<in> E" "x = entry_of e" by blast
        with d(3) look have "ev = e" by simp
        moreover have "f \<in> set filters" using R d(1) by blast
        ultimately have "matchesAny filters e" using d(4) by (auto simp: matchesAny_iff)
        with e show "x \<in> entry_of ` {e \<in> E. matchesAny filters e}" by blast
      next
        fix x assume "x \<in> entry_of ` {e \<in> E. matchesAny filters e}"
        then obtain e f where e: "e \<in> E" "x = entry_of e" "f \<in> set filters" "Match f e" by (auto simp: matchesAny_iff)
        with R look show "x \<in> index.query.due view look {} fh" unfolding index.query.due_iff by blast
      qed
      have ev: "?ev x \<in> E \<and> entry_of (?ev x) = x" if "x \<in> set xs" for x
        using that xs(2) look unfolding due by auto
      have "set (map ?ev xs) = {e \<in> E. matchesAny filters e}"
      proof -
        have "?ev ` entry_of ` {e \<in> E. matchesAny filters e} = {e \<in> E. matchesAny filters e}"
          using look by (force simp: image_image)
        then show ?thesis using xs(2) due by simp
      qed
      moreover have "sorted_wrt (\<lambda>a b. event_key a < event_key b) (map ?ev xs)"
      proof -
        have "event_key (?ev x) < event_key (?ev y)" if "x < y" "x \<in> set xs" "y \<in> set xs" for x y
          using entry_of_less[OF g, of "?ev x" "?ev y"] ev[OF that(2)] ev[OF that(3)] E that(1) by auto
        with xs(1) show ?thesis unfolding sorted_wrt_map by (rule sorted_wrt_mono_rel[rotated]) blast
      qed
      moreover have "es = limited (limit_of filters) (map ?ev xs)" using xs(3) by (simp add: limited_def take_map)
      ultimately show ?thesis unfolding query_result_def by blast
    qed
    with False fhres(1) Inr q show ?thesis by (simp add: Pebble_Query_def)
  qed
qed

end
