(* ===== verification/Pebble_Properties.thy ===== *)
theory Pebble_Properties
  imports Pebble_Search In_Memory_Properties
begin

text \<open>
  \<^verbatim>\<open>PebbleStorage\<close> as a whole: sequences of stores followed by queries, compared with the in-memory
  storage when no call to the database fails, and with what survives when some do.
\<close>

section \<open>Sequences of stores\<close>

fun pebble_run ::
    "('db, 'it) pebble \<Rightarrow> ('pk, 'sg) crypto \<Rightarrow> 'db \<Rightarrow> Event list \<Rightarrow> ('db \<times> (go_error + bool) list) option" where
  "pebble_run P C db [] = Some (db, [])"
| "pebble_run P C db (e # es) =
     (case Pebble_Store P C db (Some e) of
        None \<Rightarrow> None
      | Some (db', r) \<Rightarrow> map_option (\<lambda>(db'', rs). (db'', r # rs)) (pebble_run P C db' es))"

fun memory_run :: "InMemoryStorage \<Rightarrow> Event list \<Rightarrow> InMemoryStorage \<times> (go_error + bool) list" where
  "memory_run s [] = (s, [])"
| "memory_run s (e # es) =
     (case Store s (Some e) of (s', r) \<Rightarrow> (case memory_run s' es of (s'', rs) \<Rightarrow> (s'', r # rs)))"

text \<open>No call fails, and every event of \<open>U\<close> can be marshalled.\<close>

definition fault_free :: "('db, 'it) pebble \<Rightarrow> Event set \<Rightarrow> bool" where
  "fault_free P U \<longleftrightarrow> (\<forall>db k err. kvGet P db k \<noteq> GetError err) \<and> (\<forall>b op. kvStage P b op = None) \<and>
     (\<forall>db b. snd (kvCommit P db b) = None) \<and> (\<forall>db lo up err. kvNewIter P db lo up \<noteq> Inl err) \<and>
     (\<forall>e \<in> U. \<forall>err. marshalEvent e \<noteq> Inl err)"

lemma memory_run_ok: "storage_ok s \<Longrightarrow> storage_ok (fst (memory_run s es))"
proof (induction es arbitrary: s)
  case (Cons e es)
  from Cons.IH[OF Store_ok[OF Cons.prems, of "Some e"]] show ?case by (simp add: split_beta)
qed simp

lemma query_result_unique:
  assumes "query_result E fs xs" "query_result E fs ys" shows "xs = ys"
proof -
  let ?R = "\<lambda>a b. event_key a < event_key b"
  have "as = bs" if "sorted_wrt ?R as" "sorted_wrt ?R bs" "set as = set bs" for as bs
  proof -
    have s: "sorted_wrt (<) (map event_key as)" "sorted_wrt (<) (map event_key bs)" using that by (simp_all add: sorted_wrt_map)
    moreover have "set (map event_key as) = set (map event_key bs)" using that(3) by simp
    ultimately have eq: "map event_key as = map event_key bs" by (intro strict_sorted_equal[symmetric]) auto
    have "inj_on event_key (set as \<union> set bs)" using s(1) that(3) by (simp add: strict_sorted_iff distinct_map)
    with eq show ?thesis by (rule map_inj_on)
  qed
  note eq = this
  obtain as bs where as: "set as = {e \<in> E. matchesAny fs e}" "sorted_wrt ?R as" "xs = limited (limit_of fs) as"
    and bs: "set bs = {e \<in> E. matchesAny fs e}" "sorted_wrt ?R bs" "ys = limited (limit_of fs) bs"
    using assms unfolding query_result_def by blast
  have "as = bs" by (rule eq[OF as(2) bs(2)]) (simp only: as(1) bs(1))
  with as(3) bs(3) show ?thesis by simp
qed

section \<open>Calls that do not fail\<close>

lemma fault_freeD:
  assumes "fault_free P U"
  shows "kvGet P db k \<noteq> GetError err" "kvStage P b op = None" "snd (kvCommit P db b) = None"
    "kvNewIter P db lo up \<noteq> Inl err" "e \<in> U \<Longrightarrow> marshalEvent e \<noteq> Inl err"
  using assms by (simp_all add: fault_free_def)

lemma fault_free_stage: "fault_free P U \<Longrightarrow> stage P b op = Inr (b @ [op])"
  by (simp add: stage_def fault_freeD(2))

lemma fault_free_stage_all: "fault_free P U \<Longrightarrow> stage_all P b ops = Inr (b @ ops)"
  by (induction ops arbitrary: b) (simp_all add: fault_free_stage)

lemma fault_free_getEventByID:
  assumes ff: "fault_free P U" and kv: "kv_laws P contents view" and g: "good_events C U A"
    and r: "represents U (contents db) E"
  shows "getEventByID P db i \<noteq> Inl err"
proof (cases "kvGet P db (makeEventKey i)")
  case (Got v)
  have "makeEventKey i = makeEventKey (copy_into 32 i)" by (simp add: makeEventKey_def)
  then have "contents db (makeEventKey (copy_into 32 i)) = Some v" using kvGet_law(1)[OF kv Got] by simp
  then obtain e where e: "e \<in> E" "v = projr (marshalEvent e)"
    using event_key_bound[OF g r, of "copy_into 32 i"] by auto
  have "e \<in> U" using e(1) r by (auto simp: represents_def)
  then obtain j where "marshalEvent e = Inr j" using fault_freeD(5)[OF ff] by (cases "marshalEvent e") auto
  with good_eventsD(5)[OF g \<open>e \<in> U\<close>] e(2) Got show ?thesis by (simp add: getEventByID_def)
qed (use fault_freeD(1)[OF ff] in \<open>auto simp: getEventByID_def\<close>)

lemma fault_free_getDeletionRecord: "fault_free P U \<Longrightarrow> getDeletionRecord P db p k \<noteq> Inl err"
  using fault_freeD(1)[of P U db "makeDeletionKey p k"]
  by (cases "kvGet P db (makeDeletionKey p k)") (auto simp: getDeletionRecord_def)

lemma and_then_Inl: "and_then r f = Inl e \<longleftrightarrow> r = Inl e \<or> (\<exists>x. r = Inr x \<and> f x = Inl e)"
  by (cases r) auto

lemma fault_free_address_deleted: "fault_free P U \<Longrightarrow> address_deleted P C db e \<noteq> Inl err"
  using fault_free_getDeletionRecord[of P U db] by (auto simp: address_deleted_def and_then_Inl)

lemma fault_free_deleteEventFromBatch:
  assumes "fault_free P U" "kv_laws P contents view" "good_events C U A" "represents U (contents db) E"
  shows "deleteEventFromBatch P db b i \<noteq> Inl err"
  using fault_free_getEventByID[OF assms, of i] fault_free_stage_all[OF assms(1)]
  by (auto simp: deleteEventFromBatch_def and_then_Inl split: option.splits simp del: stage_all.simps)

lemma fault_free_kind5_tag:
  assumes ff: "fault_free P U" "kv_laws P contents view" "good_events C U A" "represents U (contents db) E"
  shows "kind5_tag P C db event val b tag \<noteq> Some (Inl err)"
proof -
  note get = fault_free_getEventByID[OF ff] and del = fault_free_deleteEventFromBatch[OF ff]
  note st = fault_free_stage[OF ff(1)]
  have e: "kind5_etag P db event val b i \<noteq> Inl err" for i
    using get del by (auto simp: kind5_etag_def and_then_Inl st split: option.splits)
  have a: "kind5_atag P C db event val b i \<noteq> Inl err" for i
    using get del fault_freeD(1)[OF ff(1)]
    by (auto simp: kind5_atag_def Let_def and_then_Inl st split: option.splits kv_result.splits)
  show ?thesis using e a by (auto simp: kind5_tag_def)
qed

lemma fault_free_kind5_tags:
  assumes ff: "fault_free P U" "kv_laws P contents view" "good_events C U A" "represents U (contents db) E"
  shows "kind5_tags P C db event val b ts \<noteq> Some (Inl err)"
  using fault_free_kind5_tag[OF ff]
  by (induction ts arbitrary: b) (auto split: option.splits sum.splits)

lemma fault_free_processKind5:
  assumes ff: "fault_free P U" "kv_laws P contents view" "good_events C U A" "represents U (contents db) E"
    and step: "Pebble_processKind5 P C db event = Some (db', r)"
  shows "r = None"
  using step fault_free_kind5_tags[OF ff] fault_freeD(3)[OF ff(1)]
  unfolding Pebble_processKind5_def by (auto split: option.splits sum.splits) (metis snd_conv)

lemma fault_free_store_write:
  assumes ff: "fault_free P U" "kv_laws P contents view" "good_events C U A" "represents U (contents db) E"
    and e: "e \<in> U"
  shows "snd (store_write P C db e i) \<noteq> Inl err"
proof -
  have chk: "check_replaceable P C db e \<noteq> Inl err" for err
    using fault_free_getEventByID[OF ff] fault_freeD(1)[OF ff(1)]
    by (auto simp: check_replaceable_def and_then_Inl split: kv_result.splits)
  have w: "write_batch P C db e i j old \<noteq> Inl err" for j old err
    using fault_free_deleteEventFromBatch[OF ff]
    by (auto simp: write_batch_def and_then_Inl fault_free_stage_all[OF ff(1)] split: option.splits simp del: stage_all.simps)
  have m: "and_then (marshalEvent e) (\<lambda>j. write_batch P C db e i j old) \<noteq> Inl err" for old err
    using w fault_freeD(5)[OF ff(1) e] by (auto simp: and_then_Inl)
  have c: "kvCommit P db b = (db', r) \<Longrightarrow> r = None" for b db' r using fault_freeD(3)[OF ff(1), of db b] by simp
  show ?thesis
    using chk m by (auto simp: store_write_def split: sum.splits replace_check.splits prod.splits option.splits dest: c)
qed

lemma fault_free_Store:
  assumes ff: "fault_free P U" and kv: "kv_laws P contents view" and g: "good_events C U A"
    and S: "sim C U A (contents db) s" and e: "e \<in> U"
    and step: "Pebble_Store P C db (Some e) = Some (db', r)"
  shows "r \<noteq> Inl err"
proof
  assume r: "r = Inl err"
  have rep: "represents U (contents db) (set (events s))" using S by (simp add: sim_def)
  note h = idb_props(2)[OF g e]
  have "store_checked P C db e (idb e) = Some (db', Inl err)"
    using step h r fault_freeD(1)[OF ff] fault_free_getDeletionRecord[OF ff, of db]
    by (auto simp: Pebble_Store_def split: kv_result.splits sum.splits if_splits)
  then obtain db1 where k: "store_write P C db1 e (idb e) = (db', Inl err)"
    "db1 = db \<or> Kind e = 5 \<and> Pebble_processKind5 P C db e = Some (db1, None)"
    using fault_free_address_deleted[OF ff, of C db e] fault_free_processKind5[OF ff kv g rep, of e]
    unfolding store_checked_def by (auto split: sum.splits bool.splits if_splits option.splits)
  from k(2) have "\<exists>E. represents U (contents db1) E"
    using rep processKind5_sim[OF kv g S e, of db1 None] by (auto simp: sim_def)
  with fault_free_store_write[OF ff kv g _ e, of db1] k(1) show False by (metis snd_conv)
qed

section \<open>Queries that do not fail\<close>

lemma fault_free_scan: "fault_free P U \<Longrightarrow> scan P db pfx nxt f \<noteq> Some (Inl err)"
  using fault_freeD(4)[of P U] by (auto simp: scan_def split: sum.splits)

lemma fault_free_field_cursors: "fault_free P U \<Longrightarrow> field_cursors P db f hs \<noteq> Some (Inl err)"
proof (induction hs)
  case (Cons h hs)
  then have "newFieldIndexCursor P db f h \<noteq> Some (Inl err)" for err
    using fault_free_scan[of P U] by (simp add: newFieldIndexCursor_def Let_def)
  with Cons show ?case by (auto split: option.splits sum.splits)
qed simp

lemma fault_free_condition_cursors: "fault_free P U \<Longrightarrow> condition_cursors P db f hss \<noteq> Some (Inl err)"
  using fault_free_field_cursors[of P U db f] by (induction hss) (auto split: option.splits sum.splits)

lemma fault_free_ids_entries:
  assumes ff: "fault_free P U" "kv_laws P contents view" "good_events C U A" "represents U (contents db) E"
  shows "ids_entries P db ids \<noteq> Some (Inl err)"
  using fault_free_getEventByID[OF ff] by (induction ids) (auto split: option.splits sum.splits)

lemma fault_free_buildFilterCursor:
  assumes ff: "fault_free P U" "kv_laws P contents view" "good_events C U A" "represents U (contents db) E"
  shows "buildFilterCursor P db f \<noteq> Some (Inl err)"
proof -
  have "newCreatedAtCursor P db f \<noteq> Some (Inl err)" for err
    using fault_free_scan[OF ff(1)] by (simp add: newCreatedAtCursor_def)
  with fault_free_ids_entries[OF ff] fault_free_condition_cursors[OF ff(1)] show ?thesis
    by (auto simp: buildFilterCursor_def buildIDsCursor_def and_then_Inl split: option.splits sum.splits if_splits)
qed

lemma fault_free_filter_heap:
  assumes ff: "fault_free P U" "kv_laws P contents view" "good_events C U A" "represents U (contents db) E"
  shows "filter_heap P db fh fs \<noteq> Some (Inl err)"
  using fault_free_buildFilterCursor[OF ff]
  by (induction fs arbitrary: fh) (auto split: option.splits sum.splits)

lemma query_round_no_error: "(\<And>i err. get i \<noteq> Inl err) \<Longrightarrow> query_round ops get seen fh \<noteq> Some (ReadFailed err)"
  by (auto simp: query_round_def Let_def split: prod.splits option.splits sum.splits if_splits)

lemma query_loop_no_error:
  assumes "query_loop ops get limit cnt seen fh = Some res" "\<forall>i err. get i \<noteq> Inl err"
  shows "snd res = None"
  using assms
proof (induction ops get limit cnt seen fh res rule: query_loop.raw_induct[rotated 1, consumes 1, case_names 1])
  case (1 loop ops get limit cnt seen fh res)
  have IH: "snd r = None" if "loop ops get limit n S h = Some r" for n S h r
    using 1(1)[OF that] 1 by blast
  show ?case
  proof (cases "length fh = 0 \<or> limit \<ge> 0 \<and> cnt \<ge> limit")
    case True
    with 1 show ?thesis by (auto split: if_splits)
  next
    case False
    with 1 query_round_no_error[of get ops seen fh] show ?thesis
      by (auto split: option.splits query_round.splits if_splits dest!: IH simp: bind_eq_Some_conv)
  qed
qed

lemma fault_free_Query:
  assumes ff: "fault_free P U" "kv_laws P contents view" "good_events C U A" "represents U (contents db) E"
    and q: "Pebble_Query P db filters = Some (es, err)"
  shows "err = None"
proof (cases "filters = []")
  case False
  with q fault_free_filter_heap[OF ff] obtain fh where
    "query_loop (query_ops (index_ops P)) (getEventByID P db) (limit_of filters) 0 {} fh = Some (es, err)"
    by (auto simp: Pebble_Query_def split: option.splits sum.splits)
  from query_loop_no_error[OF this] fault_free_getEventByID[OF ff] show ?thesis by simp
qed (use q in \<open>simp add: Pebble_Query_def\<close>)

section \<open>Runs\<close>

lemma good_lengths:
  "good_events C U A \<Longrightarrow> e \<in> U \<Longrightarrow> 64 \<le> length (ID e) \<and> 64 \<le> length (Pubkey e)"
  using good_eventsD(1,2)[of C U A e] by (simp add: isValidLowercaseHex_def split: if_splits)

lemma pebble_run_memory:
  assumes kv: "kv_laws P contents view" and g: "good_events C U A" and ff: "fault_free P U"
  shows "sim C U A (contents db) s \<Longrightarrow> storage_ok s \<Longrightarrow> set es \<subseteq> U \<Longrightarrow>
    \<exists>db'. pebble_run P C db es = Some (db', snd (memory_run s es)) \<and> sim C U A (contents db') (fst (memory_run s es))"
proof (induction es arbitrary: db s)
  case (Cons e es)
  then have e: "e \<in> U" by simp
  obtain db1 r where st: "Pebble_Store P C db (Some e) = Some (db1, r)"
    using Pebble_Store_total[of e P C db] good_lengths[OF g e] by blast
  from fault_free_Store[OF ff kv g Cons.prems(1) e st] obtain b where r: "r = Inr b" by (cases r) auto
  from Pebble_Store_sim[OF kv g Cons.prems(1,2) e st] have S: "sim C U A (contents db1) (fst (Store s (Some e)))"
    and b: "r = snd (Store s (Some e))" by (simp_all add: same_as_memory_def r)
  from Cons.IH[OF S Store_ok[OF Cons.prems(2)]] Cons.prems(3) obtain db' where
    "pebble_run P C db1 es = Some (db', snd (memory_run (fst (Store s (Some e))) es))"
    "sim C U A (contents db') (fst (memory_run (fst (Store s (Some e))) es))" by auto
  with st b show ?case by (simp add: split_beta)
qed simp


section \<open>A store that meets the laws\<close>

text \<open>
  An association list with iterators that hold their keys and a position.
\<close>

fun list_apply :: "batch_op \<Rightarrow> (string \<times> string) list \<Rightarrow> (string \<times> string) list" where
  "list_apply (BSet k v) db = (k, v) # db"
| "list_apply (BDelete k) db = filter (\<lambda>p. fst p \<noteq> k) db"

definition list_pebble :: "((string \<times> string) list, string list \<times> nat) pebble" where
  "list_pebble =
     \<lparr>itFirst = (\<lambda>(xs, p). ((xs, 0), xs \<noteq> [])),
      itNext = (\<lambda>(xs, p). ((xs, Suc p), Suc p < length xs)),
      itSeekGE = (\<lambda>k (xs, p). let q = length (takeWhile (\<lambda>x. x < k) xs) in ((xs, q), q < length xs)),
      itKey = (\<lambda>(xs, p). xs ! p),
      kvGet = (\<lambda>db k. case map_of db k of None \<Rightarrow> ErrNotFound | Some v \<Rightarrow> Got v),
      kvStage = (\<lambda>b op. None),
      kvCommit = (\<lambda>db b. (foldl (\<lambda>d op. list_apply op d) db b, None)),
      kvNewIter = (\<lambda>db lo up. Inr (sort (remdups (filter (\<lambda>k. lo \<le> k \<and> k < up) (map fst db))), 0))\<rparr>"

lemma map_of_list_apply: "map_of (list_apply op db) = apply_op op (map_of db)"
proof (cases op)
  case (BDelete k)
  have "map_of (filter (\<lambda>p. fst p \<noteq> k) db) = (map_of db)(k := None)" by (induction db) auto
  with BDelete show ?thesis by simp
qed simp

lemma map_of_list_commit: "map_of (foldl (\<lambda>d op. list_apply op d) db b) = apply_batch b (map_of db)"
  by (induction b arbitrary: db) (simp_all add: map_of_list_apply)

lemma list_iter_laws: "iter_laws list_pebble (\<lambda>it. it)"
  by (auto simp: iter_laws_def list_pebble_def Let_def)

lemma list_keys: "sorted_wrt (<) (sort (remdups (filter Q (map fst db)) :: string list))"
  by (simp add: strict_sorted_iff)

lemma list_pebble_laws: "kv_laws list_pebble map_of (\<lambda>it. it)"
  unfolding kv_laws_def
proof (intro conjI allI impI)
  fix db lo up it
  assume "kvNewIter list_pebble db lo up = Inr it"
  then have it: "fst it = sort (remdups (filter (\<lambda>k. lo \<le> k \<and> k < up) (map fst db)))" by (auto simp: list_pebble_def)
  show "sorted_wrt (<) (fst it)" unfolding it by (rule list_keys)
  show "set (fst it) = {k \<in> dom (map_of db). lo \<le> k \<and> k < up}" unfolding it by (auto simp: dom_map_of_conv_image_fst)
next
  show "iter_laws list_pebble (\<lambda>it. it)" by (rule list_iter_laws)
qed (simp_all add: list_pebble_def map_of_list_commit split: option.splits)

lemma list_pebble_fault_free: "(\<And>e. e \<in> U \<Longrightarrow> event_ok e) \<Longrightarrow> fault_free list_pebble U"
  using event_ok_coded by (fastforce simp: fault_free_def list_pebble_def split: option.splits)

text \<open>The same store on a full disk: no commit succeeds.\<close>

definition full_pebble :: "((string \<times> string) list, string list \<times> nat) pebble" where
  "full_pebble = list_pebble\<lparr>kvCommit := (\<lambda>db b. (db, Some (Error ''no space left on device'')))\<rparr>"

lemma full_pebble_laws: "kv_laws full_pebble map_of (\<lambda>it. it)"
proof -
  have "iter_laws full_pebble (\<lambda>it. it) = iter_laws list_pebble (\<lambda>it. it)"
    by (simp add: iter_laws_def full_pebble_def)
  with list_pebble_laws show ?thesis by (simp add: kv_laws_def full_pebble_def)
qed

text \<open>Two versions of a profile and a request to delete the newer one.\<close>

definition sample_crypto :: "(unit, unit) crypto" where
  "sample_crypto = \<lparr>sha256 = (\<lambda>_. replicate 32 (CHR ''h'')), ParsePubKey = (\<lambda>_. None), ParseSignature = (\<lambda>_. None), sigVerify = (\<lambda>_ _ _. False)\<rparr>"

definition hex64 :: "char \<Rightarrow> string" where
  "hex64 c = replicate 64 c"

definition sample_events :: "Event list" where
  "sample_events =
     [mk_event (hex64 (CHR ''a'')) (hex64 (CHR ''e'')) 7 0 [],
      mk_event (hex64 (CHR ''b'')) (hex64 (CHR ''e'')) 8 0 [],
      mk_event (hex64 (CHR ''c'')) (hex64 (CHR ''e'')) 9 5 [[''e'', hex64 (CHR ''b'')]]]"

definition sample_addresses :: "string set" where
  "sample_addresses = {''0:'' @ hex64 (CHR ''e'') @ '':''}"

lemma hex64_inject [simp]: "hex64 c = hex64 d \<longleftrightarrow> c = d"
  by (simp only: hex64_def replicate_eq_replicate) simp

lemma hex64_valid [simp]: "c \<in> set ''abcdef'' \<Longrightarrow> isValidLowercaseHex (hex64 c) 64"
  by (auto simp: hex64_def isValidLowercaseHex_def list_all_iff less_eq_char_def)

lemma sample_address:
  "Address_of (mk_event i p t 0 []) = ''0:'' @ p @ '':''" "Address_of (mk_event i p t 5 ts) = ''''"
  by (simp_all add: Address_of_def eventType_def eventType_of_kind_def FormatInt_def nat_digits.simps)

lemma sample_events_ok: "e \<in> set sample_events \<Longrightarrow> event_ok e"
proof -
  have u: "utf8_valid (hex64 c)" if "byte_of c < 128" for c using that by (intro utf8_valid_ascii) (simp add: hex64_def)
  have t: "Unix (7 * nsPerSec) = 7" "time_Unix 7 = 7 * nsPerSec" "Unix (8 * nsPerSec) = 8" "time_Unix 8 = 8 * nsPerSec"
    "Unix (9 * nsPerSec) = 9" "time_Unix 9 = 9 * nsPerSec" "int64 0" "int64 5"
    by (simp_all add: Unix_def wrap64_id int64_def time_Unix_ordinary unixToInternal_def)
  then show "e \<in> set sample_events \<Longrightarrow> event_ok e"
    by (auto simp: sample_events_def event_ok_def utf8_event u utf8_valid_ascii mk_event_def)
qed

lemma sample_good:
  "good_events sample_crypto (set sample_events) sample_addresses"
proof -
  have t: "int64 7" "int64 8" "int64 9" by (simp_all add: int64_def)
  have coded: "case marshalEvent e of Inr j \<Rightarrow> unmarshalEvent j = Inr e | Inl _ \<Rightarrow> True" if "e \<in> set sample_events" for e
    using event_ok_coded[OF sample_events_ok[OF that]] by auto
  have "good_event sample_addresses e" if e: "e \<in> set sample_events" for e
    unfolding good_event_def using coded[OF e] e t
    by (auto simp: sample_events_def sample_addresses_def sample_address)
  moreover have "inj_on ID (set sample_events)" by (simp add: sample_events_def)
  ultimately show ?thesis by (simp add: good_events_def hashAddress_def sample_crypto_def sample_addresses_def)
qed

text \<open>
  An \<^verbatim>\<open>e\<close> tag in upper case names, for the persistent storage, the event whose identifier is in lower
  case: its digits are decoded. The in-memory storage compares the texts.
\<close>

lemma etag_any_case:
  "hexToBytes32 (replicate 64 (CHR ''A'')) = hexToBytes32 (hex64 (CHR ''a''))" "replicate 64 (CHR ''A'') \<noteq> hex64 (CHR ''a'')"
proof -
  show "replicate 64 (CHR ''A'') \<noteq> hex64 (CHR ''a'')" by (simp add: hex64_def)
  show "hexToBytes32 (replicate 64 (CHR ''A'')) = hexToBytes32 (hex64 (CHR ''a''))"
    by (simp add: hexToBytes32_def hex64_def hexByte_def in_range_def)
qed

section \<open>Properties\<close>

text \<open>
  C35. On a database whose calls do not fail, the persistent storage answers like the in-memory storage:
  after any sequence of submissions of such events as a relay with strict clients sees, deletion requests and replaceable
  events included, every submission was answered the same and every query yields the same list. No call
  panics or loops. The conditions on the events are \<open>good_events\<close>: an identifier determines its event, identifiers and
  public keys are lower-case hexadecimal, times are whole \<^verbatim>\<open>int64\<close> seconds, the full-length \<^verbatim>\<open>e\<close> tags of a deletion
  request are lower-case identifiers other than its own, its \<^verbatim>\<open>a\<close> tags are not empty, and the hash does
  not confuse their addresses. The conditions on the filters are \<open>time_ok\<close>: bounds within \<^verbatim>\<open>int64\<close>, and a \<^verbatim>\<open>since\<close>
  above the least one. Outside them the two storages differ (\<open>etag_any_case\<close>, \<open>least_since_finds_nothing\<close>).
\<close>

theorem pebble_same_as_memory:
  assumes "kv_laws P contents view" and "good_events C U A" and "fault_free P U"
    and "contents db0 = Map.empty" and "set es \<subseteq> U" and "\<forall>f \<in> set filters. time_ok f"
  shows "\<exists>db. pebble_run P C db0 es = Some (db, snd (memory_run NewInMemoryStorage es)) \<and>
    Pebble_Query P db filters = Some (Query (fst (memory_run NewInMemoryStorage es)) filters)"
proof -
  let ?s = "fst (memory_run NewInMemoryStorage es)"
  have S0: "sim C U A (contents db0) NewInMemoryStorage" using sim_empty assms(4) by metis
  from pebble_run_memory[OF assms(1-3) S0 storage_ok_new assms(5)] obtain db where
    run: "pebble_run P C db0 es = Some (db, snd (memory_run NewInMemoryStorage es))" and S: "sim C U A (contents db) ?s" by blast
  have rep: "represents U (contents db) (set (events ?s))" using S by (simp add: sim_def)
  from Pebble_Query_spec[OF assms(1,2) rep assms(6)] obtain qs err where
    q: "Pebble_Query P db filters = Some (qs, err)" "err = None \<longrightarrow> query_result (set (events ?s)) filters qs" by blast
  have "err = None" by (rule fault_free_Query[OF assms(3,1,2) rep q(1)])
  moreover have "query_result (set (events ?s)) filters (Query_events ?s filters)"
    using mem.query_ok[OF memory_run_ok[OF storage_ok_new, of es], of filters] by (simp add: Query_def)
  ultimately have "qs = Query_events ?s filters" "err = None" using q(2) query_result_unique by blast+
  with run q(1) show ?thesis by (simp add: Query_def)
qed

theorem pebble_same_as_memory_witness:
  "\<exists>db. pebble_run list_pebble sample_crypto [] sample_events =
      Some (db, snd (memory_run NewInMemoryStorage sample_events)) \<and>
    Pebble_Query list_pebble db [empty_filter] =
      Some (Query (fst (memory_run NewInMemoryStorage sample_events)) [empty_filter])"
  by (rule pebble_same_as_memory[OF list_pebble_laws sample_good list_pebble_fault_free[OF sample_events_ok]])
    (simp_all add: time_ok_def empty_filter_def fun_eq_iff)

text \<open>
  C36. A call of \<^verbatim>\<open>Store\<close> whose database calls may fail: without error it does and answers what the in-memory
  storage does; with an error the database is as before, or as after the call, or, for a deletion
  request, as after its deletions without the request itself.
\<close>

theorem pebble_failed_store:
  assumes "kv_laws P contents view" and "good_events C U A" and "sim C U A (contents db) s" and "storage_ok s"
    and "event \<in> U"
  shows "\<exists>db' r. Pebble_Store P C db (Some event) = Some (db', r) \<and>
    (case r of Inr b \<Rightarrow> sim C U A (contents db') (fst (Store_event s event)) \<and> b = snd (Store_event s event)
     | Inl err \<Rightarrow> sim C U A (contents db') s \<or> Kind event = 5 \<and> sim C U A (contents db') (processKind5 s event) \<or>
         sim C U A (contents db') (fst (Store_event s event)))"
proof -
  obtain db' r where st: "Pebble_Store P C db (Some event) = Some (db', r)"
    using Pebble_Store_total[of event P C db] good_lengths[OF assms(2,5)] by blast
  from Pebble_Store_sim[OF assms st] st show ?thesis unfolding same_as_memory_def by blast
qed

theorem pebble_failed_store_witness:
  "\<exists>db' r. Pebble_Store full_pebble sample_crypto [] (Some (sample_events ! 2)) = Some (db', r)"
proof -
  have g: "good_events sample_crypto (set sample_events) sample_addresses"
    by (rule sample_good)
  have "sim sample_crypto (set sample_events) sample_addresses (map_of []) NewInMemoryStorage"
    using sim_empty by (simp add: fun_eq_iff)
  moreover have "sample_events ! 2 \<in> set sample_events" by (simp add: sample_events_def)
  ultimately show ?thesis using pebble_failed_store[OF full_pebble_laws g _ storage_ok_new] by blast
qed



text \<open>
  C38. The byte order of the index keys is the order of query results: of two keys of the time index,
  or of one field in the field index, the one of the newer event is smaller, and within a second
  the one of the smaller identifier. \<^verbatim>\<open>bytesLess\<close> is the order of the database.
\<close>

theorem index_key_order:
  assumes "isValidLowercaseHex i 64" and "isValidLowercaseHex j 64" and "int64 s" and "int64 t"
    and "hexToBytes32 i = Some a" and "hexToBytes32 j = Some b"
  shows "bytesLess (makeCreatedAtKey (invertTimestamp s) a) (makeCreatedAtKey (invertTimestamp t) b) = (t < s \<or> s = t \<and> i < j) \<and>
    bytesLess (makeFieldKey h (invertTimestamp s) a) (makeFieldKey h (invertTimestamp t) b) = (t < s \<or> s = t \<and> i < j)"
proof -
  have ab: "a = hex_bytes i" "b = hex_bytes j" "length a = 32" "length b = 32"
    using lowercase_hex_bytes[OF assms(1)] lowercase_hex_bytes[OF assms(2)] assms(5,6) by simp_all
  have "PutUint64 (invertTimestamp s) @ a < PutUint64 (invertTimestamp t) @ b \<longleftrightarrow> t < s \<or> s = t \<and> i < j"
    using assms(3,4) hex_bytes_less[OF assms(1,2)] by (auto simp: append_less_append ab(1,2))
  then show ?thesis
    using ab(3,4) by (simp add: bytesLess_less makeCreatedAtKey_def makeFieldKey_def append_less_append)
qed

theorem index_key_order_witness:
  "bytesLess (makeCreatedAtKey (invertTimestamp (- 5)) (hex_bytes (hex64 (CHR ''a'')))) (makeCreatedAtKey (invertTimestamp (- 6)) (hex_bytes (hex64 (CHR ''b''))))"
  using index_key_order[of "hex64 (CHR ''a'')" "hex64 (CHR ''b'')" "- 5" "- 6"] by (simp add: lowercase_hex_bytes int64_def)

text \<open>
  C39. Identifiers, public keys and times survive their storage as bytes: 32 bytes and 64 lower-case
  hexadecimal digits are converted into each other without loss, and the deletion record that a
  deletion request writes is read back as its author and its time.
\<close>

theorem deletion_record_round_trip:
  assumes "length b = 32" and "isValidLowercaseHex (Pubkey event) 64" and "int64 (Unix (CreatedAt event))"
    and "hexToBytes32 (Pubkey event) = Some pk"
    and "kvGet P db (makeDeletionKey pfx k) = Got (kind5_value event pk)"
  shows "hexToBytes32 (bytesToHex b) = Some b \<and> isValidLowercaseHex (bytesToHex b) 64 \<and> bytesToHex pk = Pubkey event \<and>
    getDeletionRecord P db pfx k = Inr (Some \<lparr>recPubkey = Pubkey event, recCreatedAt = Unix (CreatedAt event)\<rparr>)"
proof -
  note h = lowercase_hex_bytes[OF assms(2)]
  have pk: "pk = hex_bytes (Pubkey event)" using h(1) assms(4) by simp
  have "sint (word_of_int (Unix (CreatedAt event)) :: 64 word) = Unix (CreatedAt event)"
    using assms(3) by (simp add: sint_word_of_int64)
  then have "getDeletionRecord P db pfx k = Inr (Some \<lparr>recPubkey = Pubkey event, recCreatedAt = Unix (CreatedAt event)\<rparr>)"
    using h pk assms(5) by (simp add: getDeletionRecord_def kind5_value_def)
  moreover have "isValidLowercaseHex (bytesToHex b) 64" using valid_bytesToHex[of b] assms(1) by simp
  ultimately show ?thesis using h pk hexToBytes32_Encode[OF assms(1)] by (simp add: bytesToHex_Encode)
qed

theorem deletion_record_round_trip_witness:
  "getDeletionRecord list_pebble
     [(makeDeletionKey prefixDeletedID (hex_bytes (hex64 (CHR ''b''))), kind5_value (sample_events ! 2) (hex_bytes (hex64 (CHR ''e''))))]
     prefixDeletedID (hex_bytes (hex64 (CHR ''b''))) = Inr (Some \<lparr>recPubkey = hex64 (CHR ''e''), recCreatedAt = 9\<rparr>)"
proof -
  let ?d = "sample_events ! 2" and ?db = "[(makeDeletionKey prefixDeletedID (hex_bytes (hex64 (CHR ''b''))), kind5_value (sample_events ! 2) (hex_bytes (hex64 (CHR ''e''))))]"
  have d: "Pubkey ?d = hex64 (CHR ''e'')" "Unix (CreatedAt ?d) = 9"
    by (simp_all add: sample_events_def Unix_def wrap64_id int64_def)
  then have "getDeletionRecord list_pebble ?db prefixDeletedID (hex_bytes (hex64 (CHR ''b''))) =
      Inr (Some \<lparr>recPubkey = Pubkey ?d, recCreatedAt = Unix (CreatedAt ?d)\<rparr>)"
    using deletion_record_round_trip[of "replicate 32 (CHR ''x'')" ?d "hex_bytes (hex64 (CHR ''e''))"
        "list_pebble" ?db prefixDeletedID "hex_bytes (hex64 (CHR ''b''))"]
    by (simp add: int64_def lowercase_hex_bytes list_pebble_def)
  with d show ?thesis by simp
qed

section \<open>Scans that deliver nothing\<close>

text \<open>
  A cursor whose first positioning returns false is not valid, whatever the reason, and a filter all of whose
  cursors are like that contributes nothing to the query.
\<close>

definition index_prefixes :: "string set" where
  "index_prefixes = insert [prefixCreatedAt] (range (\<lambda>h. prefixField # PutUint64 h))"

definition dead_scan :: "('db, 'it) pebble \<Rightarrow> 'db \<Rightarrow> ReqFilter \<Rightarrow> bool" where
  "dead_scan P db f \<longleftrightarrow> (\<forall>pfx\<in>index_prefixes. \<forall>nxt. \<exists>it.
     kvNewIter P db (lower_bound pfx f) (upper_bound pfx nxt f) = Inr it \<and> \<not> snd (itFirst P it))"

lemma dead_scanD:
  assumes "dead_scan P db f" "pfx \<in> index_prefixes"
  shows "\<exists>cur. scan P db pfx nxt f = Some (Inr cur) \<and> \<not> curValid cur"
proof -
  obtain it where "kvNewIter P db (lower_bound pfx f) (upper_bound pfx nxt f) = Inr it" "\<not> snd (itFirst P it)"
    using assms unfolding dead_scan_def by blast
  then show ?thesis by (simp add: scan_def newIndexCursor_def Let_def split_beta)
qed

lemma dead_field_cursors:
  assumes "dead_scan P db f"
  shows "\<exists>cs. field_cursors P db f hs = Some (Inr cs) \<and> list_all (\<lambda>c. \<not> curValid c) cs"
proof (induction hs)
  case (Cons h hs)
  obtain cur where "newFieldIndexCursor P db f h = Some (Inr cur)" "\<not> curValid cur"
    using dead_scanD[OF assms, of "prefixField # PutUint64 h"] by (auto simp: newFieldIndexCursor_def Let_def index_prefixes_def)
  with Cons show ?case by auto
qed simp

lemma dead_wrapCursors:
  assumes "list_all (\<lambda>c. \<not> curValid c) cs"
  shows "\<not> cValid (wrapped_ops (index_ops P)) (wrapCursors (index_ops P) cs)"
proof -
  have "filter (cValid (index_ops P)) cs = []" using assms by (simp add: filter_empty_conv list_all_iff index_ops_def)
  moreover have "length cs = 1 \<Longrightarrow> \<not> curValid (cs ! 0)" using assms by (simp add: list_all_length)
  ultimately show ?thesis by (simp add: wrapCursors_def wrapped_ops_def newUnionCursor_def heap_init_def index_ops_def)
qed

lemma dead_condition_cursors:
  assumes "dead_scan P db f"
  shows "\<exists>ws. condition_cursors P db f hss = Some (Inr ws) \<and> list_all (\<lambda>w. \<not> cValid (wrapped_ops (index_ops P)) w) ws"
proof (induction hss)
  case (Cons hs hss)
  obtain cs where "field_cursors P db f hs = Some (Inr cs)" "list_all (\<lambda>c. \<not> curValid c) cs"
    using dead_field_cursors[OF assms] by blast
  with Cons dead_wrapCursors[of cs P] show ?case by auto
qed simp

lemma dead_buildFilterCursor:
  assumes "dead_scan P db f" "elems (IDs f) = []"
  shows "\<exists>c. buildFilterCursor P db f = Some (Inr (Some c)) \<and> \<not> cValid (query_ops (index_ops P)) c"
proof -
  obtain ws where ws: "condition_cursors P db f (conditions f) = Some (Inr ws)"
    "list_all (\<lambda>w. \<not> cValid (wrapped_ops (index_ops P)) w) ws" using dead_condition_cursors[OF assms(1)] by blast
  consider "ws = []" | w where "ws = [w]" | w w' ws' where "ws = w # w' # ws'" by (metis neq_Nil_conv)
  then show ?thesis
  proof cases
    case 1
    obtain cur where "newCreatedAtCursor P db f = Some (Inr cur)" "\<not> curValid cur"
      using dead_scanD[OF assms(1), of "[prefixCreatedAt]"] by (auto simp: newCreatedAtCursor_def index_prefixes_def)
    with 1 ws assms(2) show ?thesis by (simp add: buildFilterCursor_def query_ops_def wrapped_ops_def index_ops_def)
  next
    case 2
    with ws assms(2) show ?thesis by (simp add: buildFilterCursor_def query_ops_def)
  next
    case 3
    then have "\<not> list_all (cValid (wrapped_ops (index_ops P))) ws" using ws(2) by simp
    then have "findMatch (wrapped_ops (index_ops P)) ws = Some (ws, False)" by (simp add: findMatch.simps)
    with 3 ws assms(2) show ?thesis
      by (simp add: buildFilterCursor_def newIntersectCursor_def matched_def query_ops_def intersect_ops_def)
  qed
qed

lemma dead_filter_heap:
  "list_all (\<lambda>f. dead_scan P db f \<and> elems (IDs f) = []) fs \<Longrightarrow> filter_heap P db fh fs = Some (Inr fh)"
proof (induction fs)
  case (Cons f fs)
  then obtain c where "buildFilterCursor P db f = Some (Inr (Some c))" "\<not> cValid (query_ops (index_ops P)) c"
    using dead_buildFilterCursor[of P db f] by auto
  with Cons show ?case by simp
qed simp

lemma dead_Query:
  "list_all (\<lambda>f. dead_scan P db f \<and> elems (IDs f) = []) fs \<Longrightarrow> Pebble_Query P db fs = Some ([], None)"
  using dead_filter_heap[of P db fs "[]"] by (simp add: Pebble_Query_def query_loop.simps)

lemma below_zero_time: "length x = 8 \<Longrightarrow> \<not> x < PutUint64 0"
proof -
  have "bytes_nat (PutUint64 0) = 0" by (simp add: PutUint64_def bytes_nat_nat_bytes)
  then show "length x = 8 \<Longrightarrow> \<not> x < PutUint64 0" by (simp add: less_bytes_nat)
qed

text \<open>With the least time as lower bound no key of an index lies within the bounds of a scan.\<close>

lemma least_since_empty:
  assumes kv: "kv_laws P contents view" and r: "represents U (contents db) E" and f: "Since f = Some (- (2 ^ 63))"
    and pfx: "pfx \<in> index_prefixes" and it: "kvNewIter P db (lower_bound pfx f) (upper_bound pfx nxt f) = Inr it"
  shows "fst (view it) = []"
proof -
  have "k \<notin> set (fst (view it))" for k
  proof
    assume "k \<in> set (fst (view it))"
    then have k: "k \<in> dom (contents db)" "lower_bound pfx f \<le> k" "k < upper_bound pfx nxt f"
      using kv it unfolding kv_laws_def by fastforce+
    let ?n = "length pfx"
    have n: "?n = 1 \<or> ?n = 9" using pfx by (auto simp: index_prefixes_def)
    have l: "9 \<le> length k" using k(1) r by (simp add: represents_def)
    then have tn: "length (take ?n k) = ?n" using n by auto
    have "pfx \<le> lower_bound pfx f" by (auto simp: lower_bound_def prefix_append_le split: option.split)
    then have "pfx @ [] \<le> take ?n k @ drop ?n k" using k(2) by simp
    then have "pfx \<le> take ?n k" using le_append[of pfx "take ?n k" "[]" "drop ?n k"] tn by auto
    moreover have "take ?n k @ drop ?n k < pfx @ PutUint64 0" using k(3) f invertTimestamp_wraps by (simp add: upper_bound_def)
    then have "take ?n k < pfx \<or> take ?n k = pfx \<and> drop ?n k < PutUint64 0"
      unfolding append_less_append[OF tn] .
    ultimately have t: "take ?n k = pfx" "drop ?n k < PutUint64 0" by auto
    have "8 \<le> length (drop ?n k)"
    proof (cases "?n = 1")
      case False
      then obtain h where h: "pfx = prefixField # PutUint64 h" using pfx by (auto simp: index_prefixes_def)
      with t(1) have hd: "k \<noteq> []" "hd k = prefixField" by (cases k; simp)+
      then have "data_key k" by (simp add: data_key_def)
      with dom_data_key[OF r] k(1) obtain e where "k \<in> fst ` bindings e" by blast
      with hd show ?thesis using h
        by (auto simp: bindings_def set_index_keys image_image makeEventKey_def makeCreatedAtKey_def makeFieldKey_def prefix_defs)
    qed (use l in simp)
    then have "take 8 (drop ?n k) < PutUint64 0" using less_prefix[of "PutUint64 0" "drop ?n k"] t(2) by simp
    then show False using below_zero_time[of "take 8 (drop ?n k)"] \<open>8 \<le> length (drop ?n k)\<close> by simp
  qed
  then show ?thesis by (meson last_in_set)
qed

text \<open>A database that holds one event.\<close>

definition one_event_db :: "(string \<times> string) list" where
  "one_event_db = fst (the (pebble_run list_pebble sample_crypto [] [sample_events ! 0]))"

lemma one_event_memory: "events (fst (memory_run NewInMemoryStorage [sample_events ! 0])) = [sample_events ! 0]"
  by (simp add: Store_def Store_event_def deleted_by_id_def deleted_by_addr_def store_tail_def NewInMemoryStorage_def
      sample_events_def sample_address eventType_def eventType_of_kind_def)

lemma one_event_db:
  "represents (set sample_events) (map_of one_event_db) {sample_events ! 0}"
  "fault_free list_pebble (set sample_events)"
proof -
  show ff: "fault_free list_pebble (set sample_events)" by (rule list_pebble_fault_free[OF sample_events_ok])
  have S0: "sim sample_crypto (set sample_events) sample_addresses (map_of []) NewInMemoryStorage"
    using sim_empty by (simp add: fun_eq_iff)
  have sub: "set [sample_events ! 0] \<subseteq> set sample_events" by (simp add: sample_events_def)
  from pebble_run_memory[OF list_pebble_laws sample_good ff S0 storage_ok_new sub] obtain db where
    "pebble_run list_pebble sample_crypto [] [sample_events ! 0] = Some (db, snd (memory_run NewInMemoryStorage [sample_events ! 0]))"
    "sim sample_crypto (set sample_events) sample_addresses (map_of db) (fst (memory_run NewInMemoryStorage [sample_events ! 0]))" by blast
  then show "represents (set sample_events) (map_of one_event_db) {sample_events ! 0}"
    by (simp add: one_event_db_def sim_def one_event_memory del: memory_run.simps pebble_run.simps)
qed

lemma one_event_found:
  assumes "time_ok f" "Match f (sample_events ! 0)" "Limit f = None"
  shows "Pebble_Query list_pebble one_event_db [f] = Some ([sample_events ! 0], None)"
proof -
  have t: "\<forall>g \<in> set [f]. time_ok g" using assms(1) by simp
  from Pebble_Query_spec[OF list_pebble_laws sample_good one_event_db(1) t] obtain qs err where
    q: "Pebble_Query list_pebble one_event_db [f] = Some (qs, err)" "err = None \<longrightarrow> query_result {sample_events ! 0} [f] qs" by blast
  have "err = None" by (rule fault_free_Query[OF one_event_db(2) list_pebble_laws sample_good one_event_db(1) q(1)])
  moreover have "query_result {sample_events ! 0} [f] [sample_events ! 0]"
    unfolding query_result_def by (rule exI[of _ "[sample_events ! 0]"]) (use assms in \<open>auto simp: limited_def limit_of_def\<close>)
  ultimately show ?thesis using q query_result_unique by blast
qed

section \<open>What is not found\<close>

text \<open>
  C40. The least \<^verbatim>\<open>int64\<close> as \<^verbatim>\<open>since\<close> excludes no event, but for a query whose filters all have it
  and no ids the persistent storage finds nothing: the exclusive upper bound of every scan, of the time index and of the
  field indexes, is the inverted time plus one, which wraps to zero. The events such a filter
  matches are those it matches without its \<^verbatim>\<open>since\<close>, and the in-memory storage returns them. (A filter with ids
  is looked up without a scan and is not affected.)
\<close>

theorem least_since_finds_nothing:
  assumes "kv_laws P contents view" and "fault_free P U" and "represents U (contents db) E"
    and "\<forall>f \<in> set fs. Since f = Some (- (2 ^ 63)) \<and> elems (IDs f) = []" and "\<forall>e \<in> E. int64 (Unix (CreatedAt e))"
  shows "Pebble_Query P db fs = Some ([], None) \<and>
    {e \<in> E. matchesAny fs e} = {e \<in> E. matchesAny (map (\<lambda>f. f\<lparr>Since := None\<rparr>) fs) e}"
proof
  have "dead_scan P db f" if "f \<in> set fs" for f
    unfolding dead_scan_def
  proof (intro ballI allI)
    fix pfx nxt assume pfx: "pfx \<in> index_prefixes"
    obtain it where it: "kvNewIter P db (lower_bound pfx f) (upper_bound pfx nxt f) = Inr it"
      using fault_freeD(4)[OF assms(2)] by (metis sum.exhaust)
    obtain xs p where v: "view it = (xs, p)" by fastforce
    have "Since f = Some (- (2 ^ 63))" using assms(4) that by blast
    from least_since_empty[OF assms(1,3) this pfx it] v have "\<not> snd (itFirst P it)"
      using iter_lawsD(2)[of P view it xs p] assms(1) by (simp add: kv_laws_def)
    with it show "\<exists>it. kvNewIter P db (lower_bound pfx f) (upper_bound pfx nxt f) = Inr it \<and> \<not> snd (itFirst P it)" by blast
  qed
  then show "Pebble_Query P db fs = Some ([], None)" using assms(4) by (intro dead_Query) (simp add: list_all_iff)
  have "Match f e = Match (f\<lparr>Since := None\<rparr>) e" if "e \<in> E" "f \<in> set fs" for e f
    using assms(4,5) that by (fastforce simp: Match_def int64_def)
  then show "{e \<in> E. matchesAny fs e} = {e \<in> E. matchesAny (map (\<lambda>f. f\<lparr>Since := None\<rparr>) fs) e}"
    by (auto simp: matchesAny_iff)
qed

theorem least_since_finds_nothing_witness:
  "Pebble_Query list_pebble one_event_db [empty_filter\<lparr>Kinds := Some [0], Since := Some (- (2 ^ 63))\<rparr>] = Some ([], None) \<and>
    Pebble_Query list_pebble one_event_db [empty_filter\<lparr>Kinds := Some [0], Since := Some (1 - 2 ^ 63)\<rparr>] = Some ([sample_events ! 0], None)"
proof
  let ?f = "empty_filter\<lparr>Kinds := Some [0], Since := Some (- (2 ^ 63))\<rparr>"
  have f: "\<forall>f \<in> set [?f]. Since f = Some (- (2 ^ 63)) \<and> elems (IDs f) = []" by (simp add: empty_filter_def)
  have t: "\<forall>e \<in> {sample_events ! 0}. int64 (Unix (CreatedAt e))"
    by (simp add: sample_events_def Unix_def wrap64_id int64_def)
  from least_since_finds_nothing[OF list_pebble_laws one_event_db(2,1) f t]
  show "Pebble_Query list_pebble one_event_db [?f] = Some ([], None)" by blast
  show "Pebble_Query list_pebble one_event_db [empty_filter\<lparr>Kinds := Some [0], Since := Some (1 - 2 ^ 63)\<rparr>] = Some ([sample_events ! 0], None)"
    by (rule one_event_found)
      (simp_all add: time_ok_def empty_filter_def int64_def Match_def sample_events_def mk_event_def Unix_def wrap64_id)
qed



end
