(* ===== verification/Filter_Wire.thy ===== *)
theory Filter_Wire
  imports Event_Wire Req_Filter "HOL-Library.Multiset"
begin

text \<open>
  The wire format of filters in \<^verbatim>\<open>filter.go\<close>: \<^verbatim>\<open>UnmarshalJSONFrom\<close>, which takes the members of an object
  one by one, and \<^verbatim>\<open>MarshalJSON\<close>. \<open>None\<close> is an error, its text is left out. A value that is no object is
  an error: the loop ends only at a closing brace, which such a value does not have where the
  decoder looks for it.
\<close>

section \<open>Decoding\<close>

text \<open>\<^verbatim>\<open>containsJSONNull\<close>\<close>

fun containsJSONNull :: "json \<Rightarrow> bool" where
  "containsJSONNull JNull = True"
| "containsJSONNull (JArr vs) = list_ex containsJSONNull vs"
| "containsJSONNull (JObj ms) = list_ex (\<lambda>(k, v). containsJSONNull v) ms"
| "containsJSONNull v = False"

definition set_filter :: "string \<Rightarrow> json \<Rightarrow> ReqFilter \<Rightarrow> ReqFilter option" where
  "set_filter key raw f =
     (if key = ''ids'' then map_option (\<lambda>x. f\<lparr>IDs := x\<rparr>) (unmarshal_slice unmarshal_string raw)
      else if key = ''authors'' then map_option (\<lambda>x. f\<lparr>Authors := x\<rparr>) (unmarshal_slice unmarshal_string raw)
      else if key = ''kinds'' then map_option (\<lambda>x. f\<lparr>Kinds := x\<rparr>) (unmarshal_slice unmarshal_int64 raw)
      else if key = ''since'' then map_option (\<lambda>x. f\<lparr>Since := Some x\<rparr>) (unmarshal_int64 raw)
      else if key = ''until'' then map_option (\<lambda>x. f\<lparr>Until := Some x\<rparr>) (unmarshal_int64 raw)
      else if key = ''limit'' then map_option (\<lambda>x. f\<lparr>Limit := Some x\<rparr>) (unmarshal_int64 raw)
      else if key = ''search'' then map_option (\<lambda>x. f\<lparr>Search := Some x\<rparr>) (unmarshal_string raw)
      else if length key = 2 \<and> key ! 0 = CHR ''#'' \<and> isTagLetter (key ! 1) then
        map_option (\<lambda>values. f\<lparr>TagFilters := AList.update [key ! 1] (elems values) (TagFilters f)\<rparr>)
          (unmarshal_slice unmarshal_string raw)
      else None)"

fun filter_members :: "(string \<times> json) list \<Rightarrow> ReqFilter \<Rightarrow> ReqFilter option" where
  "filter_members [] f = Some f"
| "filter_members ((key, raw) # ms) f =
     (if containsJSONNull raw then None
      else case set_filter key raw f of None \<Rightarrow> None | Some f' \<Rightarrow> filter_members ms f')"

fun Filter_UnmarshalJSONFrom :: "json \<Rightarrow> ReqFilter option" where
  "Filter_UnmarshalJSONFrom (JObj ms) = filter_members ms empty_filter"
| "Filter_UnmarshalJSONFrom v = None"

section \<open>Encoding\<close>

definition strings_value :: "string list \<Rightarrow> json" where
  "strings_value xs = JArr (map JStr xs)"

definition int_value :: "int \<Rightarrow> json" where
  "int_value i = JNum (FormatInt i)"

definition ints_value :: "int list \<Rightarrow> json" where
  "ints_value ks = JArr (map int_value ks)"

definition opt_member :: "string \<Rightarrow> ('a \<Rightarrow> json) \<Rightarrow> 'a option \<Rightarrow> (string \<times> json) list" where
  "opt_member k enc x = (case x of None \<Rightarrow> [] | Some y \<Rightarrow> [(k, enc y)])"

definition filter_object :: "ReqFilter \<Rightarrow> (string \<times> json) list" where
  "filter_object f =
     opt_member ''ids'' strings_value (IDs f) @ opt_member ''authors'' strings_value (Authors f) @
     opt_member ''kinds'' ints_value (Kinds f) @
     map (\<lambda>(k, v). (CHR ''#'' # k, strings_value v)) (TagFilters f) @
     opt_member ''since'' int_value (Since f) @ opt_member ''until'' int_value (Until f) @
     opt_member ''limit'' int_value (Limit f) @ opt_member ''search'' JStr (Search f)"

text \<open>The members come in the order in which Go iterates over the map, here \<open>order\<close>.\<close>

definition Filter_MarshalJSON :: "((string \<times> json) list \<Rightarrow> (string \<times> json) list) \<Rightarrow> ReqFilter \<Rightarrow> string option" where
  "Filter_MarshalJSON order f = marshal_json (JObj (order (filter_object f)))"

section \<open>Decoded filters\<close>

text \<open>
  What a filter from the wire is like: times, limit and kinds are \<^verbatim>\<open>int64\<close>, the names of the tag
  filters are single letters, each once, and all strings are UTF-8.
\<close>

definition filter_ok :: "ReqFilter \<Rightarrow> bool" where
  "filter_ok f \<longleftrightarrow> list_all utf8_valid (elems (IDs f)) \<and> list_all utf8_valid (elems (Authors f)) \<and>
     list_all int64 (elems (Kinds f)) \<and> distinct (map fst (TagFilters f)) \<and>
     list_all (\<lambda>(k, v). length k = 1 \<and> isTagLetter (k ! 0) \<and> list_all utf8_valid v) (TagFilters f) \<and>
     (case Since f of None \<Rightarrow> True | Some t \<Rightarrow> int64 t) \<and> (case Until f of None \<Rightarrow> True | Some t \<Rightarrow> int64 t) \<and>
     (case Limit f of None \<Rightarrow> True | Some n \<Rightarrow> int64 n) \<and> (case Search f of None \<Rightarrow> True | Some s \<Rightarrow> utf8_valid s)"

lemma strings_utf8: "unmarshal_slice unmarshal_string v = Some x \<Longrightarrow> wf_json v \<Longrightarrow> list_all utf8_valid (elems x)"
  by (cases v) (auto intro: all_of_list_all unmarshal_string_utf8)

lemma ints_range: "unmarshal_slice unmarshal_int64 v = Some x \<Longrightarrow> list_all int64 (elems x)"
proof -
  have "all_of unmarshal_int64 vs = Some ys \<Longrightarrow> list_all int64 ys" for vs ys
    by (rule all_of_list_all[where P = "\<lambda>_. True"]) (auto simp: list_all_iff dest: unmarshal_int64_range)
  then show "unmarshal_slice unmarshal_int64 v = Some x \<Longrightarrow> list_all int64 (elems x)" by (cases v) auto
qed

lemma set_update: "set (AList.update k v al) \<subseteq> insert (k, v) (set al)"
  by (induction al) auto

lemma set_filter_ok:
  assumes "set_filter k v f = Some f'" "filter_ok f" "wf_json v"
  shows "filter_ok f'"
proof (cases "length k = 2 \<and> k ! 0 = CHR ''#'' \<and> isTagLetter (k ! 1)")
  case True
  then have "k \<notin> {''ids'', ''authors'', ''kinds'', ''since'', ''until'', ''limit'', ''search''}" by auto
  with True assms(1) obtain vals where v: "unmarshal_slice unmarshal_string v = Some vals"
    "f' = f\<lparr>TagFilters := AList.update [k ! 1] (elems vals) (TagFilters f)\<rparr>"
    by (auto simp: set_filter_def)
  have "distinct (map fst (AList.update [k ! 1] (elems vals) (TagFilters f)))"
    using assms(2) by (simp add: distinct_update filter_ok_def)
  with True assms(2) strings_utf8[OF v(1) assms(3)] v(2) set_update[of "[k ! 1]" "elems vals" "TagFilters f"]
  show ?thesis by (fastforce simp: filter_ok_def list_all_iff)
next
  case False
  with assms(1) consider
      x where "unmarshal_slice unmarshal_string v = Some x" "f' = f\<lparr>IDs := x\<rparr> \<or> f' = f\<lparr>Authors := x\<rparr>"
    | x where "unmarshal_slice unmarshal_int64 v = Some x" "f' = f\<lparr>Kinds := x\<rparr>"
    | x where "unmarshal_int64 v = Some x" "f' = f\<lparr>Since := Some x\<rparr> \<or> f' = f\<lparr>Until := Some x\<rparr> \<or> f' = f\<lparr>Limit := Some x\<rparr>"
    | x where "unmarshal_string v = Some x" "f' = f\<lparr>Search := Some x\<rparr>"
    by (auto simp: set_filter_def split: if_splits)
  then show ?thesis
    using assms(2,3) strings_utf8[of v] ints_range[of v] unmarshal_int64_range[of v] unmarshal_string_utf8[of v]
    by cases (auto simp: filter_ok_def)
qed

lemma filter_members_ok:
  "filter_members ms f = Some f' \<Longrightarrow> filter_ok f \<Longrightarrow> list_all (\<lambda>(k, v). utf8_valid k \<and> wf_json v) ms \<Longrightarrow> filter_ok f'"
  by (induction ms f rule: filter_members.induct) (auto split: if_splits option.splits dest: set_filter_ok)

lemma Filter_UnmarshalJSONFrom_ok: "Filter_UnmarshalJSONFrom v = Some f \<Longrightarrow> wf_json v \<Longrightarrow> filter_ok f"
proof -
  assume u: "Filter_UnmarshalJSONFrom v = Some f" "wf_json v"
  then obtain ms where "v = JObj ms" by (cases v) auto
  moreover have "filter_ok empty_filter" by (simp add: filter_ok_def empty_filter_def)
  ultimately show ?thesis using u filter_members_ok[of ms empty_filter f] by simp
qed

section \<open>Encoded filters are decoded\<close>

text \<open>A filter decoded from the members of \<open>f\<close> whose names are in \<open>K\<close>.\<close>

definition decoded_part :: "ReqFilter \<Rightarrow> string set \<Rightarrow> ReqFilter \<Rightarrow> bool" where
  "decoded_part f K g \<longleftrightarrow>
     IDs g = (if ''ids'' \<in> K then IDs f else None) \<and> Authors g = (if ''authors'' \<in> K then Authors f else None) \<and>
     Kinds g = (if ''kinds'' \<in> K then Kinds f else None) \<and> Since g = (if ''since'' \<in> K then Since f else None) \<and>
     Until g = (if ''until'' \<in> K then Until f else None) \<and> Limit g = (if ''limit'' \<in> K then Limit f else None) \<and>
     Search g = (if ''search'' \<in> K then Search f else None) \<and>
     set (TagFilters g) = {p \<in> set (TagFilters f). CHR ''#'' # fst p \<in> K} \<and> distinct (map fst (TagFilters g))"

lemma unmarshal_strings_value [simp]: "unmarshal_slice unmarshal_string (strings_value xs) = Some (Some xs)"
proof -
  have "all_of unmarshal_string (map JStr xs) = Some xs" by (induction xs) auto
  then show ?thesis by (simp add: strings_value_def)
qed

lemma unmarshal_ints [simp]:
  "list_all int64 ks \<Longrightarrow> unmarshal_slice unmarshal_int64 (ints_value ks) = Some (Some ks)"
proof -
  have "list_all int64 ks \<Longrightarrow> all_of unmarshal_int64 (map int_value ks) = Some ks"
    by (induction ks) (auto simp: int_value_def)
  then show "list_all int64 ks \<Longrightarrow> unmarshal_slice unmarshal_int64 (ints_value ks) = Some (Some ks)" by (simp add: ints_value_def)
qed

lemma no_null [simp]:
  "\<not> containsJSONNull (strings_value xs)" "\<not> containsJSONNull (int_value i)" "\<not> containsJSONNull (ints_value ks)"
  by (auto simp: strings_value_def int_value_def ints_value_def list_ex_iff)

lemma opt_member_iff [simp]: "(k, v) \<in> set (opt_member n enc x) \<longleftrightarrow> (\<exists>y. x = Some y \<and> k = n \<and> v = enc y)"
  by (cases x) (auto simp: opt_member_def)

lemma opt_member_names [simp]: "distinct (map fst (opt_member n enc x))" "k \<in> fst ` set (opt_member n enc x) \<Longrightarrow> k = n"
  by (cases x; simp add: opt_member_def)+

lemma tag_members_iff:
  "(k, v) \<in> set (map (\<lambda>(k, v). (CHR ''#'' # k, strings_value v)) ts) \<longleftrightarrow>
     (\<exists>t vs. (t, vs) \<in> set ts \<and> k = CHR ''#'' # t \<and> v = strings_value vs)"
  by force

lemma filter_object_iff:
  "(k, v) \<in> set (filter_object f) \<longleftrightarrow>
     (\<exists>x. IDs f = Some x \<and> k = ''ids'' \<and> v = strings_value x) \<or> (\<exists>x. Authors f = Some x \<and> k = ''authors'' \<and> v = strings_value x) \<or>
     (\<exists>x. Kinds f = Some x \<and> k = ''kinds'' \<and> v = ints_value x) \<or>
     (\<exists>t vs. (t, vs) \<in> set (TagFilters f) \<and> k = CHR ''#'' # t \<and> v = strings_value vs) \<or>
     (\<exists>x. Since f = Some x \<and> k = ''since'' \<and> v = int_value x) \<or> (\<exists>x. Until f = Some x \<and> k = ''until'' \<and> v = int_value x) \<or>
     (\<exists>x. Limit f = Some x \<and> k = ''limit'' \<and> v = int_value x) \<or> (\<exists>x. Search f = Some x \<and> k = ''search'' \<and> v = JStr x)"
  unfolding filter_object_def set_append Un_iff opt_member_iff tag_members_iff by (rule refl)

lemma filter_object_cases:
  assumes "(k, v) \<in> set (filter_object f)"
  obtains (ids) x where "IDs f = Some x" "k = ''ids''" "v = strings_value x"
    | (authors) x where "Authors f = Some x" "k = ''authors''" "v = strings_value x"
    | (kinds) x where "Kinds f = Some x" "k = ''kinds''" "v = ints_value x"
    | (tag) t vs where "(t, vs) \<in> set (TagFilters f)" "k = CHR ''#'' # t" "v = strings_value vs"
    | (since) x where "Since f = Some x" "k = ''since''" "v = int_value x"
    | (until) x where "Until f = Some x" "k = ''until''" "v = int_value x"
    | (limit) x where "Limit f = Some x" "k = ''limit''" "v = int_value x"
    | (search) x where "Search f = Some x" "k = ''search''" "v = JStr x"
  using assms unfolding filter_object_iff by (elim disjE exE conjE) (erule (2) that)+

lemma names_opt: "k \<in> fst ` set (opt_member n enc x) \<longleftrightarrow> k = n \<and> x \<noteq> None"
  by (cases x) (auto simp: opt_member_def)

lemma names_tags: "k \<in> fst ` set (map (\<lambda>(k, v). (CHR ''#'' # k, strings_value v)) ts) \<longleftrightarrow> (\<exists>t \<in> fst ` set ts. k = CHR ''#'' # t)"
  by force

lemma filter_object_names:
  "''ids'' \<in> fst ` set (filter_object f) \<longleftrightarrow> IDs f \<noteq> None" "''authors'' \<in> fst ` set (filter_object f) \<longleftrightarrow> Authors f \<noteq> None"
  "''kinds'' \<in> fst ` set (filter_object f) \<longleftrightarrow> Kinds f \<noteq> None" "''since'' \<in> fst ` set (filter_object f) \<longleftrightarrow> Since f \<noteq> None"
  "''until'' \<in> fst ` set (filter_object f) \<longleftrightarrow> Until f \<noteq> None" "''limit'' \<in> fst ` set (filter_object f) \<longleftrightarrow> Limit f \<noteq> None"
  "''search'' \<in> fst ` set (filter_object f) \<longleftrightarrow> Search f \<noteq> None"
  "CHR ''#'' # t \<in> fst ` set (filter_object f) \<longleftrightarrow> t \<in> fst ` set (TagFilters f)"
  unfolding filter_object_def set_append image_Un Un_iff names_opt names_tags by simp_all

lemma update_fresh: "k \<notin> fst ` set al \<Longrightarrow> AList.update k v al = al @ [(k, v)]"
  by (induction al) auto

lemma int64_fields:
  assumes "filter_ok f"
  shows "Kinds f = Some ks \<Longrightarrow> list_all int64 ks" "Since f = Some x \<Longrightarrow> int64 x" "Until f = Some x \<Longrightarrow> int64 x" "Limit f = Some x \<Longrightarrow> int64 x"
  using assms unfolding filter_ok_def by simp_all

lemma set_filter_member:
  assumes f: "filter_ok f" and kv: "(k, v) \<in> set (filter_object f)" and K: "k \<notin> K" and g: "decoded_part f K g"
  shows "\<exists>g'. \<not> containsJSONNull v \<and> set_filter k v g = Some g' \<and> decoded_part f (insert k K) g'"
proof (cases "\<exists>t vs. (t, vs) \<in> set (TagFilters f) \<and> k = CHR ''#'' # t \<and> v = strings_value vs")
  case True
  then obtain t vs where t: "(t, vs) \<in> set (TagFilters f)" "k = CHR ''#'' # t" "v = strings_value vs" by blast
  with f have l: "length t = 1" "isTagLetter (t ! 0)" by (auto simp: filter_ok_def list_all_iff)
  then have t1: "[t ! 0] = t" by (cases t) auto
  have "t \<notin> fst ` set (TagFilters g)" using g K t(2) by (auto simp: decoded_part_def)
  then have up: "AList.update t vs (TagFilters g) = TagFilters g @ [(t, vs)]" by (rule update_fresh)
  let ?g = "g\<lparr>TagFilters := TagFilters g @ [(t, vs)]\<rparr>"
  have set: "set_filter k v g = Some ?g" using t(2,3) l t1 up by (simp add: set_filter_def)
  have uniq: "p = (t, vs)" if "p \<in> set (TagFilters f)" "fst p = t" for p
    using that t(1) f by (metis eq_key_imp_eq_value filter_ok_def prod.collapse)
  have "set (TagFilters ?g) = {p \<in> set (TagFilters f). CHR ''#'' # fst p \<in> insert k K}"
  proof -
    have "{p \<in> set (TagFilters f). fst p = t} = {(t, vs)}"
    proof
      show "{p \<in> set (TagFilters f). fst p = t} \<subseteq> {(t, vs)}" using uniq by blast
    qed (use t(1) in simp)
    moreover have "{p \<in> set (TagFilters f). CHR ''#'' # fst p \<in> insert k K} =
        {p \<in> set (TagFilters f). fst p = t} \<union> {p \<in> set (TagFilters f). CHR ''#'' # fst p \<in> K}" by (auto simp: t(2))
    moreover have "set (TagFilters g) = {p \<in> set (TagFilters f). CHR ''#'' # fst p \<in> K}" using g by (simp add: decoded_part_def)
    ultimately show ?thesis by simp
  qed
  moreover have "distinct (map fst (TagFilters ?g))" using g \<open>t \<notin> fst ` set (TagFilters g)\<close> by (simp add: decoded_part_def)
  ultimately have "decoded_part f (insert k K) ?g" using g unfolding decoded_part_def by (simp add: t(2))
  then show ?thesis using set t(3) by auto
next
  case False
  show ?thesis using kv
  proof (cases rule: filter_object_cases)
    case (tag t vs)
    with False show ?thesis by blast
  qed (use int64_fields[OF f] g in \<open>simp_all add: set_filter_def decoded_part_def int_value_def\<close>)
qed

lemma filter_members_part:
  assumes "filter_ok f" "set ms \<subseteq> set (filter_object f)" "distinct (map fst ms)" "fst ` set ms \<inter> K = {}" "decoded_part f K g"
  shows "\<exists>g'. filter_members ms g = Some g' \<and> decoded_part f (K \<union> fst ` set ms) g'"
  using assms
proof (induction ms arbitrary: K g)
  case (Cons m ms)
  obtain k v where m: "m = (k, v)" by fastforce
  with Cons.prems obtain g1 where g1: "\<not> containsJSONNull v" "set_filter k v g = Some g1" "decoded_part f (insert k K) g1"
    using set_filter_member[of f k v K g] by auto
  have "fst ` set ms \<inter> insert k K = {}" using Cons.prems(3,4) m by auto
  with Cons.IH[OF Cons.prems(1) _ _ this g1(3)] Cons.prems(2,3) g1(1,2) m show ?case by auto
qed simp

lemma filter_object_distinct: "filter_ok f \<Longrightarrow> distinct (map fst (filter_object f))"
proof -
  assume f: "filter_ok f"
  let ?tags = "map (\<lambda>(k, v). (CHR ''#'' # k, strings_value v)) (TagFilters f)"
  have "map fst ?tags = map (Cons (CHR ''#'')) (map fst (TagFilters f))" by (auto simp: split_beta)
  then have "distinct (map fst ?tags)" using f by (auto simp: filter_ok_def distinct_map inj_on_def)
  moreover have "k \<in> fst ` set ?tags \<Longrightarrow> hd k = CHR ''#''" for k by auto
  ultimately show ?thesis
    unfolding filter_object_def map_append distinct_append set_append set_map
    by (auto simp del: image_eqI dest!: opt_member_names(2))
qed

lemma Match_same:
  assumes "f\<lparr>TagFilters := []\<rparr> = g\<lparr>TagFilters := []\<rparr>" "set (TagFilters f) = set (TagFilters g)"
  shows "Match f e = Match g e"
proof -
  have "IDs f = IDs g" "Authors f = Authors g" "Kinds f = Kinds g" "Since f = Since g" "Until f = Until g"
    using assms(1) by (metis ReqFilter.select_convs ReqFilter.surjective ReqFilter.update_convs(4))+
  moreover have "tags_matched (TagFilters f) ts = tags_matched (TagFilters g) ts" for ts
    using assms(2) by (simp add: tags_matched_iff)
  ultimately show ?thesis by (simp add: Match_def)
qed

lemma Filter_decode:
  assumes f: "filter_ok f" and ms: "mset ms = mset (filter_object f)"
  shows "\<exists>g. Filter_UnmarshalJSONFrom (JObj ms) = Some g \<and> g\<lparr>TagFilters := []\<rparr> = f\<lparr>TagFilters := []\<rparr> \<and>
    mset (TagFilters g) = mset (TagFilters f)"
proof -
  have s: "set ms = set (filter_object f)" using ms by (metis set_mset_mset)
  have d: "distinct (map fst ms)" using filter_object_distinct[OF f] ms by (metis mset_map mset_eq_imp_distinct_iff)
  have "decoded_part f {} empty_filter" by (simp add: decoded_part_def empty_filter_def)
  from filter_members_part[OF f _ d _ this] s obtain g where g: "filter_members ms empty_filter = Some g"
    "decoded_part f (fst ` set (filter_object f)) g" by auto
  note g2 = g(2)[unfolded decoded_part_def filter_object_names]
  have "IDs g = IDs f" "Authors g = Authors f" "Kinds g = Kinds f" "Since g = Since f" "Until g = Until f" "Limit g = Limit f"
    "Search g = Search f"
    using g2 by (simp_all split: if_splits)
  then have "g\<lparr>TagFilters := []\<rparr> = f\<lparr>TagFilters := []\<rparr>" by simp
  moreover have "set (TagFilters g) = set (TagFilters f)"
    using g2 by auto
  then have "mset (TagFilters g) = mset (TagFilters f)"
    using g(2) f by (intro set_eq_iff_mset_eq_distinct[THEN iffD1]) (auto simp: decoded_part_def filter_ok_def distinct_map)
  ultimately show ?thesis using g(1) by auto
qed

lemma printable_values:
  "list_all utf8_valid xs \<Longrightarrow> printable (strings_value xs) \<and> utf8_json (strings_value xs)"
  "printable (int_value i) \<and> utf8_json (int_value i)"
  "printable (ints_value ks) \<and> utf8_json (ints_value ks)"
  by (auto simp: strings_value_def ints_value_def int_value_def list_all_iff list.pred_map)

lemma utf8_names:
  "utf8_valid ''ids''" "utf8_valid ''authors''" "utf8_valid ''kinds''" "utf8_valid ''since''" "utf8_valid ''until''"
  "utf8_valid ''limit''" "utf8_valid ''search''"
  by (simp_all add: utf8_valid_ascii)

lemma filter_okD:
  assumes "filter_ok f"
  shows "IDs f = Some x \<Longrightarrow> list_all utf8_valid x" "Authors f = Some x \<Longrightarrow> list_all utf8_valid x"
    "(t, vs) \<in> set (TagFilters f) \<Longrightarrow> list_all utf8_valid vs" "Search f = Some y \<Longrightarrow> utf8_valid y"
  using assms unfolding filter_ok_def by (auto simp: list_all_iff)

lemma filter_object_printable: "filter_ok f \<Longrightarrow> m \<in> set (filter_object f) \<Longrightarrow> utf8_valid (fst m) \<and> printable (snd m) \<and> utf8_json (snd m)"
proof -
  assume f: "filter_ok f" and m: "m \<in> set (filter_object f)"
  have tag: "utf8_valid (CHR ''#'' # t)" if "(t, vs) \<in> set (TagFilters f)" for t vs
  proof -
    from that f obtain c where "t = [c]" "isTagLetter c" by (cases t) (auto simp: filter_ok_def list_all_iff)
    then show ?thesis by (auto intro!: utf8_valid_ascii simp: isTagLetter_def less_eq_char_def)
  qed
  obtain k v where kv: "m = (k, v)" by fastforce
  show ?thesis using m[unfolded kv]
    by (cases rule: filter_object_cases)
      (simp_all add: kv printable_values[simplified] utf8_names filter_okD[OF f] tag)
qed

end
