(* ===== verification/Message_Wire.thy ===== *)
theory Message_Wire
  imports Filter_Wire Message
begin

text \<open>
  The wire format of messages in \<^verbatim>\<open>message.go\<close>: \<^verbatim>\<open>ParseClientMsg\<close>, which picks a parser by the label and reads
  the elements of the array one after the other, and \<^verbatim>\<open>MarshalJSON\<close> of relay messages. \<open>None\<close> is an
  error, its text is left out.
\<close>

section \<open>The label\<close>

text \<open>The regular expression \<^verbatim>\<open>^\[\s*"(\w+)"\<close>.\<close>

definition re_space :: "char \<Rightarrow> bool" where
  "re_space c \<longleftrightarrow> c \<in> {CHR 0x09, CHR 0x0A, CHR 0x0C, CHR 0x0D, CHR '' ''}"

definition re_word :: "char \<Rightarrow> bool" where
  "re_word c \<longleftrightarrow> is_digit c \<or> isTagLetter c \<or> c = CHR ''_''"

fun clientMsgLabel :: "string \<Rightarrow> string option" where
  "clientMsgLabel [] = None"
| "clientMsgLabel (b # r) =
     (if b \<noteq> CHR ''['' then None
      else case dropWhile re_space r of [] \<Rightarrow> None
      | q # s \<Rightarrow>
          if q \<noteq> CHR 0x22 then None
          else (case dropWhile re_word s of [] \<Rightarrow> None
                | q' # t \<Rightarrow> if q' = CHR 0x22 \<and> takeWhile re_word s \<noteq> [] then Some (takeWhile re_word s) else None))"

section \<open>Reading the array\<close>

text \<open>
  The two \<^verbatim>\<open>ReadToken\<close> calls for the bracket and the label, which the regular expression has found;
  the value after the next comma; whether \<^verbatim>\<open>PeekKind\<close> sees the closing bracket. What follows the
  bracket is not read.
\<close>

definition read_head :: "string \<Rightarrow> string option" where
  "read_head data = (case next_token data of None \<Rightarrow> None | Some (_, r) \<Rightarrow> map_option snd (next_token r))"

definition read_elem :: "string \<Rightarrow> (json \<times> string) option" where
  "read_elem r =
     (case next_token r of
        Some (TPunct c, r') \<Rightarrow> if c = CHR '','' then read_value r' else None
      | _ \<Rightarrow> None)"

definition at_end :: "string \<Rightarrow> bool" where
  "at_end r = (case next_token r of Some (TPunct c, _) \<Rightarrow> c = CHR '']'' | _ \<Rightarrow> False)"

lemma read_elem_shorter: "read_elem r = Some (v, r') \<Longrightarrow> length r' < length r"
  by (auto simp: read_elem_def split: option.splits token.splits if_splits dest!: next_token_shorter read_value_shorter)

function read_filters :: "string \<Rightarrow> ReqFilter list option" where
  "read_filters r =
     (if at_end r then Some []
      else case read_elem r of None \<Rightarrow> None
      | Some (v, r') \<Rightarrow>
          (case Filter_UnmarshalJSONFrom v of None \<Rightarrow> None
           | Some f \<Rightarrow> map_option (Cons f) (read_filters r')))"
  by pat_completeness auto
termination
  by (relation "measure length") (auto dest: read_elem_shorter)

declare read_filters.simps [simp del]

section \<open>Client messages\<close>

definition parseClientEventMsg :: "string \<Rightarrow> ClientMsg option" where
  "parseClientEventMsg data =
     (case read_head data of None \<Rightarrow> None
      | Some r \<Rightarrow>
          (case read_elem r of None \<Rightarrow> None
           | Some (v, r') \<Rightarrow>
               (case Event_UnmarshalJSONFrom v of None \<Rightarrow> None
                | Some ev \<Rightarrow> if \<not> at_end r' then None else Some (client_event ev))))"

definition parseClientAuthMsg :: "string \<Rightarrow> ClientMsg option" where
  "parseClientAuthMsg data =
     (case read_head data of None \<Rightarrow> None
      | Some r \<Rightarrow>
          (case read_elem r of None \<Rightarrow> None
           | Some (v, r') \<Rightarrow>
               (case Event_UnmarshalJSONFrom v of None \<Rightarrow> None
                | Some ev \<Rightarrow> if \<not> at_end r' then None else Some (client_auth ev))))"

text \<open>The subscription identifier and the filters, for REQ and COUNT.\<close>

definition read_subscription :: "string \<Rightarrow> (string \<times> ReqFilter list) option" where
  "read_subscription data =
     (case read_head data of None \<Rightarrow> None
      | Some r \<Rightarrow>
          (case read_elem r of None \<Rightarrow> None
           | Some (v, r') \<Rightarrow>
               (case unmarshal_string v of None \<Rightarrow> None
                | Some subID \<Rightarrow>
                    if \<not> validateSubscriptionID subID then None
                    else (case read_filters r' of None \<Rightarrow> None
                      | Some filters \<Rightarrow> if length filters = 0 then None else Some (subID, filters)))))"

definition parseClientReqMsg :: "string \<Rightarrow> ClientMsg option" where
  "parseClientReqMsg data = map_option (\<lambda>(subID, filters). client_req subID filters) (read_subscription data)"

definition parseClientCountMsg :: "string \<Rightarrow> ClientMsg option" where
  "parseClientCountMsg data = map_option (\<lambda>(subID, filters). client_count subID filters) (read_subscription data)"

definition parseClientCloseMsg :: "string \<Rightarrow> ClientMsg option" where
  "parseClientCloseMsg data =
     (case parse_text data of None \<Rightarrow> None
      | Some v \<Rightarrow>
          (case unmarshal_slice unmarshal_string v of None \<Rightarrow> None
           | Some arr \<Rightarrow>
               if length (elems arr) \<noteq> 2 then None
               else if \<not> validateSubscriptionID (elems arr ! 1) then None
               else Some (client_close (elems arr ! 1))))"

definition ParseClientMsg :: "string \<Rightarrow> ClientMsg option" where
  "ParseClientMsg data =
     (case clientMsgLabel data of None \<Rightarrow> None
      | Some msgType \<Rightarrow>
          if msgType = MsgTypeEvent then parseClientEventMsg data
          else if msgType = MsgTypeReq then parseClientReqMsg data
          else if msgType = MsgTypeClose then parseClientCloseMsg data
          else if msgType = MsgTypeAuth then parseClientAuthMsg data
          else if msgType = MsgTypeCount then parseClientCountMsg data
          else None)"

section \<open>Relay messages\<close>

text \<open>The payload of COUNT is a Go map; \<open>order\<close> is the order of its iteration.\<close>

definition server_value :: "((string \<times> json) list \<Rightarrow> (string \<times> json) list) \<Rightarrow> ServerMsg \<Rightarrow> json option" where
  "server_value order m =
     (if SType m = MsgTypeEvent then
        Some (JArr [JStr MsgTypeEvent, JStr (SSubscriptionID m), (case SEvent m of None \<Rightarrow> JNull | Some e \<Rightarrow> event_value e)])
      else if SType m = MsgTypeOK then
        Some (JArr [JStr MsgTypeOK, JStr (SEventID m), JBool (SAccepted m), JStr (SMessage m)])
      else if SType m = MsgTypeEOSE then Some (JArr [JStr MsgTypeEOSE, JStr (SSubscriptionID m)])
      else if SType m = MsgTypeClosed then
        Some (JArr [JStr MsgTypeClosed, JStr (SSubscriptionID m), JStr (SMessage m)])
      else if SType m = MsgTypeNotice then Some (JArr [JStr MsgTypeNotice, JStr (SMessage m)])
      else if SType m = MsgTypeCount then
        Some (JArr [JStr MsgTypeCount, JStr (SSubscriptionID m),
          JObj (order ((''count'', int_value (uint (SCount m))) # opt_member ''approximate'' JBool (SApproximate m)))])
      else if SType m = MsgTypeAuth then Some (JArr [JStr MsgTypeAuth, JStr (SMessage m)])
      else None)"

definition ServerMsg_MarshalJSON :: "((string \<times> json) list \<Rightarrow> (string \<times> json) list) \<Rightarrow> ServerMsg \<Rightarrow> string option" where
  "ServerMsg_MarshalJSON order m = (case server_value order m of None \<Rightarrow> None | Some v \<Rightarrow> marshal_json v)"

end
