(* ===== verification/Wire_Properties.thy ===== *)
theory Wire_Properties
  imports Message_Wire Relay
begin

text \<open>
  Properties of the wire formats: what a parsed message is like, that events and filters survive being
  written and read, and that the frames of the relay are JSON texts with the right content.
\<close>

section \<open>Parsed messages\<close>

lemma read_elem_wf: "read_elem r = Some (v, r') \<Longrightarrow> wf_json v"
  by (auto simp: read_elem_def split: option.splits token.splits if_splits dest: read_value_wf)

lemma read_filters_ok: "read_filters r = Some fs \<Longrightarrow> list_all filter_ok fs"
proof (induction r arbitrary: fs rule: read_filters.induct)
  case (1 r)
  show ?case
  proof (cases "at_end r")
    case True
    with 1(2) show ?thesis by (simp add: read_filters.simps)
  next
    case False
    with 1(2) obtain v r1 f fs1 where s: "read_elem r = Some (v, r1)" "Filter_UnmarshalJSONFrom v = Some f"
      "read_filters r1 = Some fs1" "fs = f # fs1"
      by (subst (asm) read_filters.simps) (auto split: option.splits)
    from 1(1)[OF False s(1) refl s(2,3)] Filter_UnmarshalJSONFrom_ok[OF s(2) read_elem_wf[OF s(1)]] s(4) show ?thesis by simp
  qed
qed

lemma read_subscription_ok:
  "read_subscription data = Some (i, fs) \<Longrightarrow> i \<noteq> '''' \<and> utf8_valid i \<and> fs \<noteq> [] \<and> list_all filter_ok fs"
proof -
  assume "read_subscription data = Some (i, fs)"
  then obtain r v r' where "read_elem r = Some (v, r')" "unmarshal_string v = Some i" "validateSubscriptionID i"
    "read_filters r' = Some fs" "length fs \<noteq> 0"
    unfolding read_subscription_def by (fastforce split: option.split_asm if_split_asm prod.split_asm)
  then show ?thesis
    using unmarshal_string_utf8[OF _ read_elem_wf] read_filters_ok by (auto simp: validateSubscriptionID_def)
qed

lemma close_arr_ok:
  "parse_text data = Some v \<Longrightarrow> unmarshal_slice unmarshal_string v = Some arr \<Longrightarrow> length (elems arr) = 2 \<Longrightarrow> utf8_valid (elems arr ! 1)"
  using strings_utf8[of v arr] parse_text_wf[of data v] by (auto simp: list_all_length)

definition client_msg_ok :: "ClientMsg \<Rightarrow> bool" where
  "client_msg_ok m \<longleftrightarrow>
     (if CType m = MsgTypeEvent \<or> CType m = MsgTypeAuth then
        (case CEvent m of None \<Rightarrow> False | Some e \<Rightarrow> event_ok e) \<and> CSubscriptionID m = '''' \<and> CFilters m = []
      else CEvent m = None \<and> CSubscriptionID m \<noteq> '''' \<and> utf8_valid (CSubscriptionID m) \<and>
        (if CType m = MsgTypeReq \<or> CType m = MsgTypeCount then CFilters m \<noteq> [] \<and> list_all filter_ok (CFilters m)
         else CType m = MsgTypeClose \<and> CFilters m = []))"

lemma client_msgs_ok:
  "event_ok e \<Longrightarrow> client_msg_ok (client_event e)" "event_ok e \<Longrightarrow> client_msg_ok (client_auth e)"
  "i \<noteq> '''' \<Longrightarrow> utf8_valid i \<Longrightarrow> client_msg_ok (client_close i)"
  "i \<noteq> '''' \<Longrightarrow> utf8_valid i \<Longrightarrow> fs \<noteq> [] \<Longrightarrow> list_all filter_ok fs \<Longrightarrow> client_msg_ok (client_req i fs)"
  "i \<noteq> '''' \<Longrightarrow> utf8_valid i \<Longrightarrow> fs \<noteq> [] \<Longrightarrow> list_all filter_ok fs \<Longrightarrow> client_msg_ok (client_count i fs)"
  by (simp_all add: client_msg_ok_def client_event_def client_auth_def client_close_def client_req_def client_count_def)

lemma client_types:
  "CType (client_event e) = MsgTypeEvent" "CType (client_auth e) = MsgTypeAuth" "CType (client_close i) = MsgTypeClose"
  "CType (client_req i fs) = MsgTypeReq" "CType (client_count i fs) = MsgTypeCount"
  by (simp_all add: client_event_def client_auth_def client_close_def client_req_def client_count_def)

lemma parsers_ok:
  "parseClientEventMsg data = Some m \<Longrightarrow> client_msg_ok m \<and> CType m = MsgTypeEvent"
  "parseClientAuthMsg data = Some m \<Longrightarrow> client_msg_ok m \<and> CType m = MsgTypeAuth"
  "parseClientReqMsg data = Some m \<Longrightarrow> client_msg_ok m \<and> CType m = MsgTypeReq"
  "parseClientCountMsg data = Some m \<Longrightarrow> client_msg_ok m \<and> CType m = MsgTypeCount"
  "parseClientCloseMsg data = Some m \<Longrightarrow> client_msg_ok m \<and> CType m = MsgTypeClose"
proof -
  show "client_msg_ok m \<and> CType m = MsgTypeEvent" if "parseClientEventMsg data = Some m"
  proof -
    from that obtain r v r' e where "read_elem r = Some (v, r')" "Event_UnmarshalJSONFrom v = Some e" "m = client_event e"
      unfolding parseClientEventMsg_def by (fastforce split: option.split_asm if_split_asm prod.split_asm)
    with event_ok_decoded[OF _ read_elem_wf] client_msgs_ok(1) client_types(1) show ?thesis by blast
  qed
  show "client_msg_ok m \<and> CType m = MsgTypeAuth" if "parseClientAuthMsg data = Some m"
  proof -
    from that obtain r v r' e where "read_elem r = Some (v, r')" "Event_UnmarshalJSONFrom v = Some e" "m = client_auth e"
      unfolding parseClientAuthMsg_def by (fastforce split: option.split_asm if_split_asm prod.split_asm)
    with event_ok_decoded[OF _ read_elem_wf] client_msgs_ok(2) client_types(2) show ?thesis by blast
  qed
  show "parseClientReqMsg data = Some m \<Longrightarrow> client_msg_ok m \<and> CType m = MsgTypeReq"
    unfolding parseClientReqMsg_def using read_subscription_ok client_msgs_ok(4) client_types(4) by fastforce
  show "parseClientCountMsg data = Some m \<Longrightarrow> client_msg_ok m \<and> CType m = MsgTypeCount"
    unfolding parseClientCountMsg_def using read_subscription_ok client_msgs_ok(5) client_types(5) by fastforce
  assume "parseClientCloseMsg data = Some m"
  then obtain v arr where "parse_text data = Some v" "unmarshal_slice unmarshal_string v = Some arr"
    "length (elems arr) = 2" "validateSubscriptionID (elems arr ! 1)" "m = client_close (elems arr ! 1)"
    unfolding parseClientCloseMsg_def by (fastforce split: option.split_asm if_split_asm)
  with close_arr_ok client_msgs_ok(3) client_types(3) show "client_msg_ok m \<and> CType m = MsgTypeClose"
    unfolding validateSubscriptionID_def by blast
qed

lemma ParseClientMsg_well_formed:
  assumes "ParseClientMsg data = Some m"
  shows "client_msg_ok m \<and> clientMsgLabel data = Some (CType m)"
proof -
  from assms obtain l where l: "clientMsgLabel data = Some l"
    "(if l = MsgTypeEvent then parseClientEventMsg data else if l = MsgTypeReq then parseClientReqMsg data
      else if l = MsgTypeClose then parseClientCloseMsg data else if l = MsgTypeAuth then parseClientAuthMsg data
      else if l = MsgTypeCount then parseClientCountMsg data else None) = Some m"
    unfolding ParseClientMsg_def by (cases "clientMsgLabel data") simp_all
  have "client_msg_ok m \<and> CType m = l"
    using l(2) parsers_ok by (simp only: option.distinct split: if_split_asm; blast)
  then show ?thesis using l(1) by simp
qed

section \<open>Events and filters\<close>

text \<open>A frame of the relay's five kinds of client messages, written by the encoder.\<close>

definition event_frame :: "Event \<Rightarrow> string" where
  "event_frame e = print_json (JArr [JStr MsgTypeEvent, event_value e])"

lemma escape_word: "re_word c \<Longrightarrow> escape c = [c]"
proof -
  assume "re_word c"
  then have b: "48 \<le> byte_of c" "byte_of c \<noteq> 92"
    unfolding re_word_def isTagLetter_def less_eq_char_def is_digit_iff by auto
  then have "c \<noteq> CHR 0x22" "c \<noteq> CHR 0x5C" "c \<noteq> CHR 0x08" "c \<noteq> CHR 0x0C" "c \<noteq> CHR 0x0A" "c \<noteq> CHR 0x0D" "c \<noteq> CHR 0x09" by auto
  with b show ?thesis by (simp add: escape_def)
qed

lemma label_of_array:
  assumes "w \<noteq> []" "list_all re_word w"
  shows "clientMsgLabel (CHR ''['' # quote w @ r) = Some w"
proof -
  have q: "\<not> re_word (CHR 0x22)" "\<not> re_space (CHR 0x22)"
    by (simp_all add: re_word_def re_space_def is_digit_iff isTagLetter_def less_eq_char_def)
  have "concat (map escape w) = w" using assms(2) by (induction w) (simp_all add: escape_word)
  moreover have "takeWhile re_word (w @ CHR 0x22 # r) = w" "dropWhile re_word (w @ CHR 0x22 # r) = CHR 0x22 # r"
    using assms(2) q(1) by (induction w) simp_all
  ultimately show ?thesis using assms(1) q(2) by (simp add: quote_def)
qed

lemma read_head_array: "utf8_valid w \<Longrightarrow> read_head (CHR ''['' # quote w @ r) = Some r"
  by (simp add: read_head_def next_token_punct next_token_quote)

lemma read_elem_print:
  "printable v \<Longrightarrow> number_ends v r \<Longrightarrow> read_elem (CHR '','' # print_json v @ r) = Some (v, r)"
  by (simp add: read_elem_def next_token_punct read_value_print)

lemma at_end_close [simp]: "at_end (CHR '']'' # r)" "\<not> at_end (CHR '','' # r)"
  by (simp_all add: at_end_def next_token_punct)

text \<open>Whatever bytes follow the closing bracket: they are not looked at.\<close>

lemma parse_event_frame:
  assumes "event_ok e"
  shows "ParseClientMsg (event_frame e @ trailing) = Some (client_event e)"
proof -
  have u: "utf8_json (event_value e)" using assms by (simp add: event_ok_def)
  have ends: "number_ends (event_value e) r" for r by (simp add: event_value_def number_ends_def)
  let ?r = "CHR '','' # print_json (event_value e) @ CHR '']'' # trailing"
  have f: "event_frame e @ trailing = CHR ''['' # quote MsgTypeEvent @ ?r"
    by (simp add: event_frame_def)
  have "clientMsgLabel (CHR ''['' # quote MsgTypeEvent @ ?r) = Some MsgTypeEvent"
    by (rule label_of_array) (simp_all add: re_word_def isTagLetter_def less_eq_char_def)
  moreover have "read_head (CHR ''['' # quote MsgTypeEvent @ ?r) = Some ?r"
    by (rule read_head_array) (simp add: utf8_valid_ascii)
  ultimately show ?thesis
    unfolding f using read_elem_print[OF printable_event[OF u] ends] event_ok_decode[OF assms]
    by (simp add: ParseClientMsg_def parseClientEventMsg_def del: clientMsgLabel.simps)
qed

lemma sample_event_ok: "event_ok (mk_event ''00'' ''aa'' 7 1 [[''t'', ''x'']])"
proof -
  have "Unix (7 * nsPerSec) = 7" "time_Unix 7 = 7 * nsPerSec" "int64 1"
    by (simp_all add: Unix_def wrap64_id int64_def time_Unix_ordinary unixToInternal_def)
  then show ?thesis
    by (simp add: event_ok_def utf8_event utf8_valid_ascii) (simp add: mk_event_def utf8_valid_ascii)
qed

section \<open>What the relay writes\<close>

lemma count_object_printable:
  assumes "mset (order ms) = mset ms" "ms = (''count'', int_value i) # opt_member ''approximate'' JBool a"
  shows "printable (JObj (order ms))"
proof -
  have "distinct (map fst ms)" "\<forall>m \<in> set ms. utf8_valid (fst m) \<and> printable (snd m)"
    unfolding assms(2) by (cases a; auto simp: opt_member_def int_value_def utf8_valid_ascii)+
  moreover have "distinct (map fst (order ms)) = distinct (map fst ms)"
    using assms(1) by (intro mset_eq_imp_distinct_iff) (simp only: mset_map)
  moreover have "set (order ms) = set ms" using assms(1) by (rule mset_eq_setD)
  ultimately show ?thesis by simp
qed

lemma printable_arr: "list_all printable vs \<Longrightarrow> printable (JArr vs)"
  by (simp add: list_all_iff)

lemma server_value_printable:
  assumes "server_value order m = Some v" "utf8_json v" "\<forall>ms. mset (order ms) = mset ms"
  shows "printable v"
proof -
  let ?ms = "(''count'', int_value (uint (SCount m))) # opt_member ''approximate'' JBool (SApproximate m)"
  have cnt: "printable (JObj (order ?ms))" using assms(3) by (blast intro: count_object_printable)
  consider "SType m = MsgTypeCount" | "SType m \<noteq> MsgTypeCount" by blast
  then show ?thesis
  proof cases
    case 1
    then have v: "v = JArr [JStr MsgTypeCount, JStr (SSubscriptionID m), JObj (order ?ms)]"
      using assms(1) by (simp add: server_value_def)
    have "utf8_valid (SSubscriptionID m)" using assms(2) v by simp
    then show ?thesis unfolding v using cnt by (intro printable_arr) (simp add: utf8_valid_ascii del: printable.simps(4))
  next
    case 2
    let ?leaf = "\<lambda>w. (\<exists>s. w = JStr s) \<or> (\<exists>b. w = JBool b) \<or> w = JNull \<or> (\<exists>e. w = event_value e)"
    obtain vs where vs: "v = JArr vs" "list_all ?leaf vs"
    proof -
      have "\<exists>vs. v = JArr vs \<and> list_all ?leaf vs"
        using assms(1) 2 unfolding server_value_def
        by (simp only: if_False option.inject split: if_split_asm option.split) (auto split: option.split)
      with that show ?thesis by blast
    qed
    have "list_all utf8_json vs" using assms(2) vs(1) by simp
    moreover have "?leaf w \<Longrightarrow> utf8_json w \<Longrightarrow> printable w" for w by (auto intro: printable_event)
    ultimately have "list_all printable vs" using vs(2) by (simp add: list_all_iff)
    then show ?thesis unfolding vs(1) by (rule printable_arr)
  qed
qed

text \<open>The frame of a message is written, and its text reads back as a given JSON value.\<close>

definition reads_as :: "((string \<times> json) list \<Rightarrow> (string \<times> json) list) \<Rightarrow> ServerMsg \<Rightarrow> json \<Rightarrow> bool" where
  "reads_as order m v \<longleftrightarrow> (\<exists>frame. ServerMsg_MarshalJSON order m = Some frame \<and> parse_text frame = Some v)"

lemma reads_as_value:
  assumes "server_value order m = Some v" "utf8_json v" "\<forall>ms. mset (order ms) = mset ms"
  shows "reads_as order m v"
proof -
  have "ServerMsg_MarshalJSON order m = Some (print_json v)"
    using assms(1,2) by (simp add: ServerMsg_MarshalJSON_def marshal_json_def)
  with parse_text_print[OF server_value_printable[OF assms]] show ?thesis by (simp add: reads_as_def)
qed

lemma utf8_count_object:
  assumes "mset ms = mset ((''count'', int_value i) # opt_member ''approximate'' JBool a)"
  shows "utf8_json (JObj ms)"
proof -
  have "set ms = set ((''count'', int_value i) # opt_member ''approximate'' JBool a)" by (rule mset_eq_setD[OF assms])
  then show ?thesis by (cases a) (auto simp: opt_member_def int_value_def utf8_valid_ascii list_all_iff)
qed

text \<open>
  C19. The client can read every frame of the relay: the OK, EOSE, CLOSED, NOTICE, AUTH and COUNT
  messages made of any valid UTF-8 texts can be written, and the text of the frame is a JSON array of
  the label of the message and its fields, each in its place and with the text it was given; nothing
  in a reason or an identifier can break out of it. COUNT's object has the count, and the approximate flag
  if it was given, in whatever order Go iterates over the map. (EVENT frames have a claim of their own.)
\<close>

theorem server_frame_parsed:
  assumes "utf8_valid i" "utf8_valid t" "\<forall>ms. mset (order ms) = mset ms"
  shows "reads_as order (NewServerOKMsg i a t) (JArr [JStr ''OK'', JStr i, JBool a, JStr t]) \<and>
    reads_as order (NewServerEOSEMsg i) (JArr [JStr ''EOSE'', JStr i]) \<and>
    reads_as order (NewServerClosedMsg i t) (JArr [JStr ''CLOSED'', JStr i, JStr t]) \<and>
    reads_as order (NewServerNoticeMsg t) (JArr [JStr ''NOTICE'', JStr t]) \<and>
    reads_as order (NewServerAuthMsg t) (JArr [JStr ''AUTH'', JStr t]) \<and>
    (\<exists>ms. reads_as order (NewServerCountMsg i n approx) (JArr [JStr ''COUNT'', JStr i, JObj ms]) \<and>
      mset ms = mset ((''count'', JNum (FormatInt (uint n))) # (case approx of None \<Rightarrow> [] | Some b \<Rightarrow> [(''approximate'', JBool b)])))"
proof (intro conjI)
  let ?ms = "(''count'', int_value (uint n)) # opt_member ''approximate'' JBool approx"
  have "utf8_json (JObj (order ?ms))" using assms(3) by (blast intro: utf8_count_object)
  then have "reads_as order (NewServerCountMsg i n approx) (JArr [JStr ''COUNT'', JStr i, JObj (order ?ms)])"
    using assms by (intro reads_as_value) (simp_all add: server_value_def msg_defs utf8_valid_ascii)
  moreover have "mset (order ?ms) = mset ?ms" using assms(3) by blast
  ultimately show "\<exists>ms. reads_as order (NewServerCountMsg i n approx) (JArr [JStr ''COUNT'', JStr i, JObj ms]) \<and>
      mset ms = mset ((''count'', JNum (FormatInt (uint n))) # (case approx of None \<Rightarrow> [] | Some b \<Rightarrow> [(''approximate'', JBool b)]))"
    by (intro exI[of _ "order ?ms"]) (simp add: int_value_def opt_member_def)
qed (use assms in \<open>auto intro!: reads_as_value simp: server_value_def msg_defs utf8_valid_ascii\<close>)

theorem server_frame_parsed_witness:
  "reads_as rev (NewServerClosedMsg ''s'' [CHR ''r'', CHR 0x22, CHR '','']) (JArr [JStr ''CLOSED'', JStr ''s'', JStr [CHR ''r'', CHR 0x22, CHR '','']])
   \<and> reads_as rev (NewServerOKMsg ''s'' True [CHR ''r'', CHR 0x22, CHR '','']) (JArr [JStr ''OK'', JStr ''s'', JBool True, JStr [CHR ''r'', CHR 0x22, CHR '','']])
   \<and> (\<exists>ms. reads_as rev (NewServerCountMsg ''s'' 3 (Some True)) (JArr [JStr ''COUNT'', JStr ''s'', JObj ms]))"
proof -
  have u: "utf8_valid ''s''" "utf8_valid [CHR ''r'', CHR 0x22, CHR '','']" by (simp_all add: utf8_valid_ascii)
  have r: "\<forall>ms. mset (rev ms) = mset (ms :: (string \<times> json) list)" by simp
  show ?thesis using server_frame_parsed[OF u r] by blast
qed

section \<open>Events through the relay\<close>

lemma relayed_event:
  assumes "event_ok e" "utf8_valid sub"
  shows "\<exists>frame v. ServerMsg_MarshalJSON order (NewServerEventMsg sub e) = Some frame \<and>
    parse_text frame = Some (JArr [JStr MsgTypeEvent, JStr sub, v]) \<and> Event_UnmarshalJSONFrom v = Some e"
proof -
  have u: "utf8_json (event_value e)" using assms(1) by (simp add: event_ok_def)
  let ?v = "JArr [JStr MsgTypeEvent, JStr sub, event_value e]"
  have "server_value order (NewServerEventMsg sub e) = Some ?v" by (simp add: server_value_def)
  moreover have "utf8_json ?v" using u assms(2) by (simp add: utf8_valid_ascii)
  ultimately have f: "ServerMsg_MarshalJSON order (NewServerEventMsg sub e) = Some (print_json ?v)"
    by (simp add: ServerMsg_MarshalJSON_def marshal_json_def)
  have "printable ?v" using printable_event[OF u] assms(2) by (intro printable_arr) (simp add: utf8_valid_ascii)
  from parse_text_print[OF this] f event_ok_decode[OF assms(1)] show ?thesis by blast
qed

lemma parsed_event_ok: "ParseClientMsg data = Some m \<Longrightarrow> CEvent m = Some e \<Longrightarrow> event_ok e"
  using ParseClientMsg_well_formed[of data m] by (simp add: client_msg_ok_def split: if_split_asm)

text \<open>
  C17. An event that a client has submitted reaches every subscriber unchanged: whatever its text, the
  relay can write the EVENT frame, the frame is a JSON array of the label, the subscription and the
  event, and a reader of the frame gets all seven fields back; the text the persistent storage keeps
  reads back as the event, and its canonical serialisation exists.
\<close>

theorem event_relayed_unchanged:
  assumes "ParseClientMsg data = Some m" "CEvent m = Some e" "utf8_valid sub"
  shows "(\<exists>frame v. ServerMsg_MarshalJSON order (NewServerEventMsg sub e) = Some frame \<and>
      parse_text frame = Some (JArr [JStr MsgTypeEvent, JStr sub, v]) \<and> Event_UnmarshalJSONFrom v = Some e) \<and>
    (\<exists>s. Event_Marshal e = Some s \<and> Event_Unmarshal s = Some e) \<and> (\<exists>s. Serialize (Some e) = Inr s)"
  using parsed_event_ok[OF assms(1,2)] assms(3) by (intro conjI relayed_event event_ok_marshal event_ok_serialize)

theorem event_relayed_unchanged_witness:
  "\<exists>frame v. ServerMsg_MarshalJSON rev (NewServerEventMsg ''sub'' (mk_event ''00'' ''aa'' 7 1 [[''t'', ''x'']])) = Some frame \<and>
     parse_text frame = Some (JArr [JStr MsgTypeEvent, JStr ''sub'', v])"
proof -
  have "ParseClientMsg (event_frame (mk_event ''00'' ''aa'' 7 1 [[''t'', ''x'']]) @ []) =
      Some (client_event (mk_event ''00'' ''aa'' 7 1 [[''t'', ''x'']]))" by (rule parse_event_frame[OF sample_event_ok])
  from event_relayed_unchanged[OF this, of _ "''sub''" rev] show ?thesis
    by (auto simp: client_event_def utf8_valid_ascii)
qed

section \<open>Filters through the relay\<close>

lemma filter_print:
  assumes "filter_ok f" "mset ms = mset (filter_object f)"
  shows "printable (JObj ms)" "utf8_json (JObj ms)"
proof -
  have s: "set ms = set (filter_object f)" using assms(2) by (rule mset_eq_setD)
  have "distinct (map fst ms)"
    using filter_object_distinct[OF assms(1)] assms(2) by (metis mset_map mset_eq_imp_distinct_iff)
  then show "printable (JObj ms)" "utf8_json (JObj ms)"
    using filter_object_printable[OF assms(1)] s by (auto simp: list_all_iff)
qed

definition req_frame :: "string \<Rightarrow> json list \<Rightarrow> string" where
  "req_frame sub vs = print_json (JArr (JStr MsgTypeReq # JStr sub # vs))"

text \<open>The same filter, up to the order of the tag names, which Go keeps in a map.\<close>

definition same_filter :: "ReqFilter \<Rightarrow> ReqFilter \<Rightarrow> bool" where
  "same_filter f g \<longleftrightarrow> g\<lparr>TagFilters := []\<rparr> = f\<lparr>TagFilters := []\<rparr> \<and> mset (TagFilters g) = mset (TagFilters f)"

lemma same_filter_Match: "same_filter f g \<Longrightarrow> Match g e = Match f e"
  unfolding same_filter_def by (elim conjE) (rule Match_same, simp, rule mset_eq_setD)

lemma read_printed_filters:
  assumes "list_all filter_ok fs" "\<forall>ms. mset (order ms) = mset ms"
  shows "\<exists>gs. read_filters (print_elems (map (\<lambda>f. JObj (order (filter_object f))) fs) @ r) = Some gs \<and> list_all2 same_filter fs gs"
  using assms(1)
proof (induction fs)
  case Nil
  show ?case by (simp add: read_filters.simps)
next
  case (Cons f fs)
  let ?v = "JObj (order (filter_object f))" and ?r = "print_elems (map (\<lambda>f. JObj (order (filter_object f))) fs) @ r"
  from Cons obtain gs where gs: "read_filters ?r = Some gs" "list_all2 same_filter fs gs" by auto
  have m: "mset (order (filter_object f)) = mset (filter_object f)" using assms(2) by blast
  have f: "filter_ok f" using Cons.prems by simp
  from Filter_decode[OF f m] obtain g where g: "Filter_UnmarshalJSONFrom ?v = Some g" "same_filter f g"
    by (auto simp: same_filter_def)
  have "read_elem (CHR '','' # print_json ?v @ ?r) = Some (?v, ?r)"
    by (rule read_elem_print[OF filter_print(1)[OF f m]]) (simp add: number_ends_def)
  then have "read_filters (CHR '','' # print_json ?v @ ?r) = Some (g # gs)"
    using g(1) gs(1) by (subst read_filters.simps) simp
  with g(2) gs(2) show ?case by auto
qed

lemma parse_req_frame:
  assumes "list_all filter_ok fs" "fs \<noteq> []" "sub \<noteq> ''''" "utf8_valid sub" "\<forall>ms. mset (order ms) = mset ms"
  shows "\<exists>gs. ParseClientMsg (req_frame sub (map (\<lambda>f. JObj (order (filter_object f))) fs) @ trailing) = Some (client_req sub gs) \<and>
    list_all2 same_filter fs gs"
proof -
  let ?vs = "map (\<lambda>f. JObj (order (filter_object f))) fs"
  let ?r1 = "print_elems ?vs @ trailing"
  let ?r = "CHR '','' # print_json (JStr sub) @ ?r1"
  have f: "req_frame sub ?vs @ trailing = CHR ''['' # quote MsgTypeReq @ ?r" by (simp add: req_frame_def)
  obtain gs where gs: "read_filters ?r1 = Some gs" "list_all2 same_filter fs gs"
    using read_printed_filters[OF assms(1,5)] by blast
  have "gs \<noteq> []" using gs(2) assms(2) by auto
  have "clientMsgLabel (CHR ''['' # quote MsgTypeReq @ ?r) = Some MsgTypeReq"
    by (rule label_of_array) (simp_all add: re_word_def isTagLetter_def less_eq_char_def)
  moreover have "read_head (CHR ''['' # quote MsgTypeReq @ ?r) = Some ?r"
    by (rule read_head_array) (simp add: utf8_valid_ascii)
  moreover have "read_elem ?r = Some (JStr sub, ?r1)"
    by (rule read_elem_print) (use assms(4) in \<open>simp_all add: number_ends_def\<close>)
  ultimately have "ParseClientMsg (CHR ''['' # quote MsgTypeReq @ ?r) = Some (client_req sub gs)"
    using assms(3) gs(1) \<open>gs \<noteq> []\<close>
    by (simp add: ParseClientMsg_def parseClientReqMsg_def read_subscription_def validateSubscriptionID_def
        del: clientMsgLabel.simps)
  then show ?thesis using f gs(2) by auto
qed

text \<open>
  C18. Filters survive the wire: a REQ written from well-formed filters, the members of each object in
  any order, is parsed to the same subscription with the same filters in the same order, and each
  selects the same events. Here too bytes after the closing bracket are not looked at.
\<close>

theorem req_frame_parsed:
  assumes "list_all filter_ok fs" "fs \<noteq> []" "sub \<noteq> ''''" "utf8_valid sub" "\<forall>ms. mset (order ms) = mset ms"
  shows "\<exists>gs. ParseClientMsg (req_frame sub (map (\<lambda>f. JObj (order (filter_object f))) fs) @ trailing) = Some (client_req sub gs) \<and>
    list_all2 (\<lambda>f g. same_filter f g \<and> (\<forall>e. Match g e = Match f e)) fs gs \<and>
    list_all (\<lambda>f. Filter_MarshalJSON order f = Some (print_json (JObj (order (filter_object f))))) fs"
proof -
  obtain gs where "ParseClientMsg (req_frame sub (map (\<lambda>f. JObj (order (filter_object f))) fs) @ trailing) = Some (client_req sub gs)"
    "list_all2 same_filter fs gs"
    using parse_req_frame[OF assms] by blast
  moreover have "list_all (\<lambda>f. Filter_MarshalJSON order f = Some (print_json (JObj (order (filter_object f))))) fs"
  proof (unfold list_all_iff, intro ballI)
    fix f assume "f \<in> set fs"
    then have "filter_ok f" using assms(1) by (simp add: list_all_iff)
    then have "utf8_json (JObj (order (filter_object f)))" using assms(5) by (blast intro: filter_print(2))
    then show "Filter_MarshalJSON order f = Some (print_json (JObj (order (filter_object f))))"
      unfolding Filter_MarshalJSON_def marshal_json_def by (rule if_P)
  qed
  moreover have "list_all2 (\<lambda>f g. same_filter f g \<and> (\<forall>e. Match g e = Match f e)) fs gs"
    using calculation(2) by (rule list_all2_mono) (simp add: same_filter_Match)
  ultimately show ?thesis by blast
qed

definition sample_filter :: ReqFilter where
  "sample_filter = empty_filter\<lparr>Kinds := Some [1, 7], TagFilters := [(''t'', [''x'']), (''p'', [])], Limit := Some 5\<rparr>"

lemma sample_filter_ok: "filter_ok sample_filter"
  by (simp add: filter_ok_def sample_filter_def empty_filter_def isTagLetter_def less_eq_char_def int64_def utf8_valid_ascii)

theorem req_frame_parsed_witness:
  "\<exists>g. ParseClientMsg (req_frame ''s'' [JObj (rev (filter_object sample_filter))] @ '' ]'') = Some (client_req ''s'' [g]) \<and>
     Limit g = Some 5"
proof -
  have "list_all filter_ok [sample_filter]" "''s'' \<noteq> ''''" "utf8_valid ''s''" "[sample_filter] \<noteq> []"
    "\<forall>ms. mset (rev ms) = mset ms"
    using sample_filter_ok by (simp_all add: utf8_valid_ascii)
  from req_frame_parsed[OF this(1,4,2,3,5), of "'' ]''"] obtain gs
    where gs: "ParseClientMsg (req_frame ''s'' [JObj (rev (filter_object sample_filter))] @ '' ]'') = Some (client_req ''s'' gs)"
      "list_all2 (\<lambda>f g. same_filter f g \<and> (\<forall>e. Match g e = Match f e)) [sample_filter] gs"
    by auto
  from gs(2) obtain g where "gs = [g]" "same_filter sample_filter g" by (auto simp: list_all2_Cons1)
  moreover from this(2) have "Limit (g\<lparr>TagFilters := []\<rparr>) = Limit (sample_filter\<lparr>TagFilters := []\<rparr>)"
    unfolding same_filter_def by (simp only: conj_absorb)
  then have "Limit g = Some 5" by (simp add: sample_filter_def)
  ultimately show ?thesis using gs(1) by blast
qed

section \<open>From the connection to the handler\<close>

text \<open>
  C16. Everything a connection hands to the handler is well formed: the messages are, in order, what the
  text frames read parse to, each with the label of its frame. An EVENT or AUTH has an event, whose
  numbers are \<^verbatim>\<open>int64\<close>, whose tags are not nil and whose strings are UTF-8, and the event of an EVENT
  has passed \<open>Verify\<close>; a REQ or COUNT has a non-empty identifier and at least one filter, with distinct
  one-letter tag names; a CLOSE has a non-empty identifier.
\<close>

theorem handler_gets_well_formed:
  assumes "readLoop C ParseClientMsg ts (newReadState opts t0 m) = (st', frs)"
  shows "toHandler st' = accepted_frames C ParseClientMsg frs
    \<and> (\<forall>msg\<in>set (toHandler st'). client_msg_ok msg
         \<and> (\<exists>payload. TextFrame payload \<in> set frs \<and> utf8_valid payload \<and> ParseClientMsg payload = Some msg
              \<and> clientMsgLabel payload = Some (CType msg))
         \<and> (CType msg = MsgTypeEvent \<longrightarrow> Verify C (CEvent msg) = Inr True))"
proof -
  note r = read_loop_verified[OF assms]
  have "CEvent msg \<noteq> None" if "client_msg_ok msg" "CType msg = MsgTypeEvent" for msg
    using that by (auto simp: client_msg_ok_def split: option.splits)
  then show ?thesis using r ParseClientMsg_well_formed by blast
qed

definition close_frame_text :: "string \<Rightarrow> string" where
  "close_frame_text sub = print_json (JArr [JStr MsgTypeClose, JStr sub])"

lemma parse_close_frame:
  assumes "sub \<noteq> ''''" "utf8_valid sub"
  shows "ParseClientMsg (close_frame_text sub) = Some (client_close sub)"
proof -
  have f: "close_frame_text sub = CHR ''['' # quote MsgTypeClose @ (CHR '','' # quote sub @ '']'')"
    by (simp add: close_frame_text_def)
  have "clientMsgLabel (close_frame_text sub) = Some MsgTypeClose"
    unfolding f by (rule label_of_array) (simp_all add: re_word_def isTagLetter_def less_eq_char_def)
  moreover have "printable (JArr [JStr MsgTypeClose, JStr sub])" using assms(2) by (simp add: utf8_valid_ascii)
  then have "parse_text (close_frame_text sub) = Some (JArr [JStr MsgTypeClose, JStr sub])"
    unfolding close_frame_text_def by (rule parse_text_print)
  ultimately show ?thesis using assms(1)
    by (simp add: ParseClientMsg_def parseClientCloseMsg_def validateSubscriptionID_def)
qed

lemma read_close_frame:
  "\<exists>st'. readLoop sample_crypto ParseClientMsg [sample_turn (Some (TextFrame (close_frame_text ''a'')))]
      (newReadState sample_options 0 None) = (st', [TextFrame (close_frame_text ''a'')]) \<and> toHandler st' = [client_close ''a'']"
proof -
  have p: "ParseClientMsg (close_frame_text ''a'') = Some (client_close ''a'')"
    by (rule parse_close_frame) (simp_all add: utf8_valid_ascii)
  have u: "utf8_valid (close_frame_text ''a'')"
    by (rule utf8_valid_ascii) (simp add: close_frame_text_def quote_def escape_def)
  have f: "read_frame sample_crypto ParseClientMsg (TextFrame (close_frame_text ''a'')) = Inr (client_close ''a'')"
    using p u by (simp add: read_frame_def client_close_def)
  then show ?thesis
    by (simp add: sample_turn_def sample_options_def newReadState_def newTokenBucket_def read_turn_step_def
      readStall_def allow_def time_Sub_def Seconds_def Let_def)
qed

theorem handler_gets_well_formed_witness:
  "\<exists>st'. readLoop sample_crypto ParseClientMsg [sample_turn (Some (TextFrame (close_frame_text ''a'')))]
      (newReadState sample_options 0 None) = (st', [TextFrame (close_frame_text ''a'')])
    \<and> toHandler st' = [client_close ''a''] \<and> client_msg_ok (client_close ''a'')"
proof -
  obtain st' where r: "readLoop sample_crypto ParseClientMsg [sample_turn (Some (TextFrame (close_frame_text ''a'')))]
      (newReadState sample_options 0 None) = (st', [TextFrame (close_frame_text ''a'')])" "toHandler st' = [client_close ''a'']"
    using read_close_frame by blast
  from handler_gets_well_formed[OF r(1)] r show ?thesis by auto
qed

end
