(* ===== verification/Connection.thy ===== *)
theory Connection
  imports Wire_Properties Storage_Handler
begin

text \<open>
  One connection from the bytes of its frames to the bytes of the answers: the read loop with
  \<^verbatim>\<open>ParseClientMsg\<close>, the storage handler over the in-memory storage, and the write loop with
  \<^verbatim>\<open>MarshalJSON\<close>. The storage is shared, so its state before the conversation is any state that
  conversations lead to.
\<close>

section \<open>Messages that can be written\<close>

text \<open>\<open>order\<close> is the order in which Go iterates over the map of a COUNT.\<close>

definition writable :: "((string \<times> json) list \<Rightarrow> (string \<times> json) list) \<Rightarrow> ServerMsg \<Rightarrow> bool" where
  "writable order r \<longleftrightarrow> (\<exists>frame. ServerMsg_MarshalJSON order r = Some frame)"

lemma writable_iff: "writable order r \<longleftrightarrow> (\<exists>v. server_value order r = Some v \<and> utf8_json v)"
  by (auto simp: writable_def ServerMsg_MarshalJSON_def marshal_json_def split: option.splits)

lemma order_single: "mset (order [x]) = mset [x] \<Longrightarrow> order [x] = [x]"
  by simp

lemma constructors_writable:
  assumes "\<forall>ms. mset (order ms) = mset ms" "utf8_valid i"
  shows "event_ok e \<Longrightarrow> writable order (NewServerEventMsg i e)" "writable order (NewServerEOSEMsg i)"
    "utf8_valid t \<Longrightarrow> writable order (NewServerClosedMsg i t)" "utf8_valid t \<Longrightarrow> writable order (NewServerOKMsg i b t)"
    "writable order (NewServerCountMsg i n None)"
proof -
  show "event_ok e \<Longrightarrow> writable order (NewServerEventMsg i e)"
    using relayed_event[of e i order] assms(2) by (auto simp: writable_def)
  have "order [(''count'', int_value (uint n))] = [(''count'', int_value (uint n))]"
    using assms(1) by (intro order_single) blast
  then show "writable order (NewServerCountMsg i n None)"
    using assms(2) by (simp add: writable_iff server_value_def opt_member_def msg_defs int_value_def utf8_valid_ascii)
qed (use assms(2) in \<open>simp_all add: writable_iff server_value_def msg_defs utf8_valid_ascii\<close>)

lemma event_answer_writable:
  assumes "\<forall>ms. mset (order ms) = mset ms" "utf8_valid i"
  shows "writable order (event_answer i res)"
proof -
  have "utf8_valid ''error: internal error''" "utf8_valid ''duplicate: already have this event''" "utf8_valid ''''"
    by (simp_all add: utf8_valid_ascii)
  then show ?thesis using constructors_writable(4)[OF assms] by (simp add: event_answer_def split: sum.split)
qed

text \<open>The events of a storage that has seen only verified events from the wire.\<close>

definition verified_events :: "('pk, 'sg) crypto \<Rightarrow> Event set \<Rightarrow> bool" where
  "verified_events C E \<longleftrightarrow> (\<forall>e\<in>E. event_ok e \<and> Verify C (Some e) = Inr True)"

lemma answer_writable:
  assumes "\<forall>ms. mset (order ms) = mset ms" "client_msg_ok msg" "verified_events C E" "answer_to E msg r"
  shows "writable order r \<and> (SType r = MsgTypeEvent \<longrightarrow> (\<exists>e\<in>E. r = NewServerEventMsg (CSubscriptionID msg) e) \<and> utf8_valid (CSubscriptionID msg))"
proof -
  note w = constructors_writable[OF assms(1)]
  from assms(4) consider
      e res where "CType msg = MsgTypeEvent" "CEvent msg = Some e" "r = event_answer (ID e) res"
    | "CType msg = MsgTypeEvent" "CEvent msg = None"
    | "CType msg = MsgTypeReq \<or> CType msg = MsgTypeCount" "(\<exists>e\<in>E. r = NewServerEventMsg (CSubscriptionID msg) e) \<or>
        r = NewServerEOSEMsg (CSubscriptionID msg) \<or> r = NewServerClosedMsg (CSubscriptionID msg) queryTimeoutCLOSEDReason
          \<or> (\<exists>n. r = NewServerCountMsg (CSubscriptionID msg) n None)"
    unfolding answer_to_def by (elim disjE[of "Ex _"] disjE[of "_ \<and> _ = None"] conjE exE) blast+
  then show ?thesis
  proof cases
    case 1
    then have "utf8_valid (ID e)" using assms(2) by (auto simp: client_msg_ok_def event_ok_def utf8_event)
    with 1 event_answer_writable[OF assms(1)] show ?thesis by simp
  next
    case 2
    with assms(2) show ?thesis by (auto simp: client_msg_ok_def)
  next
    case 3
    then have u: "utf8_valid (CSubscriptionID msg)" using assms(2) by (auto simp: client_msg_ok_def)
    have t: "utf8_valid queryTimeoutCLOSEDReason" by (simp add: queryTimeoutCLOSEDReason_def utf8_valid_ascii)
    from 3(2) show ?thesis
    proof (elim disjE bexE exE)
      fix e assume "e \<in> E" "r = NewServerEventMsg (CSubscriptionID msg) e"
      with w(1)[OF u] assms(3) u show ?thesis by (auto simp: verified_events_def)
    qed (use w(2,3,5)[OF u] t in simp_all)
  qed
qed

section \<open>The conversation\<close>

definition msg_verified :: "('pk, 'sg) crypto \<Rightarrow> ClientMsg \<Rightarrow> bool" where
  "msg_verified C m \<longleftrightarrow> client_msg_ok m \<and> (CType m = MsgTypeEvent \<longrightarrow> Verify C (CEvent m) = Inr True)"

lemma read_msgs_verified:
  assumes "readLoop C ParseClientMsg ts (newReadState opts t0 m) = (st', frs)" "msg \<in> set (toHandler st')"
  shows "msg_verified C msg"
proof -
  obtain payload where p: "ParseClientMsg payload = Some msg"
    "CType msg = MsgTypeEvent \<longrightarrow> CEvent msg \<noteq> None \<longrightarrow> Verify C (CEvent msg) = Inr True"
    using read_loop_verified[OF assms(1)] assms(2) by blast
  have "client_msg_ok msg" using ParseClientMsg_well_formed[OF p(1)] by blast
  with p(2) show ?thesis by (auto simp: msg_verified_def client_msg_ok_def split: option.splits)
qed

definition answer_ok ::
  "((string \<times> json) list \<Rightarrow> (string \<times> json) list) \<Rightarrow> ('pk, 'sg) crypto \<Rightarrow> ServerMsg \<Rightarrow> bool" where
  "answer_ok order C r \<longleftrightarrow> writable order r \<and>
     (SType r = MsgTypeEvent \<longrightarrow>
        (\<exists>e sub. r = NewServerEventMsg sub e \<and> utf8_valid sub \<and> event_ok e \<and> Verify C (Some e) = Inr True))"

lemma memory_conversation:
  assumes "\<forall>ms. mset (order ms) = mset ms"
  shows "serve_messages h Store Query msgs s = (s', outs) \<Longrightarrow> list_all (msg_verified C) (map snd msgs) \<Longrightarrow> storage_ok s \<Longrightarrow>
    verified_events C (set (events s)) \<Longrightarrow>
    storage_ok s' \<and> verified_events C (set (events s')) \<and> list_all (answer_ok order C) outs"
proof (induction msgs arbitrary: s outs)
  case (Cons p msgs)
  obtain env msg where p: "p = (env, msg)" by force
  obtain s1 out ok where h: "storage_handle h Store Query env s msg = (s1, out, ok)" by (metis prod_cases3)
  note mh = memory_handles[OF h Cons.prems(3)]
  have m: "msg_verified C msg" using Cons.prems(2) p by simp
  have v1: "verified_events C (set (events s1))"
  proof -
    have "event_ok e \<and> Verify C (Some e) = Inr True" if "CType msg = MsgTypeEvent" "CEvent msg = Some e" for e
      using m that by (auto simp: msg_verified_def client_msg_ok_def)
    with mh Cons.prems(4) show ?thesis unfolding verified_events_def by blast
  qed
  have out: "list_all (answer_ok order C) out"
    using mh answer_writable[OF assms _ Cons.prems(4)] m Cons.prems(4)
    unfolding list_all_iff answer_ok_def msg_verified_def verified_events_def by blast
  show ?case
  proof (cases ok)
    case False
    with Cons.prems(1) h p have "s' = s1" "outs = out" by auto
    with mh v1 out show ?thesis by simp
  next
    case True
    obtain outs1 where r: "serve_messages h Store Query msgs s1 = (s', outs1)" "outs = out @ outs1"
      using Cons.prems(1) h p True by (auto split: prod.splits)
    from Cons.IH[OF r(1)] Cons.prems(2) mh v1 out r(2) show ?thesis by simp
  qed
qed simp

lemma writeLoop_writable:
  "list_all (writable order) outs \<Longrightarrow>
    \<exists>wm' frames. writeLoop (ServerMsg_MarshalJSON order) (map (\<lambda>r. WMsg r True) outs) wm = (wm', frames, True)
      \<and> map Some frames = map (ServerMsg_MarshalJSON order) outs \<and> WSWriteErrors wm' = WSWriteErrors wm"
proof (induction outs arbitrary: wm)
  case (Cons r outs)
  then obtain data where d: "ServerMsg_MarshalJSON order r = Some data" by (auto simp: writable_def)
  from Cons.IH[of "wm\<lparr>MessagesSent := inc (SType r) (MessagesSent wm)\<rparr>"] Cons.prems obtain wm' frames where
    "writeLoop (ServerMsg_MarshalJSON order) (map (\<lambda>r. WMsg r True) outs) (wm\<lparr>MessagesSent := inc (SType r) (MessagesSent wm)\<rparr>) = (wm', frames, True)"
    "map Some frames = map (ServerMsg_MarshalJSON order) outs" "WSWriteErrors wm' = WSWriteErrors wm" by auto
  with d show ?case by (intro exI[of _ wm'] exI[of _ "data # frames"]) simp
qed simp

text \<open>
  C15. From bytes to bytes. On a connection served by the storage handler over the in-memory storage,
  whatever frames the client sends and whatever requests time out: every answer can be written, so
  the write loop counts no error and drops no message; every EVENT frame carries an event that has
  passed \<open>Verify\<close> and that a reader of the frame gets back field by field; and the storage again holds
  only such events, so the same is true of every later conversation.
\<close>

theorem storage_connection:
  assumes "readLoop C ParseClientMsg ts (newReadState opts t0 m) = (st', frs)" "map snd msgs = toHandler st'"
    "serve_messages h Store Query msgs s = (s', outs)" "storage_ok s" "verified_events C (set (events s))"
    "\<forall>ms. mset (order ms) = mset ms"
  shows "storage_ok s' \<and> verified_events C (set (events s')) \<and>
    (\<exists>wm' frames. writeLoop (ServerMsg_MarshalJSON order) (map (\<lambda>r. WMsg r True) outs) wm = (wm', frames, True)
       \<and> WSWriteErrors wm' = WSWriteErrors wm \<and> map Some frames = map (ServerMsg_MarshalJSON order) outs) \<and>
    (\<forall>r\<in>set outs. SType r = MsgTypeEvent \<longrightarrow>
       (\<exists>e frame v. SEvent r = Some e \<and> Verify C (Some e) = Inr True \<and> ServerMsg_MarshalJSON order r = Some frame \<and>
          parse_text frame = Some (JArr [JStr MsgTypeEvent, JStr (SSubscriptionID r), v]) \<and> Event_UnmarshalJSONFrom v = Some e))"
proof -
  have "list_all (msg_verified C) (map snd msgs)"
    using read_msgs_verified[OF assms(1)] assms(2) by (simp add: list_all_iff)
  note mc = memory_conversation[OF assms(6,3) this assms(4,5)]
  then have "list_all (writable order) outs" by (auto simp: list_all_iff answer_ok_def)
  from writeLoop_writable[OF this] have w: "\<exists>wm' frames. writeLoop (ServerMsg_MarshalJSON order) (map (\<lambda>r. WMsg r True) outs) wm
      = (wm', frames, True) \<and> WSWriteErrors wm' = WSWriteErrors wm \<and> map Some frames = map (ServerMsg_MarshalJSON order) outs"
    by blast
  have "\<exists>e frame v. SEvent r = Some e \<and> Verify C (Some e) = Inr True \<and> ServerMsg_MarshalJSON order r = Some frame \<and>
      parse_text frame = Some (JArr [JStr MsgTypeEvent, JStr (SSubscriptionID r), v]) \<and> Event_UnmarshalJSONFrom v = Some e"
    if "r \<in> set outs" "SType r = MsgTypeEvent" for r
  proof -
    from mc that obtain e sub where e: "r = NewServerEventMsg sub e" "utf8_valid sub" "event_ok e" "Verify C (Some e) = Inr True"
      unfolding list_all_iff answer_ok_def by blast
    from relayed_event[OF e(3,2), of order] e(1,4) show ?thesis by auto
  qed
  with mc w show ?thesis by blast
qed

lemma sample_note_ok: "event_ok sample_note"
proof -
  have d: "utf8_valid (EncodeToString (replicate 32 (CHR ''A'')))" by (rule utf8_valid_ascii) code_simp
  have "Unix 0 = 0" "time_Unix 0 = 0" "int64 1"
    by (simp_all add: Unix_def wrap64_id int64_def time_Unix_ordinary unixToInternal_def)
  with d show ?thesis by (simp add: event_ok_def utf8_event utf8_valid_ascii) (simp add: sample_note_def utf8_valid_ascii)
qed

lemma sample_note_frame: "utf8_valid (event_frame sample_note)"
  by (rule utf8_valid_ascii) code_simp

theorem storage_connection_witness:
  "\<exists>st' s' outs. readLoop sample_crypto ParseClientMsg [sample_turn (Some (TextFrame (event_frame sample_note)))]
      (newReadState sample_options 0 None) = (st', [TextFrame (event_frame sample_note)])
    \<and> serve_messages (NewStorageHandler None) Store Query [(quiet, client_event sample_note)] NewInMemoryStorage = (s', outs)
    \<and> outs = [NewServerOKMsg (ID sample_note) True ''''] \<and> verified_events sample_crypto (set (events s')) \<and> storage_ok s'"
proof -
  have "read_frame sample_crypto ParseClientMsg (TextFrame (event_frame sample_note)) = Inr (client_event sample_note)"
    using parse_event_frame[OF sample_note_ok, of "[]"] sample_note_frame sample_note_verified
    by (simp add: read_frame_def client_event_def)
  then obtain st' where r: "readLoop sample_crypto ParseClientMsg [sample_turn (Some (TextFrame (event_frame sample_note)))]
      (newReadState sample_options 0 None) = (st', [TextFrame (event_frame sample_note)])" "toHandler st' = [client_event sample_note]"
    by (simp add: sample_turn_def sample_options_def newReadState_def newTokenBucket_def read_turn_step_def
      readStall_def allow_def time_Sub_def Seconds_def Let_def)
  obtain s' b where st: "Store NewInMemoryStorage (Some sample_note) = (s', b)" by force
  have "Kind sample_note = 1" "eventType sample_note = EventTypeRegular"
    by (simp_all add: sample_note_def eventType_def eventType_of_kind_def)
  then have "snd (Store_event NewInMemoryStorage sample_note) = True"
    by (simp add: Store_event_def NewInMemoryStorage_def deleted_by_id_def deleted_by_addr_def store_tail_def)
  then have "b = Inr True" using st by (auto simp: Store_def split_beta)
  with st have s: "serve_messages (NewStorageHandler None) Store Query [(quiet, client_event sample_note)] NewInMemoryStorage =
      (s', [NewServerOKMsg (ID sample_note) True ''''])"
    by (simp add: storage_handle_def handleEvent_def client_event_def event_answer_def)
  have v: "verified_events sample_crypto (set (events NewInMemoryStorage))" by (simp add: verified_events_def NewInMemoryStorage_def)
  have "map snd [(quiet, client_event sample_note)] = toHandler st'" using r(2) by simp
  from storage_connection[OF r(1) this s storage_ok_new v, of id] r(1) s show ?thesis by (metis id_apply)
qed

end
