(* ===== verification/Spec2Isabelle.thy ===== *)
theory Spec2Isabelle
  imports In_Memory_Properties Merge_Handler Router Relay Middleware_Policies Storage_Handler Wrapper_Storage Pebble_Properties Connection
begin

text \<open>
  Verification library for mocrelay, a middleware-composable relay for the Nostr protocol in Go.

  The program. A \<^verbatim>\<open>Relay\<close> (\<^verbatim>\<open>relay.go\<close>) accepts WebSocket connections; a read loop turns frames into client
  messages and a write loop sends relay messages. Between them runs a \<^verbatim>\<open>Handler\<close>: handlers get client
  messages on one channel and send relay messages on another. The relay's handler is usually a
  stack of middlewares (\<^verbatim>\<open>middleware*.go\<close>) around a merge handler (\<^verbatim>\<open>merge_handler.go\<close>) that runs a storage
  handler (\<^verbatim>\<open>storage_handler.go\<close>) for stored events and a router handler (\<^verbatim>\<open>router_handler.go\<close>,
  \<^verbatim>\<open>router.go\<close>) for live events side by side and merges their answers. Storages implement one interface
  (\<^verbatim>\<open>storage.go\<close>): the in-memory storage, and wrappers for search and metrics.

  Theories and code.
    \<^item> \<open>Prelude\<close>, \<open>Text_Encoding\<close>: slices, \<^verbatim>\<open>int64\<close>, time, decimal, hexadecimal and UTF-8 text, JSON strings.
    \<^item> \<open>Event\<close> (\<^verbatim>\<open>event.go\<close>), \<open>Req_Filter\<close> (\<^verbatim>\<open>filter.go\<close>), \<open>Message\<close> (\<^verbatim>\<open>message.go\<close>): the data, validity,
      canonical serialisation, verification, addresses, matching, constructors of messages.
    \<^item> \<open>Json\<close>, \<open>Json_Round_Trip\<close>: JSON values, the tokens and values of a decoder, the encoder, as the two JSON
      packages of Go's library have them; a printed value is read back. \<open>Event_Wire\<close>, \<open>Filter_Wire\<close>,
      \<open>Message_Wire\<close>: the JSON methods of \<^verbatim>\<open>event.go\<close>, \<^verbatim>\<open>filter.go\<close> and \<^verbatim>\<open>message.go\<close>, \<^verbatim>\<open>ParseClientMsg\<close> among
      them; \<open>Wire_Properties\<close>: well-formed messages and round trips, also through the read loop.
      \<open>Connection\<close>: one connection from the bytes read to the bytes written.
    \<^item> \<open>In_Memory_Storage\<close>, \<open>In_Memory_Properties\<close> (\<^verbatim>\<open>storage.go\<close>): \<^verbatim>\<open>Store\<close>, \<^verbatim>\<open>Query\<close>, deletion; the contract
      of storages is the locale \<open>storage\<close>.
    \<^item> \<^verbatim>\<open>pebble_storage.go\<close>: \<open>Pebble_Keys\<close> (keys and their coding), \<open>Go_Heap\<close> (\<^verbatim>\<open>container/heap\<close>), \<open>Pebble_Cursor\<close>
      (the cursors of a query), \<open>Cursor_Contract\<close> and \<open>Cursor_Leaves\<close> (their contract as the locales
      \<open>cursor\<close> and \<open>leaf_cursor\<close>, from leaves to unions and joins), \<open>Filter_Merge\<close> (the loop over the filters),
      \<open>Pebble_Storage\<close> (\<^verbatim>\<open>Store\<close>, deletion, \<^verbatim>\<open>Query\<close>), \<open>Pebble_Index\<close> (the events a database represents),
      \<open>Pebble_Refinement\<close> (\<^verbatim>\<open>Store\<close> refines the in-memory storage), \<open>Pebble_Search\<close> (\<^verbatim>\<open>Query\<close> answers
      exactly), \<open>Pebble_Properties\<close>. The database is the record \<open>pebble\<close>, what it promises \<open>kv_laws\<close>.
    \<^item> \<open>Wrapper_Storage\<close> (\<^verbatim>\<open>composite_storage.go\<close>, \<^verbatim>\<open>metrics_storage.go\<close>).
    \<^item> \<open>Answering\<close> (\<^verbatim>\<open>nop_handler.go\<close>): the contract of a handler that answers each request once, the
      locale \<open>answering\<close>, with interpretations for the nop, router and storage handlers.
    \<^item> \<open>Queued_Handler\<close> (\<^verbatim>\<open>handler.go\<close>): the drain goroutine and the main loop as one step relation.
    \<^item> \<open>Storage_Handler\<close> (\<^verbatim>\<open>storage_handler.go\<close>), \<open>Router\<close> (\<^verbatim>\<open>router.go\<close>, \<^verbatim>\<open>router_handler.go\<close>).
    \<^item> \<open>Merge_Session\<close>, \<open>Merge_Views\<close>, \<open>Gather\<close>, \<open>Merge_Answers\<close>, \<open>Merge_Subscriptions\<close>, \<open>Merge_Handler\<close>
      (\<^verbatim>\<open>merge_handler.go\<close>): the merge session, the view of one request in it, the gathering of
      answers from all children (locale \<open>gather\<close>), subscriptions, and the main loop with its channels.
    \<^item> \<open>Rate_Limit\<close> (\<^verbatim>\<open>rate_limit.go\<close>), \<open>Pow\<close> (\<^verbatim>\<open>pow.go\<close>), \<open>Kind_Label\<close> (\<^verbatim>\<open>kind_label.go\<close>).
    \<^item> \<open>Middleware\<close> (\<^verbatim>\<open>middleware.go\<close>): bases, their composition, the loop of the pipeline as a step
      relation, the lifecycle; the contract of a base is the locale \<open>middleware\<close>.
    \<^item> \<open>Middleware_Auth\<close>, \<open>Middleware_Limits\<close>, \<open>Middleware_Policies\<close>: the seventeen built-in bases, each
      an interpretation of \<open>middleware\<close>; the four rate limits also of \<open>rate_limiter\<close>.
    \<^item> \<open>Relay\<close> (\<^verbatim>\<open>relay.go\<close>): options, HTTP routing, registry and shutdown, read and write loops.

  Conventions. A Go struct is a record with the field names of the code (prefixed where two structs
  share a name), an error is a value of a sum type, a panic \<open>None\<close> or an error value of its own. Code that
  runs in several goroutines is a step relation whose steps are the critical sections, or the turns of
  the loops; clocks, timers, cancellation and the readiness of channels are arguments or arbitrary
  choices of the steps, so the properties hold for all of them. Mutexes and log lines are left out.

  What the lemmas show. Storage: identifiers and addresses stay unique, queries equal a reference
  definition, replaceable events converge, deletions take effect. Persistent storage: it answers like
  the in-memory storage while no database call fails, for events and filters that are regular in the
  sense of \<open>good_events\<close> and \<open>time_ok\<close>, and failing calls leave consistent indexes. The movements of an
  iterator are assumed not to fail there (\<open>iter_laws\<close>); the code never reads their errors, and a property
  shows that a query then answers without its events and without an error.
  Wire: what reaches the handler is well formed, events and filters survive being written and read,
  and every answer of a storage handler can be written.
  Merge: one OK per EVENT and one
  EOSE per REQ when all children answer or are lost, the verdict and the count of the children, and
  that the main loop refines the session. Router: delivery and clean-up. Middlewares: every request
  has exactly one fate, the loop is first in first out, the lifecycle is bracketed, and what each
  policy lets pass. Relay: only verified events reach the handler, read and message rates are bounded,
  the registry counts right. Where the code does not do what it means to, a property says what it does
  instead.

  Bounds and fuel. No definition needs fuel: loops that wait take the finite list of what they observe;
  the join of cursors and the loop of a query are partial functions, with termination proved.
  The queue of a handler holds ten messages, the channel to a child ten as well, as in the code.

  The relay's loops take the parser and the encoder as arguments, as their properties need nothing of
  them; \<open>Wire_Properties\<close> and \<open>Connection\<close> put \<open>ParseClientMsg\<close> and \<open>ServerMsg_MarshalJSON\<close> in.

  Not modelled. The texts of errors of the JSON methods and the decoder's limit on nesting, the closing of Pebble iterators, rounding in the \<^verbatim>\<open>float64\<close> arithmetic of the token bucket and the
  range of its conversion to \<^verbatim>\<open>time.Duration\<close> (rational numbers and integers here, so bounds hold up to rounding, and
  the number of sleeps of the read stall may differ at very small rates), the wrap of the 64-bit counter of
  connections of \<^verbatim>\<open>relay.go\<close> (a natural number here; it would take \<^verbatim>\<open>2^64\<close> connections), the last frame of a read
  loop whose message cannot be delivered any more (the list of frames read leaves it out), the registration of metrics, logging, the Bleve index (an argument of the composite
  storage), the example programs. SHA-256 and Schnorr signatures are the argument \<open>crypto\<close>.
\<close>

end
